(* ===== verification/Prelude.thy ===== *)
theory Prelude
  imports Main "HOL-Library.Word" "HOL-Library.Sublist"
begin

text \<open>
  What every component of the development shares: the collections that the component
  theories fill, byte and result types, the error values of Go, decimal numerals and a few
  facts on lists.
\<close>

section \<open>Collections\<close>

named_theorems ui_defs \<open>definitions of the user interface handlers\<close>
named_theorems go_defs \<open>definitions of the Go operations\<close>
named_theorems fl_simps \<open>evaluation rules of the floating-point operations\<close>

section \<open>Machine types and results\<close>

type_synonym u8 = "8 word"
type_synonym u32 = "32 word"

text \<open>
  A Go error value. \<open>errors.Join\<close> keeps every joined error visible to \<open>errors.Is\<close>, so an
  error is the list of the leaves it was joined from. \<open>Panic\<close> is a run-time panic that
  leaves the function.
\<close>

datatype leaf = Canceled | DeadlineExceeded | OsDeadlineExceeded | RecordNotFound | Msg string

type_synonym error = "leaf list"

datatype 'a outcome = Done 'a | Panic string

definition errors_Is :: "error \<Rightarrow> leaf \<Rightarrow> bool" where
  "errors_Is e l \<longleftrightarrow> l \<in> set e"

definition errors_New :: "string \<Rightarrow> error" where
  "errors_New s = [Msg s]"

definition errors_Join :: "error \<Rightarrow> error \<Rightarrow> error" where
  "errors_Join e1 e2 = e1 @ e2"

text \<open>The test the handlers repeat: the request was cancelled or ran into a deadline.\<close>

definition is_canceled :: "error \<Rightarrow> bool" where
  "is_canceled e \<longleftrightarrow>
     errors_Is e Canceled \<or> errors_Is e DeadlineExceeded \<or> errors_Is e OsDeadlineExceeded"

lemma errors_Is_Join [simp]: "errors_Is (errors_Join e1 e2) l \<longleftrightarrow> errors_Is e1 l \<or> errors_Is e2 l"
  by (simp add: errors_Is_def errors_Join_def)

lemma errors_Is_New [simp]: "errors_Is (errors_New s) l \<longleftrightarrow> l = Msg s"
  by (auto simp: errors_Is_def errors_New_def)

lemma is_canceled_Join [simp]:
  "is_canceled (errors_Join (errors_New s) e) \<longleftrightarrow> is_canceled e"
  by (simp add: is_canceled_def)

section \<open>Decimal numerals\<close>

text \<open>What \<open>strconv.Itoa\<close>, \<open>\<open>%d\<close>\<close> and a template literal print of a natural number.\<close>

definition digit :: "int \<Rightarrow> char" where
  "digit d = char_of (48 + nat d)"

function show_pos :: "int \<Rightarrow> string" where
  "show_pos n = (if n < 10 then [digit n] else show_pos (n div 10) @ [digit (n mod 10)])"
  by pat_completeness auto
termination
  by (relation "measure nat") auto

declare show_pos.simps [simp del]

definition show_nat :: "nat \<Rightarrow> string" where
  "show_nat n = show_pos (int n)"

text \<open>\<open>%d\<close> of a signed number.\<close>

definition show_int :: "int \<Rightarrow> string" where
  "show_int n = (if n < 0 then ''-'' @ show_pos (- n) else show_pos n)"

definition read_pos :: "string \<Rightarrow> int" where
  "read_pos s = foldl (\<lambda>a c. 10 * a + (of_char c - 48)) 0 s"

lemma read_pos_snoc: "read_pos (s @ [c]) = 10 * read_pos s + (of_char c - 48)"
  by (simp add: read_pos_def)

lemma of_char_digit: "0 \<le> d \<Longrightarrow> d < 10 \<Longrightarrow> of_char (digit d) = (48 + d :: int)"
proof -
  assume d: "0 \<le> d" "d < 10"
  have "of_char (digit d) = int (of_char (char_of (48 + nat d) :: char))"
    unfolding digit_def by (simp only: of_nat_of_char)
  also have "\<dots> = 48 + d" using d by simp
  finally show ?thesis .
qed

lemma read_show_pos [simp]: "0 \<le> n \<Longrightarrow> read_pos (show_pos n) = n"
proof (induction n rule: show_pos.induct)
  case (1 n)
  show ?case
  proof (cases "n < 10")
    case True
    with 1 show ?thesis by (simp add: show_pos.simps [of n] read_pos_def of_char_digit)
  next
    case False
    with 1 have "read_pos (show_pos (n div 10)) = n div 10" by simp
    with False show ?thesis
      by (subst show_pos.simps) (simp add: read_pos_snoc of_char_digit)
  qed
qed

lemma show_nat_inject [simp]: "show_nat m = show_nat n \<longleftrightarrow> m = n"
  unfolding show_nat_def by (metis of_nat_0_le_iff of_nat_eq_iff read_show_pos)

lemma show_pos_digits: "0 \<le> n \<Longrightarrow> c \<in> set (show_pos n) \<Longrightarrow> \<exists>d. 0 \<le> d \<and> d < 10 \<and> c = digit d"
proof (induction n rule: show_pos.induct)
  case (1 n)
  show ?case
  proof (cases "n < 10")
    case True
    with 1 show ?thesis by (auto simp: show_pos.simps [of n])
  next
    case False
    have "\<exists>d. 0 \<le> d \<and> d < 10 \<and> digit (n mod 10) = digit d"
      by (rule exI [of _ "n mod 10"]) simp
    moreover have "c \<in> set (show_pos (n div 10)) \<or> c = digit (n mod 10)"
      using 1 False by (auto simp: show_pos.simps [of n])
    ultimately show ?thesis using 1 False by auto
  qed
qed

lemma colon_not_digit: "0 \<le> d \<Longrightarrow> d < 10 \<Longrightarrow> digit d \<noteq> CHR '':''"
proof
  assume d: "0 \<le> d" "d < 10" and eq: "digit d = CHR '':''"
  have "(of_char (digit d) :: int) = 48 + d" using d by (rule of_char_digit)
  moreover have "(of_char (digit d) :: int) = 58" unfolding eq by simp
  ultimately show False using d by simp
qed

lemma show_nat_no_colon: "CHR '':'' \<notin> set (show_nat n)"
  using show_pos_digits [of "int n" "CHR '':''"] colon_not_digit by (fastforce simp: show_nat_def)

lemma show_pos_nonempty [simp]: "show_pos n \<noteq> []"
  by (subst show_pos.simps) simp

lemma show_nat_nonempty [simp]: "show_nat n \<noteq> []"
  by (simp add: show_nat_def)

section \<open>Packed fields\<close>

lemma packed_div: "0 \<le> m \<Longrightarrow> m < b \<Longrightarrow> (m + k * b) div b = (k :: int)"
  by simp

lemma packed_mod: "0 \<le> m \<Longrightarrow> m < b \<Longrightarrow> (m + k * b) mod b = (m :: int)"
  by simp

section \<open>Lists\<close>

lemma list_all2_map_nth:
  "length xs = length ys \<Longrightarrow> (\<And>i. i < length xs \<Longrightarrow> P (xs ! i) (ys ! i)) \<Longrightarrow> list_all2 P xs ys"
  by (simp add: list_all2_conv_all_nth)

lemma filter_neq_not_in: "x \<notin> set (filter (\<lambda>y. y \<noteq> x) xs)"
  by simp

end
