(* ===== verification/Floats.thy ===== *)
theory Floats
  imports Prelude Complex_Main
begin

text \<open>
  IEEE-754 numbers as Go's \<open>float32\<close>/\<open>float64\<close> and JavaScript's \<open>Number\<close> use them. A value is
  NaN, an infinity, minus zero or a rational (\<open>Fin 0\<close> is plus zero); an operation computes the
  exact rational result and rounds it once, to nearest with ties to even, in the format at
  hand, as the standard prescribes. No operation is fused. NaN payloads are not modelled.
\<close>

section \<open>Formats, values and rounding\<close>

datatype fmt = F32 | F64

datatype fl = NaN | PInf | NInf | NZero | Fin rat

fun prec :: "fmt \<Rightarrow> nat" where
  "prec F32 = 24"
| "prec F64 = 53"

fun emin :: "fmt \<Rightarrow> int" where
  "emin F32 = -126"
| "emin F64 = -1022"

fun emax :: "fmt \<Rightarrow> int" where
  "emax F32 = 127"
| "emax F64 = 1023"

definition pow2 :: "int \<Rightarrow> rat" where
  "pow2 e = 2 powi e"

lemma pow2_pos [simp]: "0 < pow2 e"
  by (simp add: pow2_def)

lemma pow2_nonneg [simp]: "0 \<le> pow2 e"
  by (simp add: less_imp_le)

lemma pow2_nonzero [simp]: "pow2 e \<noteq> 0"
  by (simp add: pow2_def)

lemma pow2_add: "pow2 (a + b) = pow2 a * pow2 b"
  by (simp add: pow2_def power_int_add)

lemma pow2_diff: "pow2 (a - b) = pow2 a / pow2 b"
  by (simp add: pow2_def power_int_diff)

lemma pow2_mono: "a \<le> b \<Longrightarrow> pow2 a \<le> pow2 b"
  by (simp add: pow2_def power_int_increasing)

lemma pow2_strict_mono: "a < b \<Longrightarrow> pow2 a < pow2 b"
  by (simp add: pow2_def power_int_strict_increasing)

lemma pow2_less_cancel: "pow2 a < pow2 b \<Longrightarrow> a < b"
  by (meson not_less pow2_mono)

lemma pow2_Ints: "0 \<le> e \<Longrightarrow> pow2 e = of_int (2 ^ nat e)"
  by (simp add: pow2_def power_int_def)

text \<open>The exponent of a positive rational: \<open>pow2 (ilog2 r) \<le> r < pow2 (ilog2 r + 1)\<close>.\<close>

function bit_length :: "int \<Rightarrow> int" where
  "bit_length n = (if n \<le> 0 then 0 else bit_length (n div 2) + 1)"
  by pat_completeness auto
termination
  by (relation "measure nat") auto

declare bit_length.simps [simp del]

definition ilog2 :: "rat \<Rightarrow> int" where
  "ilog2 r = (let (a, b) = quotient_of r; e = bit_length a - bit_length b
              in if pow2 e \<le> r then e else e - 1)"

lemma bit_length_bounds:
  "0 < n \<Longrightarrow> pow2 (bit_length n - 1) \<le> of_int n \<and> of_int n < pow2 (bit_length n)"
proof (induction n rule: bit_length.induct)
  case (1 n)
  show ?case
  proof (cases "n = 1")
    case True
    then show ?thesis
      by (simp add: bit_length.simps [of 1] bit_length.simps [of 0] pow2_def)
  next
    case False
    with 1 have h: "0 < n div 2" by simp
    define b where "b = bit_length (n div 2)"
    have bl: "bit_length n = b + 1" using 1 by (simp add: bit_length.simps [of n] b_def)
    have IH: "pow2 (b - 1) \<le> of_int (n div 2)" "of_int (n div 2) < pow2 b"
      using 1 h by (simp_all add: b_def)
    have "n = 2 * (n div 2) + n mod 2" "0 \<le> n mod 2" "n mod 2 \<le> 1" by simp_all
    then have lo: "2 * rat_of_int (n div 2) \<le> of_int n" and hi: "rat_of_int n \<le> 2 * of_int (n div 2) + 1"
      by linarith+
    have bpos: "0 \<le> b"
    proof (rule ccontr)
      assume "\<not> 0 \<le> b"
      then have "pow2 b \<le> pow2 0" by (intro pow2_mono) simp
      with IH(2) h show False by (simp add: pow2_def [of 0])
    qed
    then have "pow2 b = of_int (2 ^ nat b)" by (simp add: pow2_Ints)
    then have "n div 2 + 1 \<le> 2 ^ nat b" using IH(2) by (simp only: of_int_less_iff zless_imp_add1_zle)
    then have "rat_of_int (n div 2 + 1) \<le> of_int (2 ^ nat b)" by (simp only: of_int_le_iff)
    then have "rat_of_int (n div 2) + 1 \<le> pow2 b" using bpos by (simp add: pow2_Ints)
    moreover have "pow2 (b + 1) = 2 * pow2 b" "pow2 b = 2 * pow2 (b - 1)"
      using pow2_add [of 1 b] pow2_add [of 1 "b - 1"] by (simp_all add: pow2_def [of 1] add.commute)
    ultimately show ?thesis using IH lo hi by (simp add: bl)
  qed
qed

lemma ilog2_bounds:
  assumes "0 < r"
  shows "pow2 (ilog2 r) \<le> r \<and> r < pow2 (ilog2 r + 1)"
proof -
  obtain a b where q: "quotient_of r = (a, b)" by (cases "quotient_of r")
  have b: "0 < b" using q by (rule quotient_of_denom_pos)
  have r: "r = of_int a / of_int b" using q by (rule quotient_of_div)
  with b assms have a: "0 < a" by (simp add: zero_less_divide_iff)
  define x where "x = bit_length a"
  define y where "y = bit_length b"
  have ra: "pow2 (x - 1) \<le> of_int a" "of_int a < pow2 x" "pow2 (y - 1) \<le> of_int b" "of_int b < pow2 y"
    using bit_length_bounds [OF a] bit_length_bounds [OF b] by (simp_all add: x_def y_def)
  have bq: "0 < rat_of_int b" using b by simp
  have lo: "pow2 (x - y - 1) \<le> r"
  proof -
    have "pow2 (x - y - 1) * of_int b \<le> pow2 (x - y - 1) * pow2 y"
      using ra by (intro mult_left_mono) simp_all
    also have "\<dots> = pow2 (x - 1)" by (simp flip: pow2_add)
    also have "\<dots> \<le> of_int a" using ra by simp
    finally show ?thesis using bq by (simp add: r pos_le_divide_eq)
  qed
  have hi: "r < pow2 (x - y + 1)"
  proof -
    have "of_int a < pow2 x" using ra by simp
    also have "\<dots> = pow2 (x - y + 1) * pow2 (y - 1)" by (simp flip: pow2_add)
    also have "\<dots> \<le> pow2 (x - y + 1) * of_int b"
      using ra by (intro mult_left_mono) simp_all
    finally show ?thesis using bq by (simp add: r pos_divide_less_eq)
  qed
  show ?thesis using lo hi by (auto simp: ilog2_def Let_def q x_def [symmetric] y_def [symmetric])
qed

lemma ilog2_unique:
  assumes "pow2 e \<le> r" and "r < pow2 (e + 1)"
  shows "ilog2 r = e"
proof -
  have r: "0 < r" using assms(1) pow2_pos [of e] by linarith
  note b = ilog2_bounds [OF r]
  have "pow2 (ilog2 r) < pow2 (e + 1)" "pow2 e < pow2 (ilog2 r + 1)"
    using b assms by linarith+
  then show ?thesis by (auto dest!: pow2_less_cancel)
qed

lemma ilog2_mono: "0 < r \<Longrightarrow> r \<le> s \<Longrightarrow> ilog2 r \<le> ilog2 s"
proof -
  assume r: "0 < r" and rs: "r \<le> s"
  have "pow2 (ilog2 r) \<le> r" using ilog2_bounds [OF r] by simp
  also have "r \<le> s" by (rule rs)
  also have "s < pow2 (ilog2 s + 1)" using ilog2_bounds [of s] r rs by simp
  finally have "ilog2 r < ilog2 s + 1" by (rule pow2_less_cancel)
  then show ?thesis by simp
qed

text \<open>Round to the nearest integer, a tie to the even one.\<close>

definition rhe :: "rat \<Rightarrow> int" where
  "rhe r = (let n = \<lfloor>r\<rfloor>; d = r - of_int n
            in if d < 1 / 2 then n else if 1 / 2 < d then n + 1 else if even n then n else n + 1)"

lemma rhe_of_int [simp]: "rhe (of_int n) = n"
  by (simp add: rhe_def)

lemma rhe_near: "\<bar>of_int (rhe r) - r\<bar> \<le> 1 / 2"
proof -
  have "of_int \<lfloor>r\<rfloor> \<le> r" "r < of_int \<lfloor>r\<rfloor> + 1" by linarith+
  then show ?thesis unfolding rhe_def Let_def abs_le_iff
    by (cases "r - of_int \<lfloor>r\<rfloor> < 1 / 2"; cases "1 / 2 < r - of_int \<lfloor>r\<rfloor>"; simp; linarith)
qed

lemma rhe_mono: "r \<le> s \<Longrightarrow> rhe r \<le> rhe s"
proof -
  assume rs: "r \<le> s"
  have f: "of_int \<lfloor>r\<rfloor> \<le> r" "r < of_int \<lfloor>r\<rfloor> + 1" "of_int \<lfloor>s\<rfloor> \<le> s" "s < of_int \<lfloor>s\<rfloor> + 1"
    by linarith+
  have le: "\<lfloor>r\<rfloor> \<le> \<lfloor>s\<rfloor>" using rs by (rule floor_mono)
  show ?thesis
  proof (cases "\<lfloor>r\<rfloor> = \<lfloor>s\<rfloor>")
    case True
    then show ?thesis using rs by (auto simp: rhe_def Let_def)
  next
    case False
    with le have "\<lfloor>r\<rfloor> + 1 \<le> \<lfloor>s\<rfloor>" by simp
    moreover have "rhe r \<le> \<lfloor>r\<rfloor> + 1" "\<lfloor>s\<rfloor> \<le> rhe s" by (auto simp: rhe_def Let_def)
    ultimately show ?thesis by linarith
  qed
qed

text \<open>Rounding to a format. The quantum is the distance of neighbours near \<open>r\<close>; below the smallest
normal number it stays fixed (gradual underflow).\<close>

definition quantum_exp :: "fmt \<Rightarrow> rat \<Rightarrow> int" where
  "quantum_exp f r = max (ilog2 r) (emin f) - (int (prec f) - 1)"

definition round_rat :: "fmt \<Rightarrow> rat \<Rightarrow> rat" where
  "round_rat f r =
     (if r = 0 then 0
      else let q = pow2 (quantum_exp f \<bar>r\<bar>)
           in sgn r * (of_int (rhe (\<bar>r\<bar> / q)) * q))"

definition maxfin :: "fmt \<Rightarrow> rat" where
  "maxfin f = (pow2 (int (prec f)) - 1) * pow2 (emax f - (int (prec f) - 1))"

definition mk :: "fmt \<Rightarrow> rat \<Rightarrow> fl" where
  "mk f r = (let q = round_rat f r
             in if maxfin f < q then PInf
                else if q < - maxfin f then NInf
                else if q = 0 \<and> r < 0 then NZero
                else Fin q)"

lemma round_rat_0 [simp]: "round_rat f 0 = 0"
  by (simp add: round_rat_def)

lemma round_rat_minus [simp]: "round_rat f (- r) = - round_rat f r"
  by (simp add: round_rat_def Let_def sgn_minus)

lemma prec_pos [simp]: "0 < prec f"
  by (cases f) simp_all

lemma round_rat_pos: "0 < r \<Longrightarrow>
    round_rat f r = of_int (rhe (r / pow2 (quantum_exp f r))) * pow2 (quantum_exp f r)"
  by (simp add: round_rat_def Let_def)

lemma quantum_exp_mono: "0 < r \<Longrightarrow> r \<le> s \<Longrightarrow> quantum_exp f r \<le> quantum_exp f s"
  using ilog2_mono [of r s] by (simp add: quantum_exp_def)

lemma rhe_nonneg: "0 \<le> r \<Longrightarrow> 0 \<le> rhe r"
  using rhe_mono [of 0 r] rhe_of_int [of 0] by simp

lemma round_rat_nonneg: "0 \<le> r \<Longrightarrow> 0 \<le> round_rat f r"
  by (cases "r = 0") (simp_all add: round_rat_pos rhe_nonneg)

text \<open>A number that is a multiple of the quantum at hand and lies above stays above.\<close>

lemma round_rat_le_multiple:
  assumes "0 < r" and "r \<le> of_int k * pow2 (quantum_exp f r)"
  shows "round_rat f r \<le> of_int k * pow2 (quantum_exp f r)"
proof -
  have "r / pow2 (quantum_exp f r) \<le> of_int k" using assms by (simp add: pos_divide_le_eq)
  then have "rhe (r / pow2 (quantum_exp f r)) \<le> k" using rhe_mono rhe_of_int by metis
  then show ?thesis using assms(1) by (simp add: round_rat_pos)
qed

lemma round_rat_ge_multiple:
  assumes "0 < r" and "of_int k * pow2 (quantum_exp f r) \<le> r"
  shows "of_int k * pow2 (quantum_exp f r) \<le> round_rat f r"
proof -
  have "of_int k \<le> r / pow2 (quantum_exp f r)" using assms by (simp add: pos_le_divide_eq)
  then have "k \<le> rhe (r / pow2 (quantum_exp f r))" using rhe_mono rhe_of_int by metis
  then show ?thesis using assms(1) by (simp add: round_rat_pos)
qed

lemma pow2_multiple:
  assumes "q \<le> e"
  shows "pow2 e = of_int (2 ^ nat (e - q)) * pow2 q"
  using assms pow2_add [of "e - q" q] by (simp add: pow2_Ints)

lemma round_rat_mono_pos:
  assumes r: "0 < r" and rs: "r \<le> s"
  shows "round_rat f r \<le> round_rat f s"
proof (cases "quantum_exp f r = quantum_exp f s")
  case True
  have "r / pow2 (quantum_exp f s) \<le> s / pow2 (quantum_exp f s)"
    using rs by (simp add: divide_right_mono)
  then show ?thesis using r rs True by (simp add: round_rat_pos rhe_mono)
next
  case False
  with quantum_exp_mono [OF r rs, of f] have "quantum_exp f r < quantum_exp f s" by simp
  then have s_exp: "quantum_exp f s = ilog2 s - (int (prec f) - 1)" and lt: "max (ilog2 r) (emin f) < ilog2 s"
    by (auto simp: quantum_exp_def max_def split: if_splits)
  have s: "0 < s" using r rs by simp
  define p where "p = ilog2 s"
  have qr: "quantum_exp f r \<le> p" using lt by (auto simp: quantum_exp_def p_def)
  have qs: "quantum_exp f s \<le> p" by (simp add: s_exp p_def Suc_le_eq)
  have "r < pow2 (ilog2 r + 1)" using ilog2_bounds [OF r] by simp
  also have "\<dots> \<le> pow2 p" using lt by (intro pow2_mono) (simp add: p_def)
  finally have "round_rat f r \<le> pow2 p"
    using round_rat_le_multiple [OF r, of "2 ^ nat (p - quantum_exp f r)" f]
    unfolding pow2_multiple [OF qr, symmetric] by simp
  also have "pow2 p \<le> round_rat f s"
    using round_rat_ge_multiple [OF s, of "2 ^ nat (p - quantum_exp f s)" f] ilog2_bounds [OF s]
    unfolding pow2_multiple [OF qs, symmetric] by (simp add: p_def)
  finally show ?thesis .
qed

lemma round_rat_mono: "r \<le> s \<Longrightarrow> round_rat f r \<le> round_rat f s"
proof -
  assume rs: "r \<le> s"
  consider "0 < r" | "r \<le> 0" "0 \<le> s" | "s < 0" by linarith
  then show ?thesis
  proof cases
    case 1
    then show ?thesis using rs by (rule round_rat_mono_pos)
  next
    case 2
    have "round_rat f r \<le> 0" using round_rat_nonneg [of "- r" f] 2 by simp
    moreover have "0 \<le> round_rat f s" using round_rat_nonneg 2 by simp
    ultimately show ?thesis by simp
  next
    case 3
    then show ?thesis using round_rat_mono_pos [of "- s" "- r" f] rs by simp
  qed
qed

text \<open>The numbers of a format: those rounding leaves alone.\<close>

definition representable :: "fmt \<Rightarrow> rat \<Rightarrow> bool" where
  "representable f r \<longleftrightarrow> round_rat f r = r \<and> \<bar>r\<bar> \<le> maxfin f"

lemma maxfin_pos [simp]: "0 < maxfin f"
proof -
  have "pow2 0 < pow2 (int (prec f))" by (rule pow2_strict_mono) simp
  then show ?thesis by (simp add: maxfin_def pow2_def [of 0])
qed

lemma mk_representable: "representable f r \<Longrightarrow> mk f r = Fin r"
  by (auto simp: representable_def mk_def Let_def abs_le_iff)

lemma mk_0 [simp]: "mk f 0 = Fin 0"
  using maxfin_pos [of f] by (simp add: mk_def not_less less_imp_le del: maxfin_pos)

lemma representable_0 [simp]: "representable f 0"
  by (simp add: representable_def less_imp_le)

text \<open>An integer multiple of a quantum of the format, with at most \<open>prec\<close> bits, is exact.\<close>

lemma round_rat_exact_pos:
  assumes k: "0 < k" "k < 2 ^ prec f" and q: "emin f - (int (prec f) - 1) \<le> q"
  shows "round_rat f (of_int k * pow2 q) = of_int k * pow2 q"
proof -
  define r where "r = of_int k * pow2 q"
  have r: "0 < r" using k by (simp add: r_def)
  have "of_int k < rat_of_int (2 ^ prec f)" using k by (simp only: of_int_less_iff)
  then have "r < pow2 (int (prec f)) * pow2 q" by (simp add: r_def pow2_Ints)
  also have "\<dots> = pow2 (int (prec f) + q)" by (simp flip: pow2_add)
  finally have "pow2 (ilog2 r) < pow2 (int (prec f) + q)"
    using ilog2_bounds [OF r] by linarith
  then have "ilog2 r < int (prec f) + q" by (rule pow2_less_cancel)
  then have le: "quantum_exp f r \<le> q" using q by (simp add: quantum_exp_def)
  have e: "r = of_int (k * 2 ^ nat (q - quantum_exp f r)) * pow2 (quantum_exp f r)"
    using arg_cong [OF pow2_multiple [OF le], of "\<lambda>x. of_int k * x"]
    by (simp only: r_def [symmetric] of_int_mult mult.assoc)
  have "round_rat f r \<le> r" "r \<le> round_rat f r"
    using round_rat_le_multiple [OF r, of "k * 2 ^ nat (q - quantum_exp f r)" f]
      round_rat_ge_multiple [OF r, of "k * 2 ^ nat (q - quantum_exp f r)" f]
    by (simp_all only: e [symmetric] order_refl)
  then show ?thesis by (simp add: r_def)
qed

lemma round_rat_exact_top:
  assumes q: "emin f - (int (prec f) - 1) \<le> q"
  shows "round_rat f (of_int (2 ^ prec f) * pow2 q) = of_int (2 ^ prec f) * pow2 q"
proof -
  have e: "of_int (2 ^ prec f) * pow2 q = of_int (2 ^ (prec f - 1)) * pow2 (q + 1)"
    by (cases f) (simp_all add: pow2_add pow2_def [of 1])
  show ?thesis unfolding e by (rule round_rat_exact_pos) (use q in \<open>cases f; simp\<close>)+
qed

lemma round_rat_exact:
  assumes k: "\<bar>k\<bar> \<le> 2 ^ prec f" and q: "emin f - (int (prec f) - 1) \<le> q"
  shows "round_rat f (of_int k * pow2 q) = of_int k * pow2 q"
proof -
  have pos: "round_rat f (of_int j * pow2 q) = of_int j * pow2 q" if "0 < j" "j \<le> 2 ^ prec f" for j
    using round_rat_exact_pos [OF _ _ q, of j] round_rat_exact_top [OF q] that
    by (cases "j = 2 ^ prec f") auto
  consider "0 < k" | "k = 0" | "k < 0" by linarith
  then show ?thesis
  proof cases
    case 3
    then show ?thesis using pos [of "- k"] k by simp
  qed (use pos [of k] k in simp_all)
qed

lemma round_rat_idem [simp]: "round_rat f (round_rat f r) = round_rat f r"
proof -
  have pos: "round_rat f (round_rat f s) = round_rat f s" if s: "0 < s" for s
  proof -
    define q where "q = quantum_exp f s"
    define k where "k = rhe (s / pow2 q)"
    have eq: "round_rat f s = of_int k * pow2 q" using s by (simp add: round_rat_pos q_def k_def)
    have "ilog2 s \<le> q + (int (prec f) - 1)" by (simp add: q_def quantum_exp_def)
    then have "pow2 (ilog2 s + 1) \<le> pow2 (int (prec f) + q)" by (intro pow2_mono) simp
    then have "s \<le> pow2 (int (prec f)) * pow2 q"
      using ilog2_bounds [OF s] by (simp add: pow2_add)
    then have "s / pow2 q \<le> of_int (2 ^ prec f)" by (simp add: pos_divide_le_eq pow2_Ints)
    then have "k \<le> 2 ^ prec f" unfolding k_def using rhe_mono rhe_of_int by metis
    moreover have "0 \<le> k" unfolding k_def using s by (intro rhe_nonneg) simp
    ultimately show ?thesis unfolding eq by (intro round_rat_exact) (simp_all add: q_def quantum_exp_def)
  qed
  consider "0 < r" | "r = 0" | "r < 0" by linarith
  then show ?thesis
  proof cases
    case 3
    then show ?thesis using pos [of "- r"] by simp
  qed (use pos in simp_all)
qed

lemma representable_round: "\<bar>round_rat f r\<bar> \<le> maxfin f \<Longrightarrow> representable f (round_rat f r)"
  by (simp add: representable_def)

lemma maxfin_ge: "of_int (2 ^ prec f - 1) \<le> maxfin f"
proof -
  have "pow2 0 \<le> pow2 (emax f - (int (prec f) - 1))" by (cases f; intro pow2_mono; simp)
  then have "1 \<le> pow2 (emax f - (int (prec f) - 1))" by (simp add: pow2_def [of 0])
  then have "(pow2 (int (prec f)) - 1) * 1 \<le> maxfin f"
    unfolding maxfin_def by (intro mult_left_mono) (cases f; simp add: pow2_Ints)+
  then show ?thesis by (simp add: pow2_Ints)
qed

lemma representable_of_int:
  assumes "\<bar>k\<bar> < 2 ^ prec f"
  shows "representable f (of_int k)"
proof -
  have "round_rat f (of_int k * pow2 0) = of_int k * pow2 0"
    using assms by (intro round_rat_exact) (cases f; simp)+
  moreover have "\<bar>k\<bar> \<le> 2 ^ prec f - 1" using assms by simp
  then have "rat_of_int \<bar>k\<bar> \<le> of_int (2 ^ prec f - 1)" by (simp only: of_int_le_iff)
  then have "\<bar>rat_of_int k\<bar> \<le> maxfin f" using maxfin_ge [of f] by simp
  ultimately show ?thesis by (simp add: representable_def pow2_def [of 0])
qed

section \<open>Operations\<close>

fun val :: "fl \<Rightarrow> rat" where
  "val (Fin r) = r"
| "val _ = 0"

fun is_finite :: "fl \<Rightarrow> bool" where
  "is_finite (Fin _) = True"
| "is_finite NZero = True"
| "is_finite _ = False"

fun negative :: "fl \<Rightarrow> bool" where
  "negative (Fin r) = (r < 0)"
| "negative NZero = True"
| "negative NInf = True"
| "negative _ = False"

definition signed_inf :: "bool \<Rightarrow> fl" where
  "signed_inf s = (if s then NInf else PInf)"

definition signed_zero :: "bool \<Rightarrow> fl" where
  "signed_zero s = (if s then NZero else Fin 0)"

fun fl_neg :: "fl \<Rightarrow> fl" where
  "fl_neg NaN = NaN"
| "fl_neg PInf = NInf"
| "fl_neg NInf = PInf"
| "fl_neg NZero = Fin 0"
| "fl_neg (Fin r) = (if r = 0 then NZero else Fin (- r))"

definition fl_add :: "fmt \<Rightarrow> fl \<Rightarrow> fl \<Rightarrow> fl" where
  "fl_add f x y =
     (if x = NaN \<or> y = NaN then NaN
      else if x = PInf then (if y = NInf then NaN else PInf)
      else if x = NInf then (if y = PInf then NaN else NInf)
      else if y = PInf \<or> y = NInf then y
      else if x = NZero \<and> y = NZero then NZero
      else mk f (val x + val y))"

definition fl_sub :: "fmt \<Rightarrow> fl \<Rightarrow> fl \<Rightarrow> fl" where
  "fl_sub f x y = fl_add f x (fl_neg y)"

definition fl_mul :: "fmt \<Rightarrow> fl \<Rightarrow> fl \<Rightarrow> fl" where
  "fl_mul f x y =
     (let s = (negative x \<noteq> negative y)
      in if x = NaN \<or> y = NaN then NaN
         else if \<not> is_finite x \<or> \<not> is_finite y
              then (if (is_finite x \<and> val x = 0) \<or> (is_finite y \<and> val y = 0) then NaN else signed_inf s)
         else if val x = 0 \<or> val y = 0 then signed_zero s
         else mk f (val x * val y))"

definition fl_div :: "fmt \<Rightarrow> fl \<Rightarrow> fl \<Rightarrow> fl" where
  "fl_div f x y =
     (let s = (negative x \<noteq> negative y)
      in if x = NaN \<or> y = NaN then NaN
         else if \<not> is_finite x then (if is_finite y then signed_inf s else NaN)
         else if \<not> is_finite y then signed_zero s
         else if val y = 0 then (if val x = 0 then NaN else signed_inf s)
         else if val x = 0 then signed_zero s
         else mk f (val x / val y))"

text \<open>Conversion between the formats (Go's \<open>float32(x)\<close> and \<open>float64(x)\<close>).\<close>

fun fl_conv :: "fmt \<Rightarrow> fl \<Rightarrow> fl" where
  "fl_conv f (Fin r) = mk f r"
| "fl_conv f x = x"

text \<open>The comparison of the languages: false as soon as one side is NaN.\<close>

definition fl_less :: "fl \<Rightarrow> fl \<Rightarrow> bool" where
  "fl_less x y =
     (if x = NaN \<or> y = NaN then False
      else if x = NInf then y \<noteq> NInf
      else if x = PInf then False
      else if y = PInf then True
      else if y = NInf then False
      else val x < val y)"

definition fl_eq :: "fl \<Rightarrow> fl \<Rightarrow> bool" where
  "fl_eq x y \<longleftrightarrow> x \<noteq> NaN \<and> y \<noteq> NaN \<and> (if is_finite x \<and> is_finite y then val x = val y else x = y)"

text \<open>
  Go's \<open>cmp.Compare\<close> on floats: NaN is below every other value and equal to itself. The rank
  maps a value to a linear order with the same comparison.
\<close>

definition fl_rank :: "fl \<Rightarrow> int \<times> rat" where
  "fl_rank x = (case x of NaN \<Rightarrow> (0, 0) | NInf \<Rightarrow> (1, 0) | NZero \<Rightarrow> (2, 0) | Fin r \<Rightarrow> (2, r) | PInf \<Rightarrow> (3, 0))"

definition rank_le :: "fl \<Rightarrow> fl \<Rightarrow> bool" where
  "rank_le x y \<longleftrightarrow> fst (fl_rank x) < fst (fl_rank y)
     \<or> fst (fl_rank x) = fst (fl_rank y) \<and> snd (fl_rank x) \<le> snd (fl_rank y)"

definition cmp_Compare :: "fl \<Rightarrow> fl \<Rightarrow> int" where
  "cmp_Compare x y =
     (if x = NaN then (if y = NaN then 0 else -1)
      else if y = NaN then 1
      else if fl_less x y then -1
      else if fl_less y x then 1
      else 0)"

lemma cmp_Compare_rank: "cmp_Compare x y \<le> 0 \<longleftrightarrow> rank_le x y"
  by (cases x; cases y) (auto simp: cmp_Compare_def rank_le_def fl_rank_def fl_less_def)

lemma rank_le_refl [simp]: "rank_le x x"
  by (simp add: rank_le_def)

lemma rank_le_trans: "rank_le x y \<Longrightarrow> rank_le y z \<Longrightarrow> rank_le x z"
  by (auto simp: rank_le_def)

lemma rank_le_total: "rank_le x y \<or> rank_le y x"
  by (auto simp: rank_le_def)

text \<open>Exact results are delivered as they are.\<close>

lemma val_mk: "\<bar>round_rat f r\<bar> \<le> maxfin f \<Longrightarrow> val (mk f r) = round_rat f r"
  by (auto simp: mk_def Let_def abs_le_iff)

lemma is_finite_mk [simp]: "is_finite (mk f r) \<longleftrightarrow> \<bar>round_rat f r\<bar> \<le> maxfin f"
  by (auto simp: mk_def Let_def abs_le_iff)

lemma round_rat_between:
  assumes "representable f a" and "representable f b" and "a \<le> r" and "r \<le> b"
  shows "a \<le> round_rat f r" and "round_rat f r \<le> b" and "\<bar>round_rat f r\<bar> \<le> maxfin f"
proof -
  show lo: "a \<le> round_rat f r" and hi: "round_rat f r \<le> b"
    using assms round_rat_mono [of a r f] round_rat_mono [of r b f] by (simp_all add: representable_def)
  show "\<bar>round_rat f r\<bar> \<le> maxfin f"
    using lo hi assms(1,2) by (auto simp: representable_def abs_le_iff)
qed

lemma mk_nonneg: "0 \<le> r \<Longrightarrow> round_rat f r \<le> maxfin f \<Longrightarrow> mk f r = Fin (round_rat f r)"
  using round_rat_nonneg [of r f] maxfin_pos [of f] by (auto simp: mk_def Let_def)

text \<open>A result between two numbers of the format, the lower one not negative.\<close>

lemma mk_between:
  assumes "representable f a" and "representable f b" and "0 \<le> a" and "a \<le> r" and "r \<le> b"
  shows "\<exists>q. mk f r = Fin q \<and> representable f q \<and> a \<le> q \<and> q \<le> b \<and> q = round_rat f r"
  using round_rat_between [OF assms(1,2,4,5)] mk_nonneg [of r f] assms(3,4) representable_round [of f r]
  by auto

lemma representable_numeral [simp]:
  "(numeral n :: int) < 2 ^ prec f \<Longrightarrow> representable f (numeral n)"
  using representable_of_int [of "numeral n" f] by simp

lemma representable_1 [simp]: "representable f 1"
  using representable_of_int [of 1 f] by (cases f) simp_all

section \<open>Values of the operations\<close>

text \<open>On finite arguments whose exact result rounds into the format, an operation rounds that result.\<close>

lemma is_finite_neg [simp]: "is_finite (fl_neg x) = is_finite x"
  by (cases x) auto

lemma val_neg [simp]: "val (fl_neg x) = - val x"
  by (cases x) auto

lemma is_finite_cases: "is_finite x \<Longrightarrow> (\<And>r. x = Fin r \<Longrightarrow> P) \<Longrightarrow> (x = NZero \<Longrightarrow> P) \<Longrightarrow> P"
  by (cases x) auto

lemma fl_add_val [fl_simps]:
  assumes "is_finite x" and "is_finite y" and "\<bar>round_rat f (val x + val y)\<bar> \<le> maxfin f"
  shows "is_finite (fl_add f x y)" and "val (fl_add f x y) = round_rat f (val x + val y)"
  using assms by (auto elim!: is_finite_cases simp: fl_add_def val_mk)

lemma fl_sub_val [fl_simps]:
  assumes "is_finite x" and "is_finite y" and "\<bar>round_rat f (val x - val y)\<bar> \<le> maxfin f"
  shows "is_finite (fl_sub f x y)" and "val (fl_sub f x y) = round_rat f (val x - val y)"
  using fl_add_val [of x "fl_neg y" f] assms by (simp_all add: fl_sub_def)

lemma fl_mul_val [fl_simps]:
  assumes "is_finite x" and "is_finite y" and "\<bar>round_rat f (val x * val y)\<bar> \<le> maxfin f"
  shows "is_finite (fl_mul f x y)" and "val (fl_mul f x y) = round_rat f (val x * val y)"
  using assms by (auto elim!: is_finite_cases simp: fl_mul_def val_mk signed_zero_def Let_def)

lemma fl_div_val [fl_simps]:
  assumes "is_finite x" and "is_finite y" and "val y \<noteq> 0" and "\<bar>round_rat f (val x / val y)\<bar> \<le> maxfin f"
  shows "is_finite (fl_div f x y)" and "val (fl_div f x y) = round_rat f (val x / val y)"
  using assms by (auto elim!: is_finite_cases simp: fl_div_def val_mk signed_zero_def Let_def)

lemma fl_less_finite: "is_finite x \<Longrightarrow> is_finite y \<Longrightarrow> fl_less x y \<longleftrightarrow> val x < val y"
  by (auto elim!: is_finite_cases simp: fl_less_def)

text \<open>Every number of a format is a multiple of the smallest quantum, so a difference does not vanish.\<close>

lemma representable_multiple:
  assumes "representable f r"
  shows "\<exists>k. r = of_int k * pow2 (emin f - (int (prec f) - 1))"
proof -
  have pos: "\<exists>k. s = of_int k * pow2 (emin f - (int (prec f) - 1))"
    if s: "0 < s" and rep: "round_rat f s = s" for s
  proof -
    have le: "emin f - (int (prec f) - 1) \<le> quantum_exp f s" by (simp add: quantum_exp_def)
    have "s = of_int (rhe (s / pow2 (quantum_exp f s))) * pow2 (quantum_exp f s)"
      using rep s by (simp add: round_rat_pos)
    also have "\<dots> = of_int (rhe (s / pow2 (quantum_exp f s)) * 2 ^ nat (quantum_exp f s - (emin f - (int (prec f) - 1))))
        * pow2 (emin f - (int (prec f) - 1))"
      by (subst (2) pow2_multiple [OF le]) (simp only: of_int_mult mult.assoc)
    finally show ?thesis by blast
  qed
  consider "0 < r" | "r = 0" | "r < 0" by linarith
  then show ?thesis
  proof cases
    case 1
    then show ?thesis using pos assms by (simp add: representable_def)
  next
    case 2
    then show ?thesis by (intro exI [of _ 0]) simp
  next
    case 3
    then obtain k where "- r = of_int k * pow2 (emin f - (int (prec f) - 1))"
      using pos [of "- r"] assms by (auto simp: representable_def)
    then show ?thesis by (intro exI [of _ "- k"]) simp
  qed
qed

lemma round_diff_pos:
  assumes "representable f a" and "representable f b" and "a < b"
  shows "0 < round_rat f (b - a)"
proof -
  let ?q = "emin f - (int (prec f) - 1)"
  obtain j k where jk: "a = of_int j * pow2 ?q" "b = of_int k * pow2 ?q"
    using representable_multiple [OF assms(1)] representable_multiple [OF assms(2)] by blast
  then have "j < k" using assms(3) by simp
  then have "1 \<le> rat_of_int (k - j)" by simp
  then have "1 * pow2 ?q \<le> of_int (k - j) * pow2 ?q" by (intro mult_right_mono) simp_all
  then have "pow2 ?q \<le> b - a" by (simp add: jk algebra_simps)
  then have "round_rat f (pow2 ?q) \<le> round_rat f (b - a)" by (rule round_rat_mono)
  moreover have "round_rat f (of_int 1 * pow2 ?q) = of_int 1 * pow2 ?q"
    by (rule round_rat_exact) (cases f; simp)+
  ultimately have "pow2 ?q \<le> round_rat f (b - a)" by simp
  then show ?thesis by (rule less_le_trans [OF pow2_pos])
qed

text \<open>The rounding error: relative to the number, and absolute where the format runs out.\<close>

definition ulp :: "fmt \<Rightarrow> rat" where
  "ulp f = pow2 (- int (prec f))"

definition tiny :: "fmt \<Rightarrow> rat" where
  "tiny f = pow2 (emin f - int (prec f))"

lemma pow2_half: "pow2 (e + 1) = 2 * pow2 e"
  by (simp add: pow2_add) (simp add: pow2_def)

lemma round_rat_error: "\<bar>round_rat f r - r\<bar> \<le> ulp f * \<bar>r\<bar> + tiny f"
proof -
  have pos: "\<bar>round_rat f s - s\<bar> \<le> ulp f * s + tiny f" if s: "0 < s" for s
  proof -
    define q where "q = quantum_exp f s"
    have "\<bar>of_int (rhe (s / pow2 q)) - s / pow2 q\<bar> * pow2 q \<le> 1 / 2 * pow2 q"
      by (intro mult_right_mono rhe_near) simp
    also have "\<bar>of_int (rhe (s / pow2 q)) - s / pow2 q\<bar> * pow2 q = \<bar>round_rat f s - s\<bar>"
      by (simp add: round_rat_pos [OF s] q_def abs_mult_pos left_diff_distrib)
    finally have half: "\<bar>round_rat f s - s\<bar> \<le> pow2 (q - 1)"
      using pow2_half [of "q - 1"] by simp
    have "q - 1 = ilog2 s - int (prec f) \<or> q - 1 = emin f - int (prec f)"
      by (auto simp: q_def quantum_exp_def max_def)
    then show ?thesis
    proof
      assume "q - 1 = ilog2 s - int (prec f)"
      then have "pow2 (q - 1) = pow2 (ilog2 s) * ulp f"
        by (simp add: ulp_def flip: pow2_add)
      also have "\<dots> \<le> s * ulp f"
        using ilog2_bounds [OF s] by (intro mult_right_mono) (simp_all add: ulp_def)
      finally have "\<bar>round_rat f s - s\<bar> \<le> s * ulp f" using half by simp
      moreover have "0 \<le> tiny f" by (simp add: tiny_def)
      ultimately show ?thesis by (simp add: mult.commute)
    next
      assume "q - 1 = emin f - int (prec f)"
      then have "\<bar>round_rat f s - s\<bar> \<le> tiny f" using half by (simp add: tiny_def)
      moreover have "0 \<le> ulp f * s" using s by (simp add: ulp_def)
      ultimately show ?thesis by simp
    qed
  qed
  consider "0 < r" | "r = 0" | "r < 0" by linarith
  then show ?thesis
  proof cases
    case 1
    then show ?thesis using pos by simp
  next
    case 2
    then show ?thesis by (simp add: tiny_def)
  next
    case 3
    then show ?thesis using pos [of "- r"] by (simp add: abs_minus_commute)
  qed
qed

lemma ulp_tiny: "0 < ulp f" "ulp f \<le> 1 / 8388608" "0 < tiny f" "tiny f \<le> ulp f / 8388608"
proof -
  have p23: "pow2 (- 23) = 1 / 8388608" by (simp add: pow2_def power_int_def power_one_over)
  have "ulp f \<le> pow2 (- 23)" unfolding ulp_def by (rule pow2_mono) (cases f; simp)
  moreover have "tiny f \<le> pow2 (- int (prec f) + - 23)" unfolding tiny_def
    by (rule pow2_mono) (cases f; simp)
  ultimately show "0 < ulp f" "ulp f \<le> 1 / 8388608" "0 < tiny f" "tiny f \<le> ulp f / 8388608"
    unfolding pow2_add p23 by (simp_all add: ulp_def tiny_def)
qed

end
