(* ===== verification/Decimal.thy ===== *)
theory Decimal
  imports Floats
begin

text \<open>
  Decimal printing of floating-point numbers: the shortest digits that read back as the same
  number, as Go's \<open>strconv.FormatFloat(x, 'f', -1, 32)\<close> and JavaScript's \<open>Number::toString\<close> choose
  them, and JavaScript's \<open>toFixed\<close>.
\<close>

section \<open>Shortest digits\<close>

definition pow10 :: "int \<Rightarrow> rat" where
  "pow10 e = 10 powi e"

text \<open>The decimal exponent: \<open>pow10 (ilog10 r) \<le> r < pow10 (ilog10 r + 1)\<close> for \<open>r\<close> in a format's range.\<close>

definition ilog10 :: "rat \<Rightarrow> int" where
  "ilog10 r = (let e = (ilog2 r * 1233) div 4096
               in if pow10 (e + 1) \<le> r then e + 1 else if r < pow10 e then e - 1 else e)"

text \<open>The nearest number with \<open>k\<close> digits, as an integer and a power of ten.\<close>

definition nearest_digits :: "rat \<Rightarrow> nat \<Rightarrow> int \<times> int" where
  "nearest_digits r k = (let e = ilog10 r - int k + 1 in (rhe (r / pow10 e), e))"

fun shortest_from :: "fmt \<Rightarrow> rat \<Rightarrow> nat \<Rightarrow> nat \<Rightarrow> int \<times> int" where
  "shortest_from f r k 0 = nearest_digits r k"
| "shortest_from f r k (Suc n) =
     (let (d, e) = nearest_digits r k
      in if mk f (of_int d * pow10 e) = Fin r then (d, e) else shortest_from f r (Suc k) n)"

text \<open>At most 17 digits identify a \<open>float64\<close>.\<close>

definition shortest :: "fmt \<Rightarrow> rat \<Rightarrow> int \<times> int" where
  "shortest f r = shortest_from f r 1 16"

text \<open>Digits and exponent without trailing zeros in the digits (ten to the top digit may round up).\<close>

fun strip_zeros :: "nat \<Rightarrow> int \<Rightarrow> int \<Rightarrow> int \<times> int" where
  "strip_zeros 0 d e = (d, e)"
| "strip_zeros (Suc n) d e = (if d mod 10 = 0 \<and> d \<noteq> 0 then strip_zeros n (d div 10) (e + 1) else (d, e))"

definition plain_decimal :: "int \<Rightarrow> int \<Rightarrow> string" where
  "plain_decimal d e =
     (let s = show_pos d; n = int (length s) + e
      in if 0 \<le> e then s @ replicate (nat e) CHR ''0''
         else if 0 < n then take (nat n) s @ ''.'' @ drop (nat n) s
         else ''0.'' @ replicate (nat (- n)) CHR ''0'' @ s)"

text \<open>\<open>strconv.FormatFloat(x, 'f', -1, 32)\<close>: the argument is converted to \<open>float32\<close> first.\<close>

definition FormatFloat_f32 :: "fl \<Rightarrow> string" where
  "FormatFloat_f32 x =
     (case fl_conv F32 x of
        NaN \<Rightarrow> ''NaN'' | PInf \<Rightarrow> ''+Inf'' | NInf \<Rightarrow> ''-Inf'' | NZero \<Rightarrow> ''-0''
      | Fin r \<Rightarrow> if r = 0 then ''0''
                else (let (d, e) = shortest F32 \<bar>r\<bar>; (d', e') = strip_zeros 20 d e
                      in (if r < 0 then ''-'' else '''') @ plain_decimal d' e'))"

text \<open>JavaScript's \<open>Number::toString\<close>: plain notation between \<open>1e-7\<close> and \<open>1e21\<close>, exponents outside.\<close>

definition number_string :: "fl \<Rightarrow> string" where
  "number_string x =
     (case x of
        NaN \<Rightarrow> ''NaN'' | PInf \<Rightarrow> ''Infinity'' | NInf \<Rightarrow> ''-Infinity'' | NZero \<Rightarrow> ''0''
      | Fin r \<Rightarrow> if r = 0 then ''0''
                else (let (d0, e0) = shortest F64 \<bar>r\<bar>; (d, e) = strip_zeros 20 d0 e0;
                          s = show_pos d; n = int (length s) + e
                      in (if r < 0 then ''-'' else '''') @
                         (if -6 < n \<and> n \<le> 21 then plain_decimal d e
                          else take 1 s @ (if length s = 1 then '''' else ''.'' @ drop 1 s) @ ''e'' @
                               (if 0 < n then ''+'' else ''-'') @ show_pos \<bar>n - 1\<bar>)))"

text \<open>
  \<open>x.toFixed(k)\<close>: the integer \<open>n\<close> with \<open>n / 10^k\<close> nearest to \<open>x\<close>, the larger one on a tie, printed with
  \<open>k\<close> decimals; only a number below zero gets a sign, and from \<open>1e21\<close> on it is \<open>toString\<close>.
\<close>

definition fixed_digits :: "rat \<Rightarrow> nat \<Rightarrow> int" where
  "fixed_digits r k = \<lfloor>r * 10 ^ k + 1 / 2\<rfloor>"

definition pad_digits :: "nat \<Rightarrow> string \<Rightarrow> string" where
  "pad_digits k s = replicate (k + 1 - length s) CHR ''0'' @ s"

definition print_fixed :: "nat \<Rightarrow> int \<Rightarrow> string" where
  "print_fixed k n =
     (if k = 0 then show_pos n
      else (let s = pad_digits k (show_pos n)
            in take (length s - k) s @ ''.'' @ drop (length s - k) s))"

definition toFixed :: "fl \<Rightarrow> nat \<Rightarrow> string" where
  "toFixed x k =
     (case x of
        Fin r \<Rightarrow> if 10 ^ 21 \<le> \<bar>r\<bar> then number_string x
                else (if r < 0 then ''-'' else '''') @ print_fixed k (fixed_digits \<bar>r\<bar> k)
      | NZero \<Rightarrow> print_fixed k 0
      | _ \<Rightarrow> number_string x)"

lemma fixed_digits_near: "\<bar>of_int (fixed_digits r k) - r * 10 ^ k\<bar> \<le> 1 / 2"
proof -
  have "of_int \<lfloor>r * 10 ^ k + 1 / 2\<rfloor> \<le> r * 10 ^ k + 1 / 2"
       "r * 10 ^ k + 1 / 2 < of_int \<lfloor>r * 10 ^ k + 1 / 2\<rfloor> + 1" by linarith+
  then show ?thesis unfolding fixed_digits_def abs_le_iff by linarith
qed

lemma fixed_digits_mono: "r \<le> s \<Longrightarrow> fixed_digits r k \<le> fixed_digits s k"
  unfolding fixed_digits_def by (intro floor_mono) (simp add: mult_right_mono)

end
