(* ===== verification/JsBase.thy ===== *)
theory JsBase
  imports Decimal
begin

text \<open>
  What the user interface under \<open>ui/src\<close> uses of JavaScript and the web platform: strings of
  UTF-16 code units, JSON values, \<open>undefined\<close> and the nullish operators, requests of \<open>fetch\<close>.
\<close>

section \<open>Strings\<close>

type_synonym jsstr = "16 word list"

definition js :: "string \<Rightarrow> jsstr" where
  "js s = map of_char s"

lemma js_Nil [simp]: "js [] = []"
  by (simp add: js_def)

lemma js_append [simp]: "js (s @ t) = js s @ js t"
  by (simp add: js_def)

lemma js_eq_Nil [simp]: "js s = [] \<longleftrightarrow> s = []"
  by (simp add: js_def)

lemma length_js [simp]: "length (js s) = length s"
  by (simp add: js_def)

text \<open>White space and line terminators, the code units \<open>String.prototype.trim\<close> strips.\<close>

definition js_space :: "16 word \<Rightarrow> bool" where
  "js_space c \<longleftrightarrow>
     c \<in> {9, 10, 11, 12, 13, 32, 160, 0x1680, 0x2028, 0x2029, 0x202F, 0x205F, 0x3000, 0xFEFF}
     \<or> (0x2000 \<le> c \<and> c \<le> 0x200A)"

definition trim :: "jsstr \<Rightarrow> jsstr" where
  "trim s = rev (dropWhile js_space (rev (dropWhile js_space s)))"

text \<open>\<open>s.substring(0, n)\<close> and \<open>s.endsWith(t)\<close>.\<close>

definition substring0 :: "nat \<Rightarrow> jsstr \<Rightarrow> jsstr" where
  "substring0 n s = take n s"

definition endsWith :: "jsstr \<Rightarrow> jsstr \<Rightarrow> bool" where
  "endsWith s t \<longleftrightarrow> suffix t s"

fun js_join :: "jsstr \<Rightarrow> jsstr list \<Rightarrow> jsstr" where
  "js_join sep [] = []"
| "js_join sep [x] = x"
| "js_join sep (x # xs) = x @ sep @ js_join sep xs"

lemma dropWhile_idem_last:
  "dropWhile P (rev (dropWhile P (rev (dropWhile P s)))) = rev (dropWhile P (rev (dropWhile P s)))"
proof (cases "dropWhile P s")
  case Nil
  then show ?thesis by (simp only: rev.simps dropWhile.simps)
next
  case (Cons c t)
  then have c: "\<not> P c" by (simp add: dropWhile_eq_Cons_conv)
  have "\<exists>u. rev (dropWhile P (rev (c # t))) = c # u"
    using c by (simp add: dropWhile_append) (metis rev.simps(2) rev_rev_ident rev_append append_Cons)
  with Cons c show ?thesis by auto
qed

lemma trim_trim [simp]: "trim (trim s) = trim s"
  by (simp add: trim_def dropWhile_idem_last)

section \<open>JSON values and undefined\<close>

datatype json = JNull | JBool bool | JNum fl | JStr jsstr | JArr "json list" | JObj "(jsstr \<times> json) list"

text \<open>A JavaScript value that may be \<open>undefined\<close>.\<close>

type_synonym jsval = "json option"

text \<open>An object literal given to \<open>JSON.stringify\<close>: members that are \<open>undefined\<close> are left out.\<close>

fun stringify_obj :: "(string \<times> jsval) list \<Rightarrow> json" where
  "stringify_obj kvs = JObj (List.map_filter (\<lambda>(k, v). map_option (\<lambda>j. (js k, j)) v) kvs)"

text \<open>\<open>String(v)\<close>: an array joins its elements with commas, null elements printing as nothing.\<close>

fun js_String :: "json \<Rightarrow> jsstr" where
  "js_String JNull = js ''null''"
| "js_String (JBool b) = js (if b then ''true'' else ''false'')"
| "js_String (JNum x) = js (number_string x)"
| "js_String (JStr s) = s"
| "js_String (JArr xs) = js_join (js '','') (map (\<lambda>x. if x = JNull then [] else js_String x) xs)"
| "js_String (JObj _) = js ''[object Object]''"

text \<open>\<open>v?.length ? v : w\<close> and \<open>v ?? w\<close> on a field that may be null or undefined.\<close>

definition nullish :: "'a option \<Rightarrow> 'a \<Rightarrow> 'a" where
  "nullish x d = (case x of None \<Rightarrow> d | Some v \<Rightarrow> v)"

lemma nullish_simps [simp]: "nullish None d = d" "nullish (Some v) d = v"
  by (simp_all add: nullish_def)

section \<open>Requests\<close>

record http_request =
  req_url :: string
  req_method :: string
  req_headers :: "(string \<times> string) list"
  req_body :: json

text \<open>
  What \<open>await fetch(\<dots>)\<close> and \<open>await response.json()\<close> come to: a network failure, or a response with
  its \<open>ok\<close> flag, its status text and a body that parses or does not.
\<close>

datatype 'b body = BodyJson 'b | BodyInvalid jsstr

datatype 'b fetch_outcome = NetworkError jsstr | Response bool jsstr "'b body"

text \<open>The \<open>try\<close> block the API functions share: a thrown error is \<open>Inl\<close>.\<close>

fun await_json :: "'b fetch_outcome \<Rightarrow> jsstr + 'b" where
  "await_json (NetworkError e) = Inl e"
| "await_json (Response False statusText _) = Inl statusText"
| "await_json (Response True _ (BodyInvalid e)) = Inl e"
| "await_json (Response True _ (BodyJson b)) = Inr b"

end
