(* ===== verification/UiApi.thy ===== *)
theory UiApi
  imports JsBase
begin

text \<open>
  The API functions of \<open>ui/src/api\<close>. Each builds a POST request and settles on what the network
  gives back: the parsed body, or \<open>undefined\<close> after logging when the request failed, the response was
  not ok or its body did not parse. The network is the argument \<open>fetch\<close>. A response type of the
  source is a record; a field the callers guard with \<open>??\<close> may be absent or null.
\<close>

section \<open>Requests and responses\<close>

definition json_headers :: "(string \<times> string) list" where
  "json_headers = [(''Accept'', ''application/json''), (''Content-Type'', ''application/json'')]"

definition post_json :: "string \<Rightarrow> json \<Rightarrow> http_request" where
  "post_json u b = \<lparr>req_url = u, req_method = ''POST'', req_headers = json_headers, req_body = b\<rparr>"

text \<open>\<open>catch\<close>: the error is logged and the promise resolves to \<open>undefined\<close>.\<close>

definition settle :: "'b fetch_outcome \<Rightarrow> 'b option" where
  "settle o' = (case await_json o' of Inl err \<Rightarrow> None | Inr b \<Rightarrow> Some b)"

lemma settle_Some_iff: "settle r = Some b \<longleftrightarrow> (\<exists>s. r = Response True s (BodyJson b))"
  by (cases r rule: await_json.cases) (auto simp: settle_def)

lemma settle_None_iff:
  "settle r = None \<longleftrightarrow>
     (\<exists>e. r = NetworkError e) \<or> (\<exists>s b. r = Response False s b) \<or> (\<exists>s e. r = Response True s (BodyInvalid e))"
  by (cases r rule: await_json.cases) (auto simp: settle_def)

section \<open>Categories\<close>

record FetchCategoryNamesResponse =
  category_names :: "jsstr list option"

definition GetCategories_request :: "jsstr \<Rightarrow> http_request" where
  "GetCategories_request owner =
     post_json ''/api/categories'' (stringify_obj [(''owner'', Some (JStr owner))])"

definition GetCategories ::
  "(http_request \<Rightarrow> FetchCategoryNamesResponse fetch_outcome) \<Rightarrow> jsstr \<Rightarrow> FetchCategoryNamesResponse option"
  where
  "GetCategories fetch owner = settle (fetch (GetCategories_request owner))"

section \<open>Search\<close>

record SearchRequest =
  sr_owner :: jsstr
  sr_category :: jsstr
  sr_prefix :: "jsstr option"
  sr_text :: jsstr
  sr_count :: int
  sr_offset :: "int option"
  sr_centroids :: "int option"

record DocumentSearch =
  ds_name :: "jsstr option"
  ds_external_id :: "jsstr option"
  ds_document :: json
  ds_document_id :: fl
  ds_document_similarity :: fl

record SearchResponse =
  documents :: "DocumentSearch list option"

definition json_int :: "int \<Rightarrow> json" where
  "json_int n = JNum (mk F64 (of_int n))"

definition Search_request :: "SearchRequest \<Rightarrow> http_request" where
  "Search_request r =
     post_json ''/api/search'' (stringify_obj
       [(''owner'', Some (JStr (sr_owner r))), (''category'', Some (JStr (sr_category r))),
        (''prefix'', map_option JStr (sr_prefix r)), (''text'', Some (JStr (sr_text r))),
        (''count'', Some (json_int (sr_count r))), (''offset'', map_option json_int (sr_offset r)),
        (''centroids'', map_option json_int (sr_centroids r))])"

definition Search_api ::
  "(http_request \<Rightarrow> SearchResponse fetch_outcome) \<Rightarrow> SearchRequest \<Rightarrow> SearchResponse option" where
  "Search_api fetch r = settle (fetch (Search_request r))"

section \<open>Upload\<close>

record DocumentUpload =
  du_external_id :: "jsstr option"
  du_document :: json

record UploadRequest =
  ur_owner :: jsstr
  ur_category :: jsstr
  ur_name :: "jsstr option"
  ur_external_id :: "jsstr option"
  ur_documents :: "DocumentUpload list"
  ur_no_update :: "bool option"

record UploadResponse =
  document_ids :: "fl list"

definition Upload_request :: "UploadRequest \<Rightarrow> http_request" where
  "Upload_request r =
     post_json ''/api/upload'' (stringify_obj
       [(''owner'', Some (JStr (ur_owner r))), (''category'', Some (JStr (ur_category r))),
        (''name'', map_option JStr (ur_name r)), (''external_id'', map_option JStr (ur_external_id r)),
        (''documents'', Some (JArr (map (\<lambda>d. stringify_obj
            [(''external_id'', map_option JStr (du_external_id d)), (''document'', Some (du_document d))])
            (ur_documents r)))),
        (''no_update'', map_option JBool (ur_no_update r))])"

definition Upload_api ::
  "(http_request \<Rightarrow> UploadResponse fetch_outcome) \<Rightarrow> UploadRequest \<Rightarrow> UploadResponse option" where
  "Upload_api fetch r = settle (fetch (Upload_request r))"

section \<open>Deletion\<close>

text \<open>The deletion functions return nothing; their value here is the error they log, if any.\<close>

definition logged :: "'b fetch_outcome \<Rightarrow> jsstr option" where
  "logged o' = (case await_json o' of Inl err \<Rightarrow> Some err | Inr b \<Rightarrow> None)"

definition DeleteOwner_request :: "jsstr \<Rightarrow> http_request" where
  "DeleteOwner_request owner = post_json ''/api/delete/owner'' (stringify_obj [(''owner'', Some (JStr owner))])"

definition DeleteOwner_api :: "(http_request \<Rightarrow> json fetch_outcome) \<Rightarrow> jsstr \<Rightarrow> jsstr option" where
  "DeleteOwner_api fetch owner = logged (fetch (DeleteOwner_request owner))"

definition DeleteCategory_request :: "jsstr \<Rightarrow> jsstr \<Rightarrow> http_request" where
  "DeleteCategory_request owner category =
     post_json ''/api/delete/category''
       (stringify_obj [(''owner'', Some (JStr owner)), (''category'', Some (JStr category))])"

definition DeleteCategory_api :: "(http_request \<Rightarrow> json fetch_outcome) \<Rightarrow> jsstr \<Rightarrow> jsstr \<Rightarrow> jsstr option" where
  "DeleteCategory_api fetch owner category = logged (fetch (DeleteCategory_request owner category))"

definition DeleteDocument_request :: "jsstr \<Rightarrow> jsstr \<Rightarrow> fl \<Rightarrow> http_request" where
  "DeleteDocument_request owner category documentID =
     post_json ''/api/delete/document''
       (stringify_obj [(''owner'', Some (JStr owner)), (''category'', Some (JStr category)),
                       (''document_id'', Some (JNum documentID))])"

definition DeleteDocument_api ::
  "(http_request \<Rightarrow> json fetch_outcome) \<Rightarrow> jsstr \<Rightarrow> jsstr \<Rightarrow> fl \<Rightarrow> jsstr option" where
  "DeleteDocument_api fetch owner category documentID =
     logged (fetch (DeleteDocument_request owner category documentID))"

section \<open>Chat\<close>

record ChatRequest =
  cr_prefix :: "jsstr option"
  cr_history :: "jsstr list option"
  cr_text :: jsstr
  cr_document_ids :: "fl list option"
  cr_documents :: "json list option"

definition Chat_request :: "ChatRequest \<Rightarrow> http_request" where
  "Chat_request r =
     \<lparr>req_url = ''/api/chat'', req_method = ''POST'',
      req_headers = [(''Accept'', ''text/plain''), (''Content-Type'', ''application/json'')],
      req_body = stringify_obj
        [(''prefix'', map_option JStr (cr_prefix r)),
         (''history'', map_option (\<lambda>h. JArr (map JStr h)) (cr_history r)),
         (''text'', Some (JStr (cr_text r))),
         (''document_ids'', map_option (\<lambda>ids. JArr (map JNum ids)) (cr_document_ids r)),
         (''documents'', map_option JArr (cr_documents r))]\<rparr>"

text \<open>
  What reading the stream of a chat response comes to: \<open>fetch\<close> rejects, the response has no body, or
  chunks of bytes arrive one after another until the stream ends or fails. \<open>TextDecoder\<close> with
  \<open>stream: true\<close> keeps undecoded bytes between the calls: it is a function of its own state and the
  chunk. The observable effects are the calls of the two callbacks, in order.
\<close>

datatype stream_end = StreamDone | StreamError jsstr

datatype 'b chat_outcome = ChatRejected jsstr | NoBody | Stream "'b list" stream_end

datatype chat_call = SetResponse jsstr | Completed

fun read_stream :: "('s \<Rightarrow> 'b \<Rightarrow> 's \<times> jsstr) \<Rightarrow> 's \<Rightarrow> jsstr \<Rightarrow> 'b list \<Rightarrow> chat_call list" where
  "read_stream decode st result [] = []"
| "read_stream decode st result (value # rest) =
     (let (st', chunk) = decode st value; result' = result @ chunk
      in SetResponse result' # read_stream decode st' result' rest)"

definition no_stream_error :: jsstr where
  "no_stream_error = js ''Error: ReadableStream not supported in this browser.''"

fun Chat_api :: "('s \<Rightarrow> 'b \<Rightarrow> 's \<times> jsstr) \<Rightarrow> 's \<Rightarrow> 'b chat_outcome \<Rightarrow> chat_call list" where
  "Chat_api decode st (ChatRejected err) = [SetResponse err, Completed]"
| "Chat_api decode st NoBody = [SetResponse no_stream_error, Completed]"
| "Chat_api decode st (Stream chunks StreamDone) = read_stream decode st [] chunks @ [Completed]"
| "Chat_api decode st (Stream chunks (StreamError err)) =
     read_stream decode st [] chunks @ [SetResponse err, Completed]"

text \<open>The decoder run over all chunks at once.\<close>

fun decode_all :: "('s \<Rightarrow> 'b \<Rightarrow> 's \<times> jsstr) \<Rightarrow> 's \<Rightarrow> 'b list \<Rightarrow> jsstr" where
  "decode_all decode st [] = []"
| "decode_all decode st (b # bs) = (let (st', s) = decode st b in s @ decode_all decode st' bs)"

lemma length_read_stream [simp]: "length (read_stream decode st acc cs) = length cs"
  by (induction cs arbitrary: st acc) (auto simp: Let_def split: prod.split)

lemma read_stream_nth:
  "i < length cs \<Longrightarrow>
     read_stream decode st acc cs ! i = SetResponse (acc @ decode_all decode st (take (Suc i) cs))"
proof (induction cs arbitrary: st acc i)
  case (Cons c cs)
  then show ?case by (cases i) (auto simp: Let_def split: prod.split)
qed simp

lemma read_stream_last:
  assumes "cs \<noteq> []"
  shows "last (read_stream decode st acc cs) = SetResponse (acc @ decode_all decode st cs)"
proof -
  have "read_stream decode st acc cs \<noteq> []" using assms length_read_stream [of decode st acc cs] by force
  then show ?thesis
    using assms read_stream_nth [of "length cs - 1" cs decode st acc] by (simp add: last_conv_nth)
qed

lemma Completed_not_in_stream [simp]: "Completed \<notin> set (read_stream decode st acc cs)"
  by (induction cs arbitrary: st acc) (auto simp: Let_def split: prod.split)

lemma decode_all_append:
  "\<exists>st'. decode_all decode st (xs @ ys) = decode_all decode st xs @ decode_all decode st' ys"
  by (induction xs arbitrary: st) (auto simp: Let_def split: prod.split)

end
