(* ===== verification/Machine.thy ===== *)
theory Machine
  imports Prelude
begin

text \<open>
  Components of the user interface are machines: a state, events that the view or the network
  enables, and a step per event. This theory holds runs of such a machine, their reachable states and
  the interface of an invariant that every enabled step keeps.
\<close>

section \<open>Runs\<close>

fun run :: "('s \<Rightarrow> 'e \<Rightarrow> bool) \<Rightarrow> ('s \<Rightarrow> 'e \<Rightarrow> 's) \<Rightarrow> 's \<Rightarrow> 'e list \<Rightarrow> 's option" where
  "run enabled step s [] = Some s"
| "run enabled step s (e # es) = (if enabled s e then run enabled step (step s e) es else None)"

inductive reach :: "('s \<Rightarrow> 'e \<Rightarrow> bool) \<Rightarrow> ('s \<Rightarrow> 'e \<Rightarrow> 's) \<Rightarrow> 's \<Rightarrow> 'e list \<Rightarrow> 's \<Rightarrow> bool"
  for enabled step s0 where
  start: "reach enabled step s0 [] s0"
| move: "reach enabled step s0 es s \<Longrightarrow> enabled s e \<Longrightarrow> reach enabled step s0 (es @ [e]) (step s e)"

lemma run_append:
  "run enabled step s (es @ fs) =
     (case run enabled step s es of None \<Rightarrow> None | Some t \<Rightarrow> run enabled step t fs)"
  by (induction es arbitrary: s) auto

lemma run_snoc:
  "run enabled step s (es @ [e]) = Some t \<longleftrightarrow>
     (\<exists>u. run enabled step s es = Some u \<and> enabled u e \<and> t = step u e)"
  by (auto simp: run_append split: option.splits)

lemma reach_run: "reach enabled step s0 es s \<Longrightarrow> run enabled step s0 es = Some s"
  by (induction rule: reach.induct) (auto simp: run_snoc)

lemma run_reach: "run enabled step s0 es = Some s \<Longrightarrow> reach enabled step s0 es s"
proof (induction es arbitrary: s rule: rev_induct)
  case Nil
  then show ?case by (auto intro: reach.start)
next
  case (snoc e es)
  then show ?case by (auto simp: run_snoc intro: reach.move)
qed

lemma reach_iff_run: "reach enabled step s0 es s \<longleftrightarrow> run enabled step s0 es = Some s"
  using reach_run run_reach by metis

inductive_cases reach_snocE: "reach enabled step s0 (es @ [e]) s"

text \<open>What holds of the state now and did not at the start came about at one event of the run.\<close>

lemma run_origin:
  assumes "run enabled step s0 es = Some s" and "P s" and "\<not> P s0"
  shows "\<exists>es1 e es2 s1. es = es1 @ e # es2 \<and> run enabled step s0 es1 = Some s1 \<and> enabled s1 e \<and> \<not> P s1 \<and> P (step s1 e)"
  using assms
proof (induction es arbitrary: s rule: rev_induct)
  case (snoc e es)
  obtain u where u: "run enabled step s0 es = Some u" "enabled u e" "s = step u e"
    using snoc.prems(1) by (auto simp: run_snoc)
  show ?case
  proof (cases "P u")
    case True
    then obtain es1 f es2 s1 where 1: "es = es1 @ f # es2" "run enabled step s0 es1 = Some s1" "enabled s1 f" "\<not> P s1" "P (step s1 f)"
      using snoc.IH [OF u(1)] snoc.prems(3) by blast
    then have "es @ [e] = es1 @ f # (es2 @ [e])" by simp
    then show ?thesis using 1(2-) by blast
  next
    case False
    then show ?thesis using u snoc.prems(2) by blast
  qed
qed simp

text \<open>The events of a run, each with the state it met.\<close>

fun visits :: "('s \<Rightarrow> 'e \<Rightarrow> 's) \<Rightarrow> 's \<Rightarrow> 'e list \<Rightarrow> ('s \<times> 'e) list" where
  "visits step s [] = []"
| "visits step s (e # es) = (s, e) # visits step (step s e) es"

lemma visits_snoc: "run enabled step s es = Some u \<Longrightarrow> visits step s (es @ [e]) = visits step s es @ [(u, e)]"
  by (induction es arbitrary: s) (auto split: if_splits)

section \<open>Invariants\<close>

text \<open>
  An invariant that holds at the start and that every enabled step keeps, as long as the events are
  ones the component's environment can produce (\<open>ok\<close>).
\<close>

locale invariant =
  fixes enabled :: "'s \<Rightarrow> 'e \<Rightarrow> bool"
    and step :: "'s \<Rightarrow> 'e \<Rightarrow> 's"
    and s0 :: 's
    and ok :: "'e \<Rightarrow> bool"
    and inv :: "'s \<Rightarrow> bool"
  assumes inv_start: "inv s0"
    and inv_step: "inv s \<Longrightarrow> enabled s e \<Longrightarrow> ok e \<Longrightarrow> inv (step s e)"
begin

lemma reach_inv:
  assumes "reach enabled step s0 es s" and "list_all ok es"
  shows "inv s"
  using assms
proof (induction rule: reach.induct)
  case start
  show ?case by (rule inv_start)
next
  case (move es s e)
  then show ?case by (auto intro: inv_step)
qed

lemma run_inv: "run enabled step s0 es = Some s \<Longrightarrow> list_all ok es \<Longrightarrow> inv s"
  using reach_inv run_reach by metis

end

end
