(* ===== verification/UiApp.thy ===== *)
theory UiApp
  imports UiApi Machine
begin

text \<open>
  \<open>App.tsx\<close> and \<open>Categories.tsx\<close>: the owner kept in the browser's storage, the list of categories,
  the selected one and the field for a new one. The two components share the state (\<open>App\<close> holds the
  list and the selection and passes the setters down), so they are one machine. State updates
  of one browser event are applied in the order of the setter calls.
\<close>

section \<open>The owner\<close>

text \<open>
  \<open>localStorage.getItem('owner')\<close> is \<open>None\<close> for a missing key; a missing or empty value is falsy and
  \<open>crypto.randomUUID()\<close> (the argument \<open>uuid\<close>) is stored. Result: the owner and the storage after.
\<close>

definition App_owner :: "jsstr \<Rightarrow> jsstr option \<Rightarrow> jsstr \<times> jsstr option" where
  "App_owner uuid existingOwner =
     (case existingOwner of
        None \<Rightarrow> (uuid, Some uuid)
      | Some o' \<Rightarrow> if o' = [] then (uuid, Some uuid) else (o', existingOwner))"

section \<open>State and handlers\<close>

record app =
  categories :: "jsstr list"
  category :: "jsstr option" \<comment> \<open>\<open>None\<close> is undefined: the first element of an empty list\<close>
  newCategory :: jsstr
  categories_pending :: bool \<comment> \<open>the request of the mount effect is in flight\<close>
  sent :: "http_request list"

definition app_mount :: "jsstr \<Rightarrow> app" where
  "app_mount owner =
     \<lparr>categories = [[]], category = Some [], newCategory = [], categories_pending = True,
      sent = [GetCategories_request owner]\<rparr>"

text \<open>\<open>xs[0]\<close>\<close>

definition at0 :: "'a list \<Rightarrow> 'a option" where
  "at0 xs = (case xs of [] \<Rightarrow> None | x # _ \<Rightarrow> Some x)"

definition on_categories :: "FetchCategoryNamesResponse option \<Rightarrow> app \<Rightarrow> app" where
  "on_categories res s =
     (let existing = nullish (Option.bind res category_names) [];
          existingCategories = (if length existing = 0 then existing @ [js ''General''] else existing)
      in s\<lparr>categories := existingCategories, category := at0 existingCategories,
           categories_pending := False\<rparr>)"

definition setSelectedCategory :: "jsstr option \<Rightarrow> app \<Rightarrow> app" where
  "setSelectedCategory c s = s\<lparr>category := c\<rparr>"

definition handleAddCategory :: "app \<Rightarrow> app" where
  "handleAddCategory s =
     (let value = trim (newCategory s)
      in if value = [] then s
         else if value \<in> set (categories s) then s
         else s\<lparr>categories := categories s @ [value], newCategory := []\<rparr>)"

definition handleDeleteCategory :: "jsstr \<Rightarrow> jsstr \<Rightarrow> app \<Rightarrow> app" where
  "handleDeleteCategory owner c s =
     (let updatedCategories = filter (\<lambda>item. item \<noteq> c) (categories s);
          s' = s\<lparr>sent := sent s @ [DeleteCategory_request owner c], categories := updatedCategories\<rparr>
      in if Some c = category s then setSelectedCategory (at0 updatedCategories) s' else s')"

text \<open>
  The view. Every listed category is an item with \<open>onClick\<close>; its delete button sits inside the item and
  its \<open>onClick\<close> does not stop the event, which bubbles to the item. The button is hidden while one
  category is left.
\<close>

definition item_onClick :: "jsstr \<Rightarrow> app \<Rightarrow> app" where
  "item_onClick c = setSelectedCategory (Some c)"

definition delete_button_onClick :: "jsstr \<Rightarrow> jsstr \<Rightarrow> app \<Rightarrow> app" where
  "delete_button_onClick owner c s = item_onClick c (handleDeleteCategory owner c s)"

record category_item =
  item_category :: jsstr
  item_active :: bool
  delete_button_hidden :: bool

record categories_view =
  items :: "category_item list"
  new_category_field :: jsstr

definition Categories_view :: "app \<Rightarrow> categories_view" where
  "Categories_view s =
     \<lparr>items = map (\<lambda>c. \<lparr>item_category = c, item_active = (category s = Some c),
                         delete_button_hidden = (length (categories s) \<le> 1)\<rparr>) (categories s),
      new_category_field = newCategory s\<rparr>"

datatype app_event =
    TypeNewCategory jsstr
  | PressAddCategory
  | PressItem jsstr
  | PressDeleteCategory jsstr
  | CategoriesArrive "FetchCategoryNamesResponse fetch_outcome"

fun app_enabled :: "app \<Rightarrow> app_event \<Rightarrow> bool" where
  "app_enabled s (PressItem c) = list_ex (\<lambda>i. item_category i = c) (items (Categories_view s))"
| "app_enabled s (PressDeleteCategory c) =
     list_ex (\<lambda>i. item_category i = c \<and> \<not> delete_button_hidden i) (items (Categories_view s))"
| "app_enabled s (CategoriesArrive _) = categories_pending s"
| "app_enabled s _ = True"

fun app_step :: "jsstr \<Rightarrow> app \<Rightarrow> app_event \<Rightarrow> app" where
  "app_step owner s (TypeNewCategory t) = s\<lparr>newCategory := t\<rparr>"
| "app_step owner s PressAddCategory = handleAddCategory s"
| "app_step owner s (PressItem c) = item_onClick c s"
| "app_step owner s (PressDeleteCategory c) = delete_button_onClick owner c s"
| "app_step owner s (CategoriesArrive r) = on_categories (settle r) s"

lemmas app_defs [ui_defs] =
  handleAddCategory_def handleDeleteCategory_def setSelectedCategory_def item_onClick_def
  delete_button_onClick_def on_categories_def at0_def Let_def

fun_cases app_enabled_deleteE: "app_enabled s (PressDeleteCategory c)"

lemma app_enabled_item_iff [simp]:
  "list_ex (\<lambda>i. item_category i = c) (items (Categories_view s)) \<longleftrightarrow> c \<in> set (categories s)"
  by (auto simp: Categories_view_def list_ex_iff)

lemma app_enabled_delete_iff [simp]:
  "list_ex (\<lambda>i. item_category i = c \<and> \<not> delete_button_hidden i) (items (Categories_view s)) \<longleftrightarrow>
     c \<in> set (categories s) \<and> 1 < length (categories s)"
  by (auto simp: Categories_view_def list_ex_iff)

section \<open>Invariants\<close>

text \<open>The list is never empty, has no duplicates and no entry with surrounding white space gets in by typing.\<close>

definition app_inv :: "app \<Rightarrow> bool" where
  "app_inv s \<longleftrightarrow> categories s \<noteq> [] \<and> distinct (categories s)"

text \<open>The names of a response are distinct: the server keeps a unique index on owner and name.\<close>

fun app_ok :: "app_event \<Rightarrow> bool" where
  "app_ok (CategoriesArrive r) =
     distinct (nullish (Option.bind (settle r) category_names) [])"
| "app_ok _ = True"

fun no_delete :: "app_event \<Rightarrow> bool" where
  "no_delete (PressDeleteCategory _) = False"
| "no_delete _ = True"

lemma two_distinct_filter: "distinct xs \<Longrightarrow> 1 < length xs \<Longrightarrow> filter (\<lambda>y. y \<noteq> x) xs \<noteq> []"
proof
  assume d: "distinct xs" "1 < length xs" and e: "filter (\<lambda>y. y \<noteq> x) xs = []"
  from e have "set xs \<subseteq> {x}" by (auto simp: filter_empty_conv)
  then have "card (set xs) \<le> 1" using card_mono [of "{x}" "set xs"] by simp
  with d show False by (simp add: distinct_card)
qed

lemma app_inv_add: "app_inv s \<Longrightarrow> app_inv (handleAddCategory s)"
  by (auto simp: app_inv_def ui_defs)

lemma app_inv_delete:
  "app_inv s \<Longrightarrow> 1 < length (categories s) \<Longrightarrow> app_inv (handleDeleteCategory owner c s)"
  using two_distinct_filter [of "categories s" c] by (auto simp: app_inv_def ui_defs)

lemma app_inv_response:
  "distinct (nullish (Option.bind res category_names) []) \<Longrightarrow> app_inv (on_categories res s)"
  by (auto simp: app_inv_def ui_defs)

lemma app_inv_select [simp]: "app_inv (setSelectedCategory c s) = app_inv s"
  by (simp add: app_inv_def setSelectedCategory_def)

interpretation app_list: invariant app_enabled "app_step owner" "app_mount owner" app_ok app_inv
  for owner
proof
  show "app_inv (app_mount owner)" by (simp add: app_inv_def app_mount_def)
next
  fix s e
  assume "app_inv s" "app_enabled s e" "app_ok e"
  then show "app_inv (app_step owner s e)"
    using app_inv_add app_inv_delete app_inv_response
    by (cases e) (auto simp: delete_button_onClick_def item_onClick_def, simp add: app_inv_def)
qed

text \<open>Without deletions the selected category is always a listed one.\<close>

definition selection_listed :: "app \<Rightarrow> bool" where
  "selection_listed s \<longleftrightarrow> (\<exists>c. category s = Some c \<and> c \<in> set (categories s))"

interpretation app_selection: invariant app_enabled "app_step owner" "app_mount owner" no_delete selection_listed
  for owner
proof
  show "selection_listed (app_mount owner)" by (simp add: selection_listed_def app_mount_def)
next
  fix s e
  assume "selection_listed s" "app_enabled s e" "no_delete e"
  then show "selection_listed (app_step owner s e)"
    by (cases e) (auto simp: selection_listed_def ui_defs split: list.splits)
qed

section \<open>Properties\<close>

text \<open>
  C38: In every state the user and the network can bring about, the list of categories is not empty
  and has no duplicates, given that each response of the server names every category once.
\<close>

theorem categories_listed_once:
  assumes "run app_enabled (app_step owner) (app_mount owner) es = Some s"
    and "list_all app_ok es"
  shows "categories s \<noteq> [] \<and> distinct (categories s)"
  using app_list.run_inv [OF assms] by (simp add: app_inv_def)

definition example_names :: "FetchCategoryNamesResponse fetch_outcome" where
  "example_names = Response True [] (BodyJson \<lparr>category_names = Some [[97], [98]]\<rparr>)"

definition example_events :: "app_event list" where
  "example_events =
     [CategoriesArrive example_names, TypeNewCategory [32, 99], PressAddCategory, PressItem [98]]"

definition example_app :: app where
  "example_app =
     \<lparr>categories = [[97], [98], [99]], category = Some [98], newCategory = [],
      categories_pending = False, sent = [GetCategories_request []]\<rparr>"

lemma run_example: "run app_enabled (app_step []) (app_mount []) example_events = Some example_app"
  by (simp add: example_events_def example_names_def example_app_def app_mount_def settle_def trim_def
      js_space_def ui_defs)

lemma example_events_ok: "list_all app_ok example_events" "list_all no_delete example_events"
  by (simp_all add: example_events_def example_names_def settle_def)

theorem categories_listed_once_witness:
  "run app_enabled (app_step []) (app_mount []) example_events = Some example_app
     \<and> categories example_app \<noteq> [] \<and> distinct (categories example_app)"
  using categories_listed_once [OF run_example example_events_ok(1)] run_example by blast

text \<open>
  As long as no category has been deleted the selected category is a listed one, and the handler
  of the delete button would keep it so; but the click also reaches the enclosing item, so after
  pressing the button the category just deleted is the selected one.
\<close>

theorem delete_click_selects_deleted:
  assumes "run app_enabled (app_step owner) (app_mount owner) es = Some s"
    and "list_all app_ok es" and "list_all no_delete es"
    and "app_enabled s (PressDeleteCategory c)"
  shows "selection_listed s
    \<and> selection_listed (handleDeleteCategory owner c s)
    \<and> category (app_step owner s (PressDeleteCategory c)) = Some c
    \<and> c \<notin> set (categories (app_step owner s (PressDeleteCategory c)))"
proof -
  have sel: "selection_listed s" using assms(1,3) by (rule app_selection.run_inv)
  have "app_inv s" using assms(1,2) by (rule app_list.run_inv)
  then have inv: "app_inv (handleDeleteCategory owner c s)"
    using app_inv_delete [of s owner c] assms(4) by simp
  have "selection_listed (handleDeleteCategory owner c s)"
    using inv sel by (auto simp: selection_listed_def app_inv_def ui_defs filter_eq_Cons_iff split: list.splits)
  with sel show ?thesis by (simp add: ui_defs)
qed

theorem delete_click_selects_deleted_witness:
  "category (app_step [] example_app (PressDeleteCategory [98])) = Some [98]
     \<and> [98] \<notin> set (categories (app_step [] example_app (PressDeleteCategory [98])))"
proof -
  have "app_enabled example_app (PressDeleteCategory [98])"
    by (simp add: example_app_def)
  then show ?thesis using delete_click_selects_deleted [OF run_example example_events_ok] by blast
qed

text \<open>
  The owner is settled by the first rendering: whatever the storage held, every later rendering
  finds the same owner there and leaves the storage alone, and an owner already stored is never
  replaced.
\<close>

theorem owner_is_kept:
  assumes "uuid \<noteq> []" and "App_owner uuid stored = (owner, stored')"
  shows "App_owner uuid' stored' = (owner, stored') \<and> owner \<noteq> [] \<and> stored' = Some owner
    \<and> (stored = Some o' \<and> o' \<noteq> [] \<longrightarrow> owner = o')"
  using assms by (auto simp: App_owner_def split: option.splits if_splits)

theorem owner_is_kept_witness:
  "App_owner [1] None = ([1], Some [1]) \<and> App_owner [2] (Some [1]) = ([1], Some [1])"
  using owner_is_kept [of "[1]" None "[1]" "Some [1]" "[2]"] by (simp add: App_owner_def)

end
