(* ===== verification/UiSearch.thy ===== *)
theory UiSearch
  imports UiApi Machine
begin

text \<open>
  \<open>Search.tsx\<close>: the query field, the pages of results and the deletion of a result. A search is an
  asynchronous request; any number can be in flight and the network may answer them in any order. The
  page number and the offsets are small integers, exact in a JavaScript number.
\<close>

section \<open>State and handlers\<close>

record search_result =
  result_id :: fl
  title :: jsstr
  description :: jsstr

record search =
  prop_category :: jsstr \<comment> \<open>the property \<open>category\<close>\<close>
  searchQuery :: jsstr
  searchResults :: "search_result list option" \<comment> \<open>\<open>None\<close> is undefined\<close>
  searching :: bool
  currentPage :: int
  in_flight :: "SearchRequest list" \<comment> \<open>requests not answered yet, oldest first\<close>
  issued :: "SearchRequest list" \<comment> \<open>every request so far\<close>
  shown :: "SearchRequest option" \<comment> \<open>the request whose answer \<open>searchResults\<close> holds\<close>
  deletions :: "http_request list"

definition itemsPerPage :: int where
  "itemsPerPage = 3"

definition search_init :: "jsstr \<Rightarrow> search" where
  "search_init category =
     \<lparr>prop_category = category, searchQuery = [], searchResults = None, searching = False,
      currentPage = 1, in_flight = [], issued = [], shown = None, deletions = []\<rparr>"

definition handleSearch :: "jsstr \<Rightarrow> int \<Rightarrow> int \<Rightarrow> search \<Rightarrow> search" where
  "handleSearch owner cnt off s =
     (let r = \<lparr>sr_owner = owner, sr_category = prop_category s, sr_prefix = Some (prop_category s),
               sr_text = trim (searchQuery s), sr_count = cnt, sr_offset = Some off,
               sr_centroids = None\<rparr>
      in s\<lparr>searching := True, in_flight := in_flight s @ [r], issued := issued s @ [r]\<rparr>)"

definition match_percent :: "fl \<Rightarrow> fl" where
  "match_percent similarity = fl_mul F64 (Fin 50) (fl_add F64 similarity (Fin 1))"

definition to_result :: "nat \<Rightarrow> DocumentSearch \<Rightarrow> search_result" where
  "to_result idx d =
     \<lparr>result_id = ds_document_id d,
      title = js (''Result '' @ show_nat (idx + 1) @ '' has '' @
                  toFixed (match_percent (ds_document_similarity d)) 2 @ ''% match''),
      description = js_String (ds_document d)\<rparr>"

definition to_results :: "DocumentSearch list \<Rightarrow> search_result list" where
  "to_results ds = map (\<lambda>(idx, d). to_result idx d) (List.enumerate 0 ds)"

definition on_search :: "SearchResponse option \<Rightarrow> search \<Rightarrow> search" where
  "on_search res s =
     (let docs = nullish (Option.bind res documents) []
      in s\<lparr>searchResults := Some (to_results docs), searching := False\<rparr>)"

definition handlePressSearch :: "jsstr \<Rightarrow> search \<Rightarrow> search" where
  "handlePressSearch owner s = handleSearch owner itemsPerPage 0 (s\<lparr>currentPage := 1\<rparr>)"

definition handleNext :: "jsstr \<Rightarrow> search \<Rightarrow> search" where
  "handleNext owner s =
     (let nextPage = currentPage s + 1
      in handleSearch owner itemsPerPage ((nextPage - 1) * itemsPerPage) (s\<lparr>currentPage := nextPage\<rparr>))"

definition handlePrevious :: "jsstr \<Rightarrow> search \<Rightarrow> search" where
  "handlePrevious owner s =
     (let previousPage = currentPage s - 1
      in if previousPage \<le> 0 then s
         else handleSearch owner itemsPerPage ((previousPage - 1) * itemsPerPage)
                (s\<lparr>currentPage := previousPage\<rparr>))"

definition handleDeleteDocument :: "jsstr \<Rightarrow> fl \<Rightarrow> search \<Rightarrow> search" where
  "handleDeleteDocument owner documentID s =
     s\<lparr>deletions := deletions s @ [DeleteDocument_request owner (prop_category s) documentID],
       searchResults :=
         Some (filter (\<lambda>item. \<not> fl_eq (result_id item) documentID) (nullish (searchResults s) []))\<rparr>"

text \<open>The effect on \<open>[category]\<close>: a new category clears the results.\<close>

definition on_category :: "jsstr \<Rightarrow> search \<Rightarrow> search" where
  "on_category c s = (if c = prop_category s then s else s\<lparr>prop_category := c, searchResults := None, shown := None\<rparr>)"

section \<open>The view\<close>

text \<open>
  What the component renders: the fields and the state of the buttons, and below them, while
  \<open>searchResults\<close> is defined, the rows of the results with the page number and the page buttons.
\<close>

record results_card =
  rows :: "search_result list"
  page_label :: jsstr
  previous_disabled :: bool
  next_disabled :: bool

record search_view =
  query_field :: jsstr
  searching_in :: jsstr
  search_disabled :: bool
  search_spinner :: bool
  results_shown :: "results_card option"

definition Search_view :: "search \<Rightarrow> search_view" where
  "Search_view s =
     \<lparr>query_field = searchQuery s, searching_in = prop_category s, search_disabled = searching s,
      search_spinner = searching s,
      results_shown = map_option (\<lambda>rs.
        \<lparr>rows = rs, page_label = js (''Showing page '' @ show_int (currentPage s) @ '' results''),
         previous_disabled = (currentPage s \<le> 1),
         next_disabled = (int (length rs) \<noteq> itemsPerPage)\<rparr>) (searchResults s)\<rparr>"

section \<open>Events of the view and the network\<close>

datatype search_event =
    TypeQuery jsstr
  | PressSearch
  | PressEnter
  | PressNext
  | PressPrevious
  | PressDeleteDocument fl
  | ChangeCategory jsstr
  | SearchArrives nat "SearchResponse fetch_outcome" \<comment> \<open>the answer to a request in flight\<close>

text \<open>What the view offers: buttons that are rendered and not disabled. The Enter key always works.\<close>

fun search_enabled :: "search \<Rightarrow> search_event \<Rightarrow> bool" where
  "search_enabled s PressSearch = (\<not> search_disabled (Search_view s))"
| "search_enabled s PressNext =
     (case results_shown (Search_view s) of None \<Rightarrow> False | Some c \<Rightarrow> \<not> next_disabled c)"
| "search_enabled s PressPrevious =
     (case results_shown (Search_view s) of None \<Rightarrow> False | Some c \<Rightarrow> \<not> previous_disabled c)"
| "search_enabled s (PressDeleteDocument i) =
     (case results_shown (Search_view s) of None \<Rightarrow> False | Some c \<Rightarrow> i \<in> result_id ` set (rows c))"
| "search_enabled s (SearchArrives n _) = (n < length (in_flight s))"
| "search_enabled s _ = True"

definition remove_at :: "nat \<Rightarrow> 'a list \<Rightarrow> 'a list" where
  "remove_at n xs = take n xs @ drop (Suc n) xs"

fun search_step :: "jsstr \<Rightarrow> search \<Rightarrow> search_event \<Rightarrow> search" where
  "search_step owner s (TypeQuery t) = s\<lparr>searchQuery := t\<rparr>"
| "search_step owner s PressSearch = handlePressSearch owner s"
| "search_step owner s PressEnter = handlePressSearch owner s"
| "search_step owner s PressNext = handleNext owner s"
| "search_step owner s PressPrevious = handlePrevious owner s"
| "search_step owner s (PressDeleteDocument i) = handleDeleteDocument owner i s"
| "search_step owner s (ChangeCategory c) = on_category c s"
| "search_step owner s (SearchArrives n r) =
     on_search (settle r)
       (s\<lparr>in_flight := remove_at n (in_flight s), shown := Some (in_flight s ! n)\<rparr>)"

lemmas search_defs [ui_defs] =
  handleSearch_def handlePressSearch_def handleNext_def handlePrevious_def handleDeleteDocument_def
  on_category_def on_search_def itemsPerPage_def Search_view_def Let_def

section \<open>Lemmas\<close>

lemma length_to_results [simp]: "length (to_results ds) = length ds"
  by (simp add: to_results_def)

lemma to_results_nth: "i < length ds \<Longrightarrow> to_results ds ! i = to_result i (ds ! i)"
  by (simp add: to_results_def nth_enumerate_eq)

lemma set_remove_at: "set (remove_at n xs) \<subseteq> set xs"
  by (auto simp: remove_at_def dest: in_set_takeD in_set_dropD)

lemma remove_at_0 [simp]: "remove_at 0 (x # xs) = xs"
  by (simp add: remove_at_def)

section \<open>The page and the requests\<close>

text \<open>Every request asks for one page; the last one asks for the page that is displayed.\<close>

definition page_request :: "SearchRequest \<Rightarrow> bool" where
  "page_request r \<longleftrightarrow> sr_count r = itemsPerPage \<and>
     (\<exists>k \<ge> 0. sr_offset r = Some (k * itemsPerPage)) \<and>
     sr_prefix r = Some (sr_category r) \<and> trim (sr_text r) = sr_text r"

definition search_inv :: "search \<Rightarrow> bool" where
  "search_inv s \<longleftrightarrow>
     1 \<le> currentPage s \<and>
     list_all page_request (issued s) \<and>
     set (in_flight s) \<subseteq> set (issued s) \<and>
     (searching s \<longrightarrow> in_flight s \<noteq> []) \<and>
     (issued s \<noteq> [] \<longrightarrow> sr_offset (last (issued s)) = Some ((currentPage s - 1) * itemsPerPage))"

lemma search_inv_handleSearch:
  assumes "search_inv s" and "1 \<le> p"
  shows "search_inv (handleSearch owner itemsPerPage ((p - 1) * itemsPerPage) (s\<lparr>currentPage := p\<rparr>))"
  using assms by (auto simp: search_inv_def handleSearch_def page_request_def Let_def intro!: exI [of _ "p - 1"])

lemma search_inv_press: "search_inv s \<Longrightarrow> search_inv (handlePressSearch owner s)"
  using search_inv_handleSearch [of s 1 owner] by (simp add: handlePressSearch_def)

lemma search_inv_next: "search_inv s \<Longrightarrow> search_inv (handleNext owner s)"
  using search_inv_handleSearch [of s "currentPage s + 1" owner]
  by (simp add: handleNext_def search_inv_def Let_def)

lemma search_inv_previous: "search_inv s \<Longrightarrow> search_inv (handlePrevious owner s)"
  using search_inv_handleSearch [of s "currentPage s - 1" owner]
  by (simp add: handlePrevious_def Let_def)

lemma search_inv_arrives:
  assumes "search_inv s"
  shows "search_inv (search_step owner s (SearchArrives n r))"
  using assms set_remove_at [of n "in_flight s"]
  by (auto simp: search_inv_def on_search_def Let_def)

interpretation search_page: invariant search_enabled "search_step owner" "search_init category"
  "\<lambda>_. True" search_inv
  for owner category
proof
  show "search_inv (search_init category)" by (simp add: search_inv_def search_init_def)
next
  fix s e
  assume inv: "search_inv s"
  then show "search_inv (search_step owner s e)"
  proof (cases e)
    case (SearchArrives n r)
    with inv show ?thesis using search_inv_arrives by blast
  qed (auto simp: search_inv_press search_inv_next search_inv_previous,
       auto simp: search_inv_def handleDeleteDocument_def on_category_def)
qed

section \<open>Answers in order\<close>

text \<open>
  If every answer is to the oldest request in flight, then once nothing is in flight the results on
  display are the answer to the last request.
\<close>

fun in_order :: "search_event \<Rightarrow> bool" where
  "in_order (SearchArrives n _) = (n = 0)"
| "in_order _ = True"

definition order_inv :: "search \<Rightarrow> bool" where
  "order_inv s \<longleftrightarrow>
     (\<exists>answered. issued s = answered @ in_flight s \<and>
        (\<forall>r. shown s = Some r \<longrightarrow> answered \<noteq> [] \<and> r = last answered))"

lemma order_inv_issue:
  "order_inv s \<Longrightarrow> order_inv (handleSearch owner cnt off (s\<lparr>currentPage := p\<rparr>))"
  by (auto simp: order_inv_def handleSearch_def Let_def)

lemma order_inv_answer:
  assumes "order_inv s" and "in_flight s \<noteq> []"
  shows "order_inv (search_step owner s (SearchArrives 0 r))"
proof -
  from assms(2) obtain q qs where q: "in_flight s = q # qs" by (cases "in_flight s") auto
  from assms(1) obtain answered where "issued s = answered @ q # qs" by (auto simp: order_inv_def q)
  then show ?thesis
    by (auto simp: order_inv_def on_search_def Let_def q intro!: exI [of _ "answered @ [q]"])
qed

interpretation search_order: invariant search_enabled "search_step owner" "search_init category"
  in_order order_inv
  for owner category
proof
  show "order_inv (search_init category)" by (simp add: order_inv_def search_init_def)
next
  fix s e
  assume inv: "order_inv s" and en: "search_enabled s e" and ok: "in_order e"
  show "order_inv (search_step owner s e)"
  proof (cases e)
    case (SearchArrives n r)
    with inv en ok show ?thesis using order_inv_answer [of s owner r] by auto
  qed (use inv order_inv_issue in \<open>auto simp: handlePressSearch_def handleNext_def handlePrevious_def Let_def\<close>,
       use inv in \<open>auto simp: order_inv_def handleDeleteDocument_def on_category_def\<close>)
qed

section \<open>Properties\<close>

text \<open>
  C36: Whatever the user does and in whatever order the network answers, the page number stays
  positive, every request asks for one whole page of the category it was sent for with trimmed text, the
  last request asks for the page that is displayed, and the spinner only turns while some request
  is still unanswered.
\<close>

theorem requests_follow_page:
  assumes "run search_enabled (search_step owner) (search_init category) es = Some s"
  shows "1 \<le> currentPage s \<and> list_all page_request (issued s)
    \<and> (issued s \<noteq> [] \<longrightarrow> sr_offset (last (issued s)) = Some ((currentPage s - 1) * itemsPerPage))
    \<and> (searching s \<longrightarrow> in_flight s \<noteq> [])"
  using search_page.run_inv [OF assms] by (simp add: search_inv_def list_all_iff)

definition example_doc :: DocumentSearch where
  "example_doc = \<lparr>ds_name = None, ds_external_id = None, ds_document = JNull, ds_document_id = Fin 7,
     ds_document_similarity = Fin 1\<rparr>"

definition example_page :: "SearchResponse fetch_outcome" where
  "example_page = Response True [] (BodyJson \<lparr>documents = Some [example_doc, example_doc, example_doc]\<rparr>)"

definition example_search :: "search_event list" where
  "example_search = [TypeQuery [32, 113], PressSearch, SearchArrives 0 example_page, PressNext]"

lemma run_example_search:
  "\<exists>s. run search_enabled (search_step owner) (search_init c) example_search = Some s
     \<and> currentPage s = 2 \<and> length (issued s) = 2 \<and> length (in_flight s) = 1"
  by (simp add: example_search_def example_page_def search_init_def settle_def ui_defs)

theorem requests_follow_page_witness:
  "\<exists>s. run search_enabled (search_step []) (search_init []) example_search = Some s
     \<and> issued s \<noteq> [] \<and> sr_offset (last (issued s)) = Some 3"
proof -
  obtain s where s: "run search_enabled (search_step []) (search_init []) example_search = Some s"
    "currentPage s = 2" "length (issued s) = 2"
    using run_example_search by blast
  then have "issued s \<noteq> []" by auto
  then show ?thesis using s requests_follow_page [OF s(1)] by (simp add: itemsPerPage_def)
qed

text \<open>
  If the network answers the requests in the order they were sent, then once nothing is in
  flight the displayed results are the answer to the last request, hence of the displayed page.
\<close>

theorem answers_in_order_show_page:
  assumes "run search_enabled (search_step owner) (search_init category) es = Some s"
    and "list_all in_order es" and "in_flight s = []" and "shown s = Some r"
  shows "r = last (issued s) \<and> sr_offset r = Some ((currentPage s - 1) * itemsPerPage)"
proof -
  have "order_inv s" using assms(1,2) by (rule search_order.run_inv)
  with assms(3,4) have r: "issued s \<noteq> []" "r = last (issued s)" by (auto simp: order_inv_def)
  moreover have "search_inv s" using search_page.run_inv [OF assms(1)] by (simp add: list_all_iff)
  ultimately show ?thesis by (simp add: search_inv_def)
qed

lemma run_example_in_order:
  "\<exists>s r. run search_enabled (search_step owner) (search_init c)
       (example_search @ [SearchArrives 0 example_page]) = Some s
     \<and> in_flight s = [] \<and> shown s = Some r \<and> currentPage s = 2"
  by (simp add: example_search_def example_page_def search_init_def settle_def ui_defs)

theorem answers_in_order_show_page_witness:
  "\<exists>s r. run search_enabled (search_step []) (search_init [])
       (example_search @ [SearchArrives 0 example_page]) = Some s
     \<and> shown s = Some r \<and> sr_offset r = Some 3"
proof -
  obtain s r where s: "run search_enabled (search_step []) (search_init [])
      (example_search @ [SearchArrives 0 example_page]) = Some s"
    "in_flight s = []" "shown s = Some r" "currentPage s = 2"
    using run_example_in_order by blast
  have "list_all in_order (example_search @ [SearchArrives 0 example_page])"
    by (simp add: example_search_def)
  then show ?thesis using s answers_in_order_show_page [OF s(1) _ s(2,3)] by (auto simp: itemsPerPage_def)
qed

text \<open>
  Answers that overtake each other leave stale results on display although nothing is in flight:
  results of another page than the displayed one, and results of another category than the
  selected one (an answer that arrives after the category was changed).
\<close>

theorem late_answers_show_stale_results:
  "(\<exists>es s r. run search_enabled (search_step owner) (search_init category) es = Some s
      \<and> in_flight s = [] \<and> searchResults s \<noteq> None \<and> shown s = Some r
      \<and> sr_offset r \<noteq> Some ((currentPage s - 1) * itemsPerPage))
   \<and> (\<exists>es s r. run search_enabled (search_step owner) (search_init category) es = Some s
      \<and> in_flight s = [] \<and> searchResults s \<noteq> None \<and> shown s = Some r
      \<and> sr_category r \<noteq> prop_category s)"
proof (intro conjI)
  let ?es = "[PressSearch, SearchArrives 0 example_page, PressNext, PressNext,
              SearchArrives 1 example_page, SearchArrives 0 example_page]"
  have "\<exists>s r. run search_enabled (search_step owner) (search_init category) ?es = Some s
      \<and> in_flight s = [] \<and> searchResults s \<noteq> None \<and> shown s = Some r
      \<and> sr_offset r \<noteq> Some ((currentPage s - 1) * itemsPerPage)"
    by (simp add: example_page_def search_init_def settle_def remove_at_def ui_defs)
  then show "\<exists>es s r. run search_enabled (search_step owner) (search_init category) es = Some s
      \<and> in_flight s = [] \<and> searchResults s \<noteq> None \<and> shown s = Some r
      \<and> sr_offset r \<noteq> Some ((currentPage s - 1) * itemsPerPage)" by blast
next
  let ?es = "[PressSearch, ChangeCategory (1 # category), SearchArrives 0 example_page]"
  have "\<exists>s r. run search_enabled (search_step owner) (search_init category) ?es = Some s
      \<and> in_flight s = [] \<and> searchResults s \<noteq> None \<and> shown s = Some r
      \<and> sr_category r \<noteq> prop_category s"
    by (simp add: example_page_def search_init_def settle_def remove_at_def ui_defs)
  then show "\<exists>es s r. run search_enabled (search_step owner) (search_init category) es = Some s
      \<and> in_flight s = [] \<and> searchResults s \<noteq> None \<and> shown s = Some r
      \<and> sr_category r \<noteq> prop_category s" by blast
qed

lemma match_percent_Fin:
  assumes "-1 \<le> r" and "r \<le> 1"
  shows "\<exists>p. match_percent (Fin r) = Fin p \<and> 0 \<le> p \<and> p \<le> 100
     \<and> p = round_rat F64 (50 * round_rat F64 (r + 1))"
proof -
  obtain q where q: "mk F64 (r + 1) = Fin q" "0 \<le> q" "q \<le> 2" "q = round_rat F64 (r + 1)"
    using mk_between [of F64 0 2 "r + 1"] assms by auto
  obtain p where p: "mk F64 (50 * q) = Fin p" "0 \<le> p" "p \<le> 100" "p = round_rat F64 (50 * q)"
    using mk_between [of F64 0 100 "50 * q"] q by auto
  show ?thesis using p q by (auto simp: match_percent_def fl_mul_def fl_add_def signed_zero_def Let_def)
qed

text \<open>
  The percentage in a result's title, computed in floating point from a similarity between -1 and 1,
  is a finite number between 0 and 100, and a larger similarity never shows a smaller percentage.
\<close>

theorem match_percent_in_range:
  assumes "-1 \<le> r" and "r \<le> r'" and "r' \<le> 1"
  shows "\<exists>p p'. match_percent (Fin r) = Fin p \<and> match_percent (Fin r') = Fin p'
    \<and> 0 \<le> p \<and> p \<le> p' \<and> p' \<le> 100"
proof -
  obtain p where p: "match_percent (Fin r) = Fin p" "0 \<le> p" "p = round_rat F64 (50 * round_rat F64 (r + 1))"
    using match_percent_Fin [of r] assms by auto
  obtain p' where p': "match_percent (Fin r') = Fin p'" "p' \<le> 100"
    "p' = round_rat F64 (50 * round_rat F64 (r' + 1))"
    using match_percent_Fin [of r'] assms by auto
  have "p \<le> p'" using assms(2) unfolding p(3) p'(3)
    by (intro round_rat_mono mult_left_mono) (simp_all add: round_rat_mono)
  with p p' show ?thesis by blast
qed

theorem match_percent_in_range_witness:
  "\<exists>p p'. match_percent (Fin (-1)) = Fin p \<and> match_percent (Fin 1) = Fin p' \<and> p \<le> p'"
  using match_percent_in_range [of "-1" 1] by auto

end
