(* ===== verification/UiSummary.thy ===== *)
theory UiSummary
  imports UiApi Machine
begin

text \<open>
  The \<open>Result\<close> component of \<open>Search.tsx\<close>: one search result with a button that toggles a summary
  streamed from the chat endpoint. The stream calls back into the component while it is mounted.
\<close>

section \<open>State and handlers\<close>

record result_view =
  summaryEnabled :: bool
  summary :: "jsstr option" \<comment> \<open>\<open>None\<close> is undefined\<close>
  loading :: bool
  chats :: "ChatRequest list" \<comment> \<open>the chats started so far\<close>

definition result_init :: result_view where
  "result_init = \<lparr>summaryEnabled = False, summary = None, loading = False, chats = []\<rparr>"

text \<open>\<open>!summary\<close>: undefined and the empty string are falsy.\<close>

definition no_summary :: "result_view \<Rightarrow> bool" where
  "no_summary s \<longleftrightarrow> summary s = None \<or> summary s = Some []"

definition summary_question :: jsstr where
  "summary_question =
     js ''Produce a one paragraph summary on the information, make an educated guess on lack of information''"

definition handleSummaryToggle :: "jsstr \<Rightarrow> fl \<Rightarrow> result_view \<Rightarrow> result_view" where
  "handleSummaryToggle query details_id s =
     (let enabled = summaryEnabled s;
          s' = s\<lparr>summaryEnabled := \<not> enabled\<rparr>
      in if \<not> enabled \<and> no_summary s
         then s'\<lparr>loading := True,
                 chats := chats s' @ [\<lparr>cr_prefix = Some query, cr_history = None, cr_text = summary_question,
                    cr_document_ids = Some [details_id], cr_documents = None\<rparr>]\<rparr>
         else s')"

text \<open>The two callbacks handed to \<open>Chat\<close>.\<close>

fun on_chat_call :: "result_view \<Rightarrow> chat_call \<Rightarrow> result_view" where
  "on_chat_call s (SetResponse text) = s\<lparr>summary := Some text\<rparr>"
| "on_chat_call s Completed = s\<lparr>loading := False\<rparr>"

definition shown_text :: "result_view \<Rightarrow> jsstr \<Rightarrow> jsstr option" where
  "shown_text s desc = (if summaryEnabled s then summary s else Some desc)"

record result_row =
  row_title :: jsstr
  ai_variant :: string
  ai_disabled :: bool
  row_text :: "jsstr option"

definition Result_view :: "jsstr \<Rightarrow> jsstr \<Rightarrow> result_view \<Rightarrow> result_row" where
  "Result_view details_title details_description s =
     \<lparr>row_title = details_title,
      ai_variant = (if summaryEnabled s then ''primary'' else ''outline-primary''),
      ai_disabled = loading s,
      row_text = shown_text s details_description\<rparr>"

section \<open>A whole chat\<close>

text \<open>One press of the button and everything the chat it may start calls back.\<close>

definition toggle_and_stream ::
  "('s \<Rightarrow> 'b \<Rightarrow> 's \<times> jsstr) \<Rightarrow> 's \<Rightarrow> 'b chat_outcome \<Rightarrow> jsstr \<Rightarrow> fl \<Rightarrow> result_view \<Rightarrow> result_view" where
  "toggle_and_stream decode st o' query i s =
     (let s' = handleSummaryToggle query i s
      in if loading s' then foldl on_chat_call s' (Chat_api decode st o') else s')"

lemma foldl_stream:
  "foldl on_chat_call s (read_stream decode st acc cs) =
     (if cs = [] then s else s\<lparr>summary := Some (acc @ decode_all decode st cs)\<rparr>)"
proof (induction cs arbitrary: s st acc)
  case (Cons c cs)
  then show ?case by (auto simp: Let_def split: prod.split)
qed simp

lemma foldl_chat_calls:
  "foldl on_chat_call s (Chat_api decode st o') =
     (case o' of
        ChatRejected err \<Rightarrow> s\<lparr>summary := Some err, loading := False\<rparr>
      | NoBody \<Rightarrow> s\<lparr>summary := Some no_stream_error, loading := False\<rparr>
      | Stream cs StreamDone \<Rightarrow>
          (if cs = [] then s else s\<lparr>summary := Some (decode_all decode st cs)\<rparr>)\<lparr>loading := False\<rparr>
      | Stream cs (StreamError err) \<Rightarrow> s\<lparr>summary := Some err, loading := False\<rparr>)"
  by (cases "(decode, st, o')" rule: Chat_api.cases) (simp_all add: foldl_stream)

text \<open>The button is disabled while a chat runs, so chats do not overlap.\<close>

datatype result_event = PressAI jsstr fl | ChatCalls chat_call

fun result_enabled :: "result_view \<Rightarrow> result_event \<Rightarrow> bool" where
  "result_enabled s (PressAI _ _) = (\<not> ai_disabled (Result_view [] [] s))"
| "result_enabled s (ChatCalls _) = loading s"

fun result_step :: "result_view \<Rightarrow> result_event \<Rightarrow> result_view" where
  "result_step s (PressAI q i) = handleSummaryToggle q i s"
| "result_step s (ChatCalls c) = on_chat_call s c"

definition loading_inv :: "result_view \<Rightarrow> bool" where
  "loading_inv s \<longleftrightarrow> (loading s \<longrightarrow> summaryEnabled s \<and> chats s \<noteq> []) \<and> (\<not> no_summary s \<longrightarrow> chats s \<noteq> [])"

interpretation summary_machine: invariant result_enabled result_step result_init "\<lambda>_. True" loading_inv
proof
  show "loading_inv result_init" by (simp add: loading_inv_def result_init_def no_summary_def)
next
  fix s e
  assume "loading_inv s" "result_enabled s e"
  then show "loading_inv (result_step s e)"
  proof (cases e)
    case (ChatCalls c)
    with \<open>loading_inv s\<close> \<open>result_enabled s e\<close> show ?thesis
      by (cases c) (auto simp: loading_inv_def no_summary_def)
  qed (auto simp: loading_inv_def Result_view_def handleSummaryToggle_def no_summary_def Let_def)
qed

section \<open>Properties\<close>

text \<open>
  C39: A first press of the summary button starts exactly one chat about this document; when its
  stream ends the spinner is off and the summary is the text of all chunks decoded in order, or the
  error. Pressing again while a summary is there only toggles it and starts no further chat.
\<close>

theorem summary_is_streamed_text:
  assumes "\<not> summaryEnabled s" and "no_summary s"
    and "t = toggle_and_stream decode st (Stream cs e) query i s"
  shows "length (chats t) = Suc (length (chats s))
    \<and> cr_document_ids (last (chats t)) = Some [i] \<and> \<not> loading t \<and> summaryEnabled t
    \<and> (e = StreamDone \<and> cs \<noteq> [] \<longrightarrow> summary t = Some (decode_all decode st cs))
    \<and> (\<forall>err. e = StreamError err \<longrightarrow> summary t = Some err)
    \<and> (\<not> no_summary t \<longrightarrow> chats (handleSummaryToggle q j (handleSummaryToggle q j t)) = chats t
         \<and> shown_text (handleSummaryToggle q j t) desc = Some desc)"
  using assms
  by (cases e) (auto simp: toggle_and_stream_def handleSummaryToggle_def foldl_chat_calls foldl_stream
      no_summary_def shown_text_def Let_def split: if_splits)

theorem summary_is_streamed_text_witness:
  "\<not> loading (toggle_and_stream (\<lambda>u b. (u, [b])) () (Stream [1, 2] StreamDone) [] (Fin 1) result_init)
   \<and> summary (toggle_and_stream (\<lambda>u b. (u, [b])) () (Stream [1, 2] StreamDone) [] (Fin 1) result_init)
     = Some [1, 2]"
proof -
  have "\<not> summaryEnabled result_init" "no_summary result_init"
    by (simp_all add: result_init_def no_summary_def)
  from summary_is_streamed_text [OF this refl, of "\<lambda>u b. (u, [b])" "()" "[1, 2]" StreamDone "[]" "Fin 1"]
  show ?thesis by simp
qed

end
