(* ===== verification/UiContent.thy ===== *)
theory UiContent
  imports UiApi Machine
begin

text \<open>
  \<open>Content.tsx\<close> with the file decoders \<open>tools/pdf.ts\<close> and \<open>tools/doc.ts\<close>: files are collected by
  dropping or choosing them, decoded one after another and uploaded. \<open>handleProcessFiles\<close> is
  asynchronous: it is suspended at every \<open>await\<close> and works on the state of the moment it was
  called, while the user goes on.
\<close>

section \<open>Decoding a file\<close>

text \<open>
  What a \<open>FileReader\<close> ends with, and what a promise for the text of a file comes to: the text, a
  rejection, or nothing ever. An exception inside \<open>reader.onload\<close> does not reach the promise, which
  then never settles. The libraries \<open>mammoth\<close> and \<open>pdfjs\<close> are arguments: \<open>None\<close> when they reject.
\<close>

datatype 'b reader_result = ReaderNull | ReaderString jsstr | ReaderBuffer 'b | ReaderFailed

datatype text_outcome = Resolves jsstr | Rejects | Hangs

fun extractTextFromDOCX :: "('b \<Rightarrow> jsstr option) \<Rightarrow> 'b reader_result \<Rightarrow> text_outcome" where
  "extractTextFromDOCX mammoth ReaderFailed = Hangs"
| "extractTextFromDOCX mammoth ReaderNull = Hangs"
| "extractTextFromDOCX mammoth (ReaderString s) = Resolves s"
| "extractTextFromDOCX mammoth (ReaderBuffer b) =
     (case mammoth b of None \<Rightarrow> Hangs | Some value \<Rightarrow> Resolves value)"

text \<open>A page is the list of its items' \<open>str\<close> (\<open>None\<close> where an item has none); \<open>None\<close> for a page that fails to load.\<close>

definition page_text :: "jsstr option list \<Rightarrow> jsstr" where
  "page_text items = js_join (js '' '') (map (\<lambda>i. nullish i []) items) @ [10]"

fun pdf_pages :: "jsstr \<Rightarrow> jsstr option list option list \<Rightarrow> text_outcome" where
  "pdf_pages text [] = Resolves text"
| "pdf_pages text (None # _) = Hangs"
| "pdf_pages text (Some items # rest) = pdf_pages (text @ page_text items) rest"

fun extractTextFromPDF ::
  "('b reader_result \<Rightarrow> jsstr option list option list option) \<Rightarrow> 'b reader_result \<Rightarrow> text_outcome" where
  "extractTextFromPDF getDocument ReaderFailed = Hangs"
| "extractTextFromPDF getDocument ReaderNull = Hangs"
| "extractTextFromPDF getDocument r =
     (case getDocument r of None \<Rightarrow> Hangs | Some pages \<Rightarrow> pdf_pages [] pages)"

lemma pdf_pages_Resolves_iff:
  "pdf_pages acc pages = Resolves t \<longleftrightarrow>
     (\<exists>ps. pages = map Some ps \<and> t = acc @ concat (map page_text ps))"
proof (induction acc pages rule: pdf_pages.induct)
  case (3 acc items rest)
  show ?case
  proof
    assume "pdf_pages acc (Some items # rest) = Resolves t"
    with 3 obtain ps where "rest = map Some ps" and "t = (acc @ page_text items) @ concat (map page_text ps)"
      by auto
    then show "\<exists>ps. Some items # rest = map Some ps \<and> t = acc @ concat (map page_text ps)"
      by (intro exI [of _ "items # ps"]) simp
  qed (use 3 in auto)
qed auto

section \<open>State and handlers\<close>

record 'f ui_file =
  file_name :: jsstr
  file_size :: nat
  file_data :: 'f

text \<open>
  A suspended \<open>handleProcessFiles\<close>: the properties and files it was called with, the files still to
  decode (the first one is being awaited) and the documents so far.
\<close>

record 'f upload_job =
  job_owner :: jsstr
  job_category :: jsstr
  job_files :: "'f ui_file list"
  job_todo :: "'f ui_file list"
  job_documents :: "DocumentUpload list"

record 'f content =
  uploadedFiles :: "'f ui_file list"
  dragActive :: bool
  directText :: jsstr
  activeUploadTab :: string
  uploading :: bool
  jobs :: "'f upload_job list"
  uploads :: "UploadRequest list" \<comment> \<open>the requests sent so far\<close>

definition content_init :: "'f content" where
  "content_init =
     \<lparr>uploadedFiles = [], dragActive = False, directText = [], activeUploadTab = ''direct-input'',
      uploading = False, jobs = [], uploads = []\<rparr>"

definition handleDrag :: "string \<Rightarrow> 'f content \<Rightarrow> 'f content" where
  "handleDrag type s =
     (if type = ''dragenter'' \<or> type = ''dragover'' then s\<lparr>dragActive := True\<rparr>
      else if type = ''dragleave'' then s\<lparr>dragActive := False\<rparr>
      else s)"

definition handleDrop :: "'f ui_file list \<Rightarrow> 'f content \<Rightarrow> 'f content" where
  "handleDrop files s =
     (let s' = s\<lparr>dragActive := False\<rparr>
      in if 0 < length files then s'\<lparr>uploadedFiles := uploadedFiles s' @ files\<rparr> else s')"

definition handleFileChange :: "'f ui_file list \<Rightarrow> 'f content \<Rightarrow> 'f content" where
  "handleFileChange files s =
     (if 0 < length files then s\<lparr>uploadedFiles := uploadedFiles s @ files\<rparr> else s)"

definition handleRemoveFile :: "nat \<Rightarrow> 'f content \<Rightarrow> 'f content" where
  "handleRemoveFile index s =
     s\<lparr>uploadedFiles := map snd (filter (\<lambda>(i, _). i \<noteq> index) (List.enumerate 0 (uploadedFiles s)))\<rparr>"

definition onSelectTab :: "string \<Rightarrow> 'f content \<Rightarrow> 'f content" where
  "onSelectTab k s = (if k = [] then s else s\<lparr>activeUploadTab := k\<rparr>)"

definition text_document :: "jsstr \<Rightarrow> DocumentUpload" where
  "text_document t = \<lparr>du_external_id = None, du_document = JStr t\<rparr>"

definition upload_request :: "jsstr \<Rightarrow> jsstr \<Rightarrow> DocumentUpload list \<Rightarrow> UploadRequest" where
  "upload_request owner category docs =
     \<lparr>ur_owner = owner, ur_category = category, ur_name = Some category, ur_external_id = None,
      ur_documents = docs, ur_no_update = None\<rparr>"

text \<open>\<open>handleProcessFiles\<close> up to its first \<open>await\<close> or its end.\<close>

definition handleProcessFiles :: "jsstr \<Rightarrow> jsstr \<Rightarrow> 'f content \<Rightarrow> 'f content" where
  "handleProcessFiles owner category s =
     (let s1 = s\<lparr>uploading := True\<rparr>
      in if activeUploadTab s1 = ''direct-input'' \<and> trim (directText s1) \<noteq> []
         then s1\<lparr>uploads := uploads s1 @ [upload_request owner category [text_document (directText s1)]],
                 directText := [], uploading := False\<rparr>
         else if 0 < length (uploadedFiles s1)
         then s1\<lparr>jobs := jobs s1 @ [\<lparr>job_owner = owner, job_category = category,
                    job_files = uploadedFiles s1, job_todo = uploadedFiles s1, job_documents = []\<rparr>]\<rparr>
         else s1\<lparr>uploading := False\<rparr>)"

text \<open>A resumed \<open>await\<close>: the text is cut and pushed; after the last file the request goes out.\<close>

definition resume :: "jsstr \<Rightarrow> 'f upload_job \<Rightarrow> 'f content \<Rightarrow> 'f upload_job option \<times> 'f content" where
  "resume text j s =
     (let docs = job_documents j @ [text_document (substring0 5000 text)];
          todo = tl (job_todo j)
      in if todo \<noteq> [] then (Some (j\<lparr>job_todo := todo, job_documents := docs\<rparr>), s)
         else (None, s\<lparr>uploads := uploads s @ [upload_request (job_owner j) (job_category j) docs],
                       uploadedFiles := [], uploading := False\<rparr>))"

definition decode_file ::
  "('f \<Rightarrow> text_outcome) \<Rightarrow> ('f \<Rightarrow> text_outcome) \<Rightarrow> ('f \<Rightarrow> text_outcome) \<Rightarrow> 'f ui_file \<Rightarrow> text_outcome" where
  "decode_file decodePdf decodeDocx plainText f =
     (if endsWith (file_name f) (js ''.pdf'') then decodePdf (file_data f)
      else if endsWith (file_name f) (js ''.docx'') then decodeDocx (file_data f)
      else plainText (file_data f))"

section \<open>Events\<close>

datatype 'f content_event =
    Drag string
  | Drop "'f ui_file list"
  | ChooseFiles "'f ui_file list"
  | RemoveFile nat
  | TypeText jsstr
  | SelectTab string
  | PressUpload jsstr jsstr \<comment> \<open>with the properties \<open>owner\<close> and \<open>category\<close> of the moment\<close>
  | FileDecoded nat jsstr \<comment> \<open>the file a suspended call awaits has been read\<close>
  | FileRejected nat

definition upload_disabled :: "'f content \<Rightarrow> bool" where
  "upload_disabled s \<longleftrightarrow>
     uploading s
     \<or> (activeUploadTab s = ''drag-drop'' \<and> length (uploadedFiles s) = 0)
     \<or> (activeUploadTab s = ''direct-input'' \<and> trim (directText s) = [])"

record content_view =
  tab_shown :: string
  drag_highlight :: bool
  file_rows :: "(jsstr \<times> jsstr) list" \<comment> \<open>name and size of each file\<close>
  text_field :: jsstr
  button_disabled :: bool
  button_spinner :: bool

definition file_kilobytes :: "'f ui_file \<Rightarrow> jsstr" where
  "file_kilobytes f = js (toFixed (fl_div F64 (mk F64 (of_nat (file_size f))) (Fin 1024)) 1)"

definition Content_view :: "'f content \<Rightarrow> content_view" where
  "Content_view s =
     \<lparr>tab_shown = activeUploadTab s, drag_highlight = dragActive s,
      file_rows = map (\<lambda>f. (file_name f, js ''('' @ file_kilobytes f @ js '' KB)'')) (uploadedFiles s),
      text_field = directText s,
      button_disabled = upload_disabled s, button_spinner = uploading s\<rparr>"

fun content_enabled :: "('f ui_file \<Rightarrow> text_outcome) \<Rightarrow> 'f content \<Rightarrow> 'f content_event \<Rightarrow> bool" where
  "content_enabled decode s (PressUpload _ _) = (\<not> button_disabled (Content_view s))"
| "content_enabled decode s (FileDecoded n t) =
     (n < length (jobs s) \<and> job_todo (jobs s ! n) \<noteq> [] \<and> decode (hd (job_todo (jobs s ! n))) = Resolves t)"
| "content_enabled decode s (FileRejected n) =
     (n < length (jobs s) \<and> job_todo (jobs s ! n) \<noteq> [] \<and> decode (hd (job_todo (jobs s ! n))) = Rejects)"
| "content_enabled decode s (SelectTab k) = (k \<in> {''drag-drop'', ''direct-input''})"
| "content_enabled decode s (RemoveFile n) = (n < length (file_rows (Content_view s)))"
| "content_enabled decode s _ = True"

definition drop_job :: "nat \<Rightarrow> 'f content \<Rightarrow> 'f content" where
  "drop_job n s = s\<lparr>jobs := take n (jobs s) @ drop (Suc n) (jobs s)\<rparr>"

fun content_step :: "'f content \<Rightarrow> 'f content_event \<Rightarrow> 'f content" where
  "content_step s (Drag type) = handleDrag type s"
| "content_step s (Drop files) = handleDrop files s"
| "content_step s (ChooseFiles files) = handleFileChange files s"
| "content_step s (RemoveFile index) = handleRemoveFile index s"
| "content_step s (TypeText t) = s\<lparr>directText := t\<rparr>"
| "content_step s (SelectTab k) = onSelectTab k s"
| "content_step s (PressUpload owner category) = handleProcessFiles owner category s"
| "content_step s (FileDecoded n t) =
     (case resume t (jobs s ! n) s of
        (None, s') \<Rightarrow> drop_job n s'
      | (Some j, s') \<Rightarrow> s'\<lparr>jobs := (jobs s')[n := j]\<rparr>)"
| "content_step s (FileRejected n) = drop_job n s"

lemmas content_defs [ui_defs] =
  handleDrag_def handleDrop_def handleFileChange_def handleRemoveFile_def onSelectTab_def
  handleProcessFiles_def resume_def drop_job_def Let_def

section \<open>Lemmas\<close>

lemma Content_view_button [simp]: "button_disabled (Content_view s) = upload_disabled s"
  by (simp add: Content_view_def)

lemma map_snd_filter_enumerate:
  "set (map snd (filter P (List.enumerate n xs))) \<subseteq> set xs"
  by (auto simp: in_set_enumerate_eq)

lemma resume_cases:
  obtains
    (more) "tl (job_todo j) \<noteq> []"
      and "resume t j s = (Some (j\<lparr>job_todo := tl (job_todo j),
             job_documents := job_documents j @ [text_document (substring0 5000 t)]\<rparr>), s)"
  | (last) "tl (job_todo j) = []"
      and "resume t j s = (None, s\<lparr>uploads := uploads s @
             [upload_request (job_owner j) (job_category j)
                (job_documents j @ [text_document (substring0 5000 t)])],
             uploadedFiles := [], uploading := False\<rparr>)"
  by (cases "tl (job_todo j) = []") (auto simp: resume_def Let_def)

section \<open>What is uploaded\<close>

text \<open>Document for file: the first 5000 code units of the file's text.\<close>

definition document_of :: "('f ui_file \<Rightarrow> text_outcome) \<Rightarrow> 'f ui_file \<Rightarrow> DocumentUpload \<Rightarrow> bool" where
  "document_of decode f d \<longleftrightarrow> (\<exists>t. decode f = Resolves t \<and> d = text_document (substring0 5000 t))"

definition job_ok :: "('f ui_file \<Rightarrow> text_outcome) \<Rightarrow> 'f upload_job \<Rightarrow> bool" where
  "job_ok decode j \<longleftrightarrow> job_todo j \<noteq> [] \<and>
     (\<exists>processed. job_files j = processed @ job_todo j \<and> list_all2 (document_of decode) processed (job_documents j))"

definition content_inv :: "('f ui_file \<Rightarrow> text_outcome) \<Rightarrow> 'f content \<Rightarrow> bool" where
  "content_inv decode s \<longleftrightarrow>
     length (jobs s) \<le> 1 \<and> (jobs s \<noteq> [] \<longrightarrow> uploading s) \<and>
     list_all (job_ok decode) (jobs s) \<and>
     activeUploadTab s \<in> {''drag-drop'', ''direct-input''}"

lemma list_all2_snoc: "list_all2 P xs ys \<Longrightarrow> P x y \<Longrightarrow> list_all2 P (xs @ [x]) (ys @ [y])"
  by (simp add: list_all2_appendI)

text \<open>One decoded file moves from the files to do to the ones done.\<close>

lemma job_ok_advance:
  assumes "job_ok decode j" and "decode (hd (job_todo j)) = Resolves t"
  shows "\<exists>processed. job_files j = processed @ tl (job_todo j) \<and> processed \<noteq> [] \<and>
           list_all2 (document_of decode) processed (job_documents j @ [text_document (substring0 5000 t)])"
proof -
  from assms(1) obtain processed where d: "job_files j = processed @ job_todo j" "job_todo j \<noteq> []"
    "list_all2 (document_of decode) processed (job_documents j)"
    by (auto simp: job_ok_def)
  have "document_of decode (hd (job_todo j)) (text_document (substring0 5000 t))"
    using assms(2) by (auto simp: document_of_def)
  then show ?thesis using d by (intro exI [of _ "processed @ [hd (job_todo j)]"]) (auto intro: list_all2_snoc)
qed

lemma content_inv_press:
  assumes "content_inv decode s" and "\<not> upload_disabled s"
  shows "content_inv decode (handleProcessFiles owner category s)"
proof -
  from assms have "jobs s = []" by (auto simp: content_inv_def upload_disabled_def)
  then show ?thesis
    using assms
    by (auto simp: content_inv_def handleProcessFiles_def job_ok_def Let_def)
qed

lemma content_inv_decoded:
  assumes inv: "content_inv decode s" and en: "content_enabled decode s (FileDecoded n t)"
  shows "content_inv decode (content_step s (FileDecoded n t))"
proof -
  from inv en obtain j where j: "jobs s = [j]" and n: "n = 0"
    by (cases "jobs s") (auto simp: content_inv_def)
  have ok: "job_ok decode j" and dec: "decode (hd (job_todo j)) = Resolves t"
    using inv en by (auto simp: content_inv_def j n)
  obtain processed where d: "job_files j = processed @ tl (job_todo j)" "processed \<noteq> []"
    "list_all2 (document_of decode) processed (job_documents j @ [text_document (substring0 5000 t)])"
    using job_ok_advance [OF ok dec] by blast
  show ?thesis
  proof (cases rule: resume_cases [of j t s])
    case more
    then have "job_ok decode (j\<lparr>job_todo := tl (job_todo j),
        job_documents := job_documents j @ [text_document (substring0 5000 t)]\<rparr>)"
      using d by (auto simp: job_ok_def)
    with more inv show ?thesis by (simp add: content_inv_def j n)
  next
    case last
    with inv show ?thesis by (simp add: content_inv_def drop_job_def j n)
  qed
qed

lemma content_inv_rejected:
  "content_inv decode s \<Longrightarrow> content_inv decode (content_step s (FileRejected n))"
  by (auto simp: content_inv_def drop_job_def list_all_iff dest: in_set_takeD in_set_dropD)

interpretation upload_machine: invariant "content_enabled decode" content_step content_init
  "\<lambda>_. True" "content_inv decode"
  for decode
proof
  show "content_inv decode content_init" by (simp add: content_inv_def content_init_def)
next
  fix s :: "'a content" and e
  assume inv: "content_inv decode s" and en: "content_enabled decode s e"
  show "content_inv decode (content_step s e)"
  proof (cases e)
    case (PressUpload owner category)
    with inv en show ?thesis using content_inv_press by simp
  next
    case (FileDecoded n t)
    with inv en show ?thesis using content_inv_decoded by blast
  next
    case (FileRejected n)
    with inv show ?thesis using content_inv_rejected by simp
  qed (use inv en in \<open>auto simp: content_inv_def ui_defs\<close>)
qed

section \<open>Where an upload comes from\<close>

text \<open>
  The request a press of the button leads to: with the properties of the press, and for its documents the typed text, or one document per
  file that was selected when the button was pressed, in the order of the selection.
\<close>

definition direct_input :: "'f content \<Rightarrow> bool" where
  "direct_input s \<longleftrightarrow> activeUploadTab s = ''direct-input'' \<and> trim (directText s) \<noteq> []"

fun upload_of :: "('f ui_file \<Rightarrow> text_outcome) \<Rightarrow> 'f content \<times> 'f content_event \<Rightarrow> UploadRequest \<Rightarrow> bool" where
  "upload_of decode (s, PressUpload owner c) u = (\<exists>docs. u = upload_request owner c docs
     \<and> (if direct_input s then docs = [text_document (directText s)]
        else uploadedFiles s \<noteq> [] \<and> list_all2 (document_of decode) (uploadedFiles s) docs))"
| "upload_of decode _ u = False"

fun job_of :: "'f content \<times> 'f content_event \<Rightarrow> 'f upload_job \<Rightarrow> bool" where
  "job_of (s, PressUpload owner c) j =
     (job_owner j = owner \<and> job_category j = c \<and> job_files j = uploadedFiles s \<and> \<not> direct_input s)"
| "job_of _ j = False"

text \<open>
  Every request and every suspended call has its own press, in the same order. What a press is and how a request or a call is tied to it is
  left open: the form ties them to its own events, the page to the events of the whole page.
\<close>

definition pressed_for :: "('x \<Rightarrow> UploadRequest \<Rightarrow> bool) \<Rightarrow> ('x \<Rightarrow> 'f upload_job \<Rightarrow> bool) \<Rightarrow> 'x list \<Rightarrow> 'f content \<Rightarrow> bool" where
  "pressed_for made started vs s \<longleftrightarrow> (\<exists>ps. subseq ps vs \<and> list_all2 made ps (uploads s)
     \<and> (\<forall>j \<in> set (jobs s). \<exists>x. subseq (ps @ [x]) vs \<and> started x j))"

lemma subseq_later: "subseq ps vs \<Longrightarrow> subseq ps (vs @ [v])"
  using list_emb_append_mono [of "(=)" ps vs "[]" "[v]"] by simp

lemma subseq_snoc_both: "subseq ps vs \<Longrightarrow> subseq (ps @ [v]) (vs @ [v])"
  by (simp add: list_emb_append_mono)

lemma pressed_for_init: "pressed_for made started [] content_init"
  by (simp add: pressed_for_def content_init_def)

locale press_origin =
  fixes decode :: "'f ui_file \<Rightarrow> text_outcome" and made :: "'x \<Rightarrow> UploadRequest \<Rightarrow> bool" and started :: "'x \<Rightarrow> 'f upload_job \<Rightarrow> bool"
  assumes started_resumed: "started x j \<Longrightarrow> started x (j\<lparr>job_todo := todo, job_documents := docs\<rparr>)"
    and started_sent: "started x j \<Longrightarrow> job_files j \<noteq> [] \<Longrightarrow> list_all2 (document_of decode) (job_files j) docs \<Longrightarrow>
      made x (upload_request (job_owner j) (job_category j) docs)"
begin

lemma later:
  assumes "pressed_for made started vs s" and "uploads s' = uploads s" and "set (jobs s') \<subseteq> set (jobs s)"
  shows "pressed_for made started (vs @ [v]) s'"
proof -
  obtain ps where ps: "subseq ps vs" "list_all2 made ps (uploads s)"
      "\<forall>j \<in> set (jobs s). \<exists>x. subseq (ps @ [x]) vs \<and> started x j"
    using assms(1) unfolding pressed_for_def by blast
  have "\<exists>x. subseq (ps @ [x]) (vs @ [v]) \<and> started x j" if j: "j \<in> set (jobs s')" for j
  proof -
    obtain x where "subseq (ps @ [x]) vs" "started x j" using ps(3) assms(3) j by blast
    then show ?thesis using subseq_later [of "ps @ [x]" vs v] by blast
  qed
  then show ?thesis using ps(2) subseq_later [OF ps(1)] unfolding pressed_for_def assms(2) by blast
qed

lemma press:
  assumes "pressed_for made started vs s" and "jobs s = []"
    and "direct_input s \<Longrightarrow> made v (upload_request owner c [text_document (directText s)])"
    and "\<not> direct_input s \<Longrightarrow> started v \<lparr>job_owner = owner, job_category = c, job_files = uploadedFiles s,
           job_todo = uploadedFiles s, job_documents = []\<rparr>"
  shows "pressed_for made started (vs @ [v]) (handleProcessFiles owner c s)"
proof -
  obtain ps where ps: "subseq ps vs" "list_all2 made ps (uploads s)" using assms(1) unfolding pressed_for_def by blast
  consider (typed) "direct_input s" | (selected) "\<not> direct_input s" "uploadedFiles s \<noteq> []" | (nothing) "\<not> direct_input s" "uploadedFiles s = []"
    by blast
  then show ?thesis
  proof cases
    case typed
    then have "list_all2 made (ps @ [v]) (uploads (handleProcessFiles owner c s))" "jobs (handleProcessFiles owner c s) = []"
      using ps(2) assms(2,3) by (auto simp: handleProcessFiles_def direct_input_def intro!: list_all2_snoc)
    then show ?thesis using subseq_snoc_both [OF ps(1)] unfolding pressed_for_def by fastforce
  next
    case selected
    then have "uploads (handleProcessFiles owner c s) = uploads s" "\<forall>j \<in> set (jobs (handleProcessFiles owner c s)). started v j"
      using assms(2,4) by (auto simp: handleProcessFiles_def direct_input_def)
    then show ?thesis using ps subseq_later [OF ps(1)] subseq_snoc_both [OF ps(1)] unfolding pressed_for_def by metis
  next
    case nothing
    then show ?thesis using assms(2) by (intro later [OF assms(1)]) (auto simp: handleProcessFiles_def direct_input_def)
  qed
qed

lemma decoded:
  assumes "pressed_for made started vs s" and inv: "content_inv decode s" and en: "content_enabled decode s (FileDecoded n t)"
  shows "pressed_for made started (vs @ [v]) (content_step s (FileDecoded n t))"
proof -
  from inv en obtain j where j: "jobs s = [j]" and n: "n = 0"
    by (cases "jobs s") (auto simp: content_inv_def)
  have ok: "job_ok decode j" and dec: "decode (hd (job_todo j)) = Resolves t"
    using inv en by (auto simp: content_inv_def j n)
  let ?docs = "job_documents j @ [text_document (substring0 5000 t)]"
  obtain processed where d: "job_files j = processed @ tl (job_todo j)" "processed \<noteq> []" "list_all2 (document_of decode) processed ?docs"
    using job_ok_advance [OF ok dec] by blast
  obtain ps x where ps: "subseq ps vs" "list_all2 made ps (uploads s)" "subseq (ps @ [x]) vs" "started x j"
    using assms(1) j unfolding pressed_for_def by auto
  show ?thesis
  proof (cases rule: resume_cases [of j t s])
    case more
    then have "uploads (content_step s (FileDecoded n t)) = uploads s" "\<forall>k \<in> set (jobs (content_step s (FileDecoded n t))). started x k"
      using started_resumed [OF ps(4)] by (simp_all add: j n)
    then show ?thesis using ps subseq_later unfolding pressed_for_def by metis
  next
    case last
    let ?u = "upload_request (job_owner j) (job_category j) ?docs"
    have "uploads (content_step s (FileDecoded n t)) = uploads s @ [?u]" "jobs (content_step s (FileDecoded n t)) = []"
      using last by (simp_all add: j n drop_job_def)
    moreover have "made x ?u" using started_sent [OF ps(4)] d last(1) by simp
    then have "list_all2 made (ps @ [x]) (uploads s @ [?u])" using ps(2) by (rule list_all2_snoc [rotated])
    ultimately show ?thesis unfolding pressed_for_def using subseq_later [OF ps(3)] by (metis empty_iff list.set(1))
  qed
qed

lemma no_press:
  assumes "pressed_for made started vs s" and "content_inv decode s" and "content_enabled decode s e" and "\<forall>owner c. e \<noteq> PressUpload owner c"
  shows "pressed_for made started (vs @ [v]) (content_step s e)"
proof (cases e)
  case (PressUpload owner c)
  then show ?thesis using assms(4) by simp
next
  case (FileDecoded n t)
  then show ?thesis using decoded [OF assms(1,2)] assms(3) by simp
qed (rule later [OF assms(1)]; auto simp: ui_defs dest: in_set_takeD in_set_dropD)+

end

interpretation form_origin: press_origin decode "upload_of decode" job_of
  for decode :: "'f ui_file \<Rightarrow> text_outcome"
proof
  fix x :: "'f content \<times> 'f content_event" and j todo docs
  show "job_of x j \<Longrightarrow> job_of x (j\<lparr>job_todo := todo, job_documents := docs\<rparr>)"
    by (cases "(x, j)" rule: job_of.cases) auto
  show "job_of x j \<Longrightarrow> job_files j \<noteq> [] \<Longrightarrow> list_all2 (document_of decode) (job_files j) docs \<Longrightarrow>
      upload_of decode x (upload_request (job_owner j) (job_category j) docs)"
    by (cases "(x, j)" rule: job_of.cases) auto
qed

lemma uploads_pressed:
  "run (content_enabled decode) content_step content_init es = Some s \<Longrightarrow>
     pressed_for (upload_of decode) job_of (visits content_step content_init es) s"
proof (induction es arbitrary: s rule: rev_induct)
  case Nil
  then show ?case using pressed_for_init by simp
next
  case (snoc e es)
  then obtain u where u: "run (content_enabled decode) content_step content_init es = Some u" "content_enabled decode u e" "s = content_step u e"
    by (auto simp: run_snoc)
  have inv: "content_inv decode u" using upload_machine.run_inv [OF u(1)] by (simp add: list_all_iff)
  have p: "pressed_for (upload_of decode) job_of (visits content_step content_init es) u" by (rule snoc.IH [OF u(1)])
  have "pressed_for (upload_of decode) job_of (visits content_step content_init es @ [(u, e)]) (content_step u e)"
  proof (cases "\<exists>owner c. e = PressUpload owner c")
    case True
    moreover from True have "jobs u = []" using inv u(2) by (auto simp: content_inv_def upload_disabled_def)
    ultimately show ?thesis using form_origin.press [OF p] by auto
  next
    case False
    then show ?thesis using form_origin.no_press [OF p inv u(2)] by blast
  qed
  then show ?case unfolding visits_snoc [OF u(1)] u(3) .
qed

section \<open>A whole upload\<close>

text \<open>Once a call is suspended, decoding its files one by one completes the upload.\<close>

lemma run_decodes:
  assumes "jobs s = [j]" and "job_todo j \<noteq> []"
    and "list_all2 (\<lambda>f t. decode f = Resolves t) (job_todo j) ts"
  shows "run (content_enabled decode) content_step s (map (FileDecoded 0) ts) =
     Some (s\<lparr>jobs := [],
             uploads := uploads s @ [upload_request (job_owner j) (job_category j)
               (job_documents j @ map (\<lambda>t. text_document (substring0 5000 t)) ts)],
             uploadedFiles := [], uploading := False\<rparr>)"
  using assms
proof (induction ts arbitrary: s j)
  case Nil
  then show ?case by simp
next
  case (Cons t ts)
  then obtain f fs where fs: "job_todo j = f # fs" "decode f = Resolves t"
    "list_all2 (\<lambda>f t. decode f = Resolves t) fs ts"
    by (cases "job_todo j") auto
  show ?case
  proof (cases "fs = []")
    case True
    with Cons.prems fs show ?thesis by (simp add: resume_def drop_job_def Let_def)
  next
    case False
    let ?j = "j\<lparr>job_todo := fs, job_documents := job_documents j @ [text_document (substring0 5000 t)]\<rparr>"
    have step: "content_step s (FileDecoded 0 t) = s\<lparr>jobs := [?j]\<rparr>"
      using Cons.prems(1) fs False by (simp add: resume_def Let_def)
    have "run (content_enabled decode) content_step (s\<lparr>jobs := [?j]\<rparr>) (map (FileDecoded 0) ts) =
        Some (s\<lparr>jobs := [], uploads := uploads s @ [upload_request (job_owner j) (job_category j)
               ((job_documents j @ [text_document (substring0 5000 t)]) @
                 map (\<lambda>t. text_document (substring0 5000 t)) ts)],
             uploadedFiles := [], uploading := False\<rparr>)"
      using Cons.IH [of "s\<lparr>jobs := [?j]\<rparr>" ?j] False fs by simp
    with step Cons.prems fs show ?thesis by simp
  qed
qed

text \<open>A call that died leaves the flag set, and nothing resets it.\<close>

definition stuck :: "'f content \<Rightarrow> bool" where
  "stuck s \<longleftrightarrow> uploading s \<and> jobs s = []"

lemma stuck_step:
  "stuck s \<Longrightarrow> content_enabled decode s e \<Longrightarrow> stuck (content_step s e) \<and> uploads (content_step s e) = uploads s"
  by (cases e) (auto simp: stuck_def upload_disabled_def ui_defs)

lemma stuck_run:
  "run (content_enabled decode) content_step s es = Some s' \<Longrightarrow> stuck s \<Longrightarrow>
     stuck s' \<and> uploads s' = uploads s"
proof (induction es arbitrary: s)
  case (Cons e es)
  then show ?case using stuck_step [of s decode e] by (auto split: if_splits)
qed simp

section \<open>Properties\<close>

text \<open>
  C34: In every reachable state at most one upload is being prepared, only while the button is disabled, and every request sent so far
  comes from a press of the button of its own, the requests in the order of their presses: it carries the owner and the category of the
  press, the category also as its name, and holds the text typed then, if the text tab was open and the text not blank, or else one document
  per file selected when the button was pressed, in the order of that selection, none left out or repeated, each the first 5000 code units of
  the file's text.
\<close>

theorem uploads_hold_cut_texts:
  assumes "run (content_enabled decode) content_step content_init es = Some s"
  shows "length (jobs s) \<le> 1 \<and> (jobs s \<noteq> [] \<longrightarrow> upload_disabled s)
    \<and> (\<exists>presses. subseq presses (visits content_step content_init es) \<and> list_all2 (upload_of decode) presses (uploads s))
    \<and> (\<forall>u \<in> set (uploads s). ur_name u = Some (ur_category u))"
proof -
  have inv: "content_inv decode s" using upload_machine.run_inv [OF assms] by (simp add: list_all_iff)
  obtain ps where ps: "subseq ps (visits content_step content_init es)" "list_all2 (upload_of decode) ps (uploads s)"
    using uploads_pressed [OF assms] unfolding pressed_for_def by blast
  have named: "ur_name u = Some (ur_category u)" if "upload_of decode x u" for x u
    using that by (cases "(decode, x, u)" rule: upload_of.cases) (auto simp: upload_request_def)
  have "\<forall>u \<in> set (uploads s). ur_name u = Some (ur_category u)"
    using ps(2) named unfolding list_all2_conv_all_nth by (metis in_set_conv_nth)
  then show ?thesis using inv ps by (auto simp: content_inv_def upload_disabled_def)
qed

text \<open>Files whose data is their text.\<close>

definition plain_decode :: "jsstr ui_file \<Rightarrow> text_outcome" where
  "plain_decode = decode_file (\<lambda>_. Hangs) (\<lambda>_. Rejects) Resolves"

definition example_file :: "jsstr ui_file" where
  "example_file = \<lparr>file_name = [97], file_size = 2, file_data = [104, 105]\<rparr>"

lemma plain_decode_example [simp]: "plain_decode example_file = Resolves [104, 105]"
  by (simp add: plain_decode_def decode_file_def example_file_def endsWith_def js_def suffix_def)

definition other_file :: "jsstr ui_file" where
  "other_file = \<lparr>file_name = [98], file_size = 1, file_data = [111]\<rparr>"

lemma plain_decode_other [simp]: "plain_decode other_file = Resolves [111]"
  by (simp add: plain_decode_def decode_file_def other_file_def endsWith_def js_def suffix_def)

definition example_upload :: "jsstr content_event list" where
  "example_upload = [SelectTab ''drag-drop'', Drop [other_file, example_file], PressUpload [1] [2],
     Drop [other_file], FileDecoded 0 [111], FileDecoded 0 [104, 105]]"

theorem uploads_hold_cut_texts_witness:
  "\<exists>s presses. run (content_enabled plain_decode) content_step content_init example_upload = Some s
     \<and> uploads s = [upload_request [1] [2] [text_document [111], text_document [104, 105]]]
     \<and> subseq presses (visits content_step content_init example_upload)
     \<and> list_all2 (upload_of plain_decode) presses (uploads s)"
proof -
  obtain s where s: "run (content_enabled plain_decode) content_step content_init example_upload = Some s"
      "uploads s = [upload_request [1] [2] [text_document [111], text_document [104, 105]]]"
    by (simp add: example_upload_def content_init_def upload_disabled_def substring0_def ui_defs)
  then show ?thesis using uploads_hold_cut_texts [OF s(1)] by blast
qed

text \<open>
  C35: Pressing the enabled button in a reachable state with files selected and the files tab open, and
  then reading every file, sends exactly one more request with one cut document per selected file in
  their order, empties the selection and enables the button's flag again.
\<close>

theorem upload_completes:
  assumes "run (content_enabled decode) content_step content_init es = Some s"
    and "activeUploadTab s = ''drag-drop''" and "\<not> upload_disabled s"
    and "list_all2 (\<lambda>f t. decode f = Resolves t) (uploadedFiles s) ts"
  shows "\<exists>s'. run (content_enabled decode) content_step s
        (PressUpload owner category # map (FileDecoded 0) ts) = Some s'
     \<and> uploads s' = uploads s @ [upload_request owner category
          (map (\<lambda>t. text_document (substring0 5000 t)) ts)]
     \<and> uploadedFiles s' = [] \<and> \<not> uploading s' \<and> jobs s' = []"
proof -
  have inv: "content_inv decode s" using upload_machine.run_inv [OF assms(1)] by (simp add: list_all_iff)
  with assms(3) have "jobs s = []" by (auto simp: content_inv_def upload_disabled_def)
  moreover have "uploadedFiles s \<noteq> []" using assms(2,3) by (auto simp: upload_disabled_def)
  ultimately show ?thesis
    using assms(2,3,4)
      run_decodes [of "handleProcessFiles owner category s" "\<lparr>job_owner = owner, job_category = category,
        job_files = uploadedFiles s, job_todo = uploadedFiles s, job_documents = []\<rparr>" decode ts]
    by (simp add: handleProcessFiles_def Let_def)
qed

theorem upload_completes_witness:
  "\<exists>s s'. run (content_enabled plain_decode) content_step content_init
        [SelectTab ''drag-drop'', Drop [example_file]] = Some s
     \<and> run (content_enabled plain_decode) content_step s
        (PressUpload [1] [2] # map (FileDecoded 0) [[104, 105]]) = Some s'
     \<and> uploads s' = [upload_request [1] [2] [text_document [104, 105]]]"
proof -
  obtain s where s: "run (content_enabled plain_decode) content_step content_init
      [SelectTab ''drag-drop'', Drop [example_file]] = Some s"
    "activeUploadTab s = ''drag-drop''" "\<not> upload_disabled s" "uploadedFiles s = [example_file]" "uploads s = []"
    by (simp add: content_init_def upload_disabled_def ui_defs)
  have "list_all2 (\<lambda>f t. plain_decode f = Resolves t) (uploadedFiles s) [[104, 105]]"
    using s by simp
  from upload_completes [OF s(1-3) this, of "[1]" "[2]"] obtain s' where
    s': "run (content_enabled plain_decode) content_step s
        (PressUpload [1] [2] # map (FileDecoded 0) [[104, 105]]) = Some s'"
      "uploads s' = uploads s @ [upload_request [1] [2] (map (\<lambda>t. text_document (substring0 5000 t)) [[104, 105]])]"
    by blast
  from s'(2) have "uploads s' = [upload_request [1] [2] [text_document [104, 105]]]"
    by (simp add: s(5) substring0_def)
  with s(1) s'(1) show ?thesis by blast
qed

text \<open>
  A file dropped while an upload is being prepared is lost: when the suspended call resumes
  it clears the whole selection, so the new file is neither kept nor part of any request.
\<close>

theorem files_added_meanwhile_are_lost:
  assumes "run (content_enabled decode) content_step content_init es = Some s"
    and "jobs s = [j]" and "job_todo j = [f]" and "decode f = Resolves t"
  shows "\<exists>s'. run (content_enabled decode) content_step s [Drop [g], FileDecoded 0 t] = Some s'
     \<and> g \<in> set (uploadedFiles (content_step s (Drop [g])))
     \<and> uploadedFiles s' = [] \<and> jobs s' = [] \<and> \<not> uploading s'
     \<and> (\<exists>u. uploads s' = uploads s @ [u] \<and> length (ur_documents u) = length (job_files j))"
proof -
  have "content_inv decode s" using upload_machine.run_inv [OF assms(1)] by (simp add: list_all_iff)
  then have "job_ok decode j" using assms(2) by (simp add: content_inv_def)
  then have "length (job_files j) = Suc (length (job_documents j))"
    using assms(3) by (auto simp: job_ok_def dest: list_all2_lengthD)
  then show ?thesis using assms(2-4) by (simp add: ui_defs upload_request_def)
qed

theorem files_added_meanwhile_are_lost_witness:
  "\<exists>s s'. run (content_enabled plain_decode) content_step content_init
        [SelectTab ''drag-drop'', Drop [example_file], PressUpload [1] [2]] = Some s
     \<and> run (content_enabled plain_decode) content_step s [Drop [example_file], FileDecoded 0 [104, 105]] = Some s'
     \<and> uploadedFiles s' = []"
proof -
  obtain s j where s: "run (content_enabled plain_decode) content_step content_init
      [SelectTab ''drag-drop'', Drop [example_file], PressUpload [1] [2]] = Some s"
    "jobs s = [j]" "job_todo j = [example_file]"
    by (simp add: content_init_def upload_disabled_def ui_defs)
  from files_added_meanwhile_are_lost [OF s plain_decode_example, of example_file] s(1)
  show ?thesis by blast
qed


definition bad_file :: "jsstr ui_file" where
  "bad_file = \<lparr>file_name = js ''a.docx'', file_size = 2, file_data = []\<rparr>"

lemma plain_decode_bad [simp]: "plain_decode bad_file = Rejects"
  by (simp add: plain_decode_def decode_file_def bad_file_def endsWith_def js_def suffix_def)


text \<open>
  The text of a PDF is obtained exactly when the reader delivers data, the document opens and every
  page loads; it is then the pages in order, each page its items joined by blanks (an item without a
  string counting as empty) and ended by a newline. In every other case the promise never settles.
\<close>

theorem pdf_text_of_pages:
  "(extractTextFromPDF getDocument (ReaderBuffer b) = Resolves t \<longleftrightarrow>
      (\<exists>ps. getDocument (ReaderBuffer b) = Some (map Some ps) \<and> t = concat (map page_text ps)))
   \<and> extractTextFromPDF getDocument r \<noteq> Rejects"
proof -
  have "pdf_pages acc ps \<noteq> Rejects" for acc ps
    by (induction acc ps rule: pdf_pages.induct) auto
  then show ?thesis
    by (cases "(getDocument, r)" rule: extractTextFromPDF.cases)
       (auto simp: pdf_pages_Resolves_iff split: option.splits)
qed

end
