(* ===== verification/Quantization.thy ===== *)
theory Quantization
  imports Floats
begin

text \<open>
  \<open>compute/quantization.go\<close>: an embedding is stored as eight bytes of header, the \<open>float32\<close> minimum and
  maximum of its components, and one byte per component. The source has every operation three times,
  generic and for the two float types; the float type is an argument here. Converting to
  \<open>uint8\<close> a float that does not fit is left to the implementation by Go: the argument \<open>imp\<close>.
\<close>

unbundle bit_operations_syntax

section \<open>One component\<close>

definition trunc :: "rat \<Rightarrow> int" where
  "trunc r = (if 0 \<le> r then \<lfloor>r\<rfloor> else \<lceil>r\<rceil>)"

definition to_uint8 :: "(fl \<Rightarrow> u8) \<Rightarrow> fl \<Rightarrow> u8" where
  "to_uint8 imp x =
     (if is_finite x \<and> 0 \<le> trunc (val x) \<and> trunc (val x) \<le> 255 then word_of_int (trunc (val x)) else imp x)"

definition Quantize :: "(fl \<Rightarrow> u8) \<Rightarrow> fmt \<Rightarrow> fl \<Rightarrow> fl \<Rightarrow> fl \<Rightarrow> u8" where
  "Quantize imp f value mn mx =
     (let value = (if fl_less value mn then mn else if fl_less mx value then mx else value);
          normalized = fl_div f (fl_sub f value mn) (fl_sub f mx mn)
      in to_uint8 imp (fl_mul f normalized (Fin 255)))"

definition Dequantize :: "fmt \<Rightarrow> u8 \<Rightarrow> fl \<Rightarrow> fl \<Rightarrow> fl" where
  "Dequantize f valueQuantized mn mx =
     (let normalized = fl_div f (Fin (of_nat (unat valueQuantized))) (Fin 255)
      in fl_add f mn (fl_mul f normalized (fl_sub f mx mn)))"

text \<open>The minimum and maximum start at the zero value, so the range always holds zero.\<close>

fun rangeFloat_from :: "fl \<Rightarrow> fl \<Rightarrow> fl list \<Rightarrow> fl \<times> fl" where
  "rangeFloat_from mn mx [] = (mn, mx)"
| "rangeFloat_from mn mx (v # vs) =
     rangeFloat_from (if fl_less v mn then v else mn) (if fl_less mx v then v else mx) vs"

definition rangeFloat :: "fl list \<Rightarrow> fl \<times> fl" where
  "rangeFloat vs = rangeFloat_from (Fin 0) (Fin 0) vs"

section \<open>Bits and bytes\<close>

text \<open>\<open>math.Float32bits\<close> and its inverse.\<close>

definition magnitude_bits :: "rat \<Rightarrow> int" where
  "magnitude_bits r =
     (if r = 0 then 0
      else (let e = max (ilog2 r) (-126) in (e + 126) * 2 ^ 23 + \<lfloor>r / pow2 (e - 23)\<rfloor>))"

definition Float32bits :: "fl \<Rightarrow> u32" where
  "Float32bits x =
     (case x of
        NaN \<Rightarrow> 0x7FC00000 | PInf \<Rightarrow> 0x7F800000 | NInf \<Rightarrow> 0xFF800000 | NZero \<Rightarrow> 0x80000000
      | Fin r \<Rightarrow> word_of_int ((if r < 0 then 2 ^ 31 else 0) + magnitude_bits \<bar>r\<bar>))"

definition Float32frombits :: "u32 \<Rightarrow> fl" where
  "Float32frombits w =
     (let n = uint w; s = n div 2 ^ 31; ex = n div 2 ^ 23 mod 256; m = n mod 2 ^ 23;
          v = (if ex = 0 then of_int m * pow2 (-149) else of_int (m + 2 ^ 23) * pow2 (ex - 150))
      in if ex = 255 then (if m = 0 then signed_inf (s = 1) else NaN)
         else if v = 0 then signed_zero (s = 1)
         else Fin (if s = 1 then - v else v))"

text \<open>\<open>binary.LittleEndian\<close>.\<close>

definition PutUint32 :: "u32 \<Rightarrow> u8 list" where
  "PutUint32 w = [ucast w, ucast (drop_bit 8 w), ucast (drop_bit 16 w), ucast (drop_bit 24 w)]"

fun Uint32 :: "u8 list \<Rightarrow> u32 outcome" where
  "Uint32 (a # b # c # d # _) =
     Done (ucast a OR push_bit 8 (ucast b) OR push_bit 16 (ucast c) OR push_bit 24 (ucast d))"
| "Uint32 _ = Panic ''index out of range''"

section \<open>Vectors and matrices\<close>

text \<open>The header is the range as \<open>float32\<close>; the components are quantized against the range as computed.\<close>

definition QuantizeVector :: "(fl \<Rightarrow> u8) \<Rightarrow> fmt \<Rightarrow> fl list \<Rightarrow> u8 list" where
  "QuantizeVector imp f vector =
     (let (mn, mx) = rangeFloat vector
      in PutUint32 (Float32bits (fl_conv F32 mn)) @ PutUint32 (Float32bits (fl_conv F32 mx)) @
         map (\<lambda>value. Quantize imp f value mn mx) vector)"

text \<open>\<open>make\<close> and the reads of the header panic on a slice shorter than eight bytes.\<close>

definition DequantizeVector :: "fmt \<Rightarrow> u8 list \<Rightarrow> fl list outcome" where
  "DequantizeVector f vectorQuantized =
     (if length vectorQuantized < 8 then Panic ''slice too short''
      else case (Uint32 vectorQuantized, Uint32 (drop 4 vectorQuantized)) of
        (Done a, Done b) \<Rightarrow>
          (let mn = fl_conv f (Float32frombits a); mx = fl_conv f (Float32frombits b)
           in Done (map (\<lambda>value. Dequantize f value mn mx) (drop 8 vectorQuantized)))
      | _ \<Rightarrow> Panic ''index out of range'')"

definition QuantizeMatrix :: "(fl \<Rightarrow> u8) \<Rightarrow> fmt \<Rightarrow> fl list list \<Rightarrow> u8 list list" where
  "QuantizeMatrix imp f matrix = map (QuantizeVector imp f) matrix"

fun DequantizeMatrix :: "fmt \<Rightarrow> u8 list list \<Rightarrow> fl list list outcome" where
  "DequantizeMatrix f [] = Done []"
| "DequantizeMatrix f (v # vs) =
     (case DequantizeVector f v of
        Panic e \<Rightarrow> Panic e
      | Done x \<Rightarrow> (case DequantizeMatrix f vs of Panic e \<Rightarrow> Panic e | Done xs \<Rightarrow> Done (x # xs)))"

section \<open>The header survives\<close>

lemma length_PutUint32 [simp]: "length (PutUint32 w) = 4"
  by (simp add: PutUint32_def)

lemma Uint32_PutUint32 [simp]: "Uint32 (PutUint32 w @ bs) = Done w"
proof -
  have "ucast (ucast w :: u8) OR push_bit 8 (ucast (ucast (drop_bit 8 w) :: u8))
      OR push_bit 16 (ucast (ucast (drop_bit 16 w) :: u8))
      OR push_bit 24 (ucast (ucast (drop_bit 24 w) :: u8)) = w"
  proof (rule bit_word_eqI)
    fix n
    assume "n < LENGTH(32)"
    then consider "n < 8" | "8 \<le> n" "n < 16" | "16 \<le> n" "n < 24" | "24 \<le> n" "n < 32"
      by simp linarith
    then show "bit ((ucast (ucast w :: u8) :: u32) OR push_bit 8 (ucast (ucast (drop_bit 8 w) :: u8))
      OR push_bit 16 (ucast (ucast (drop_bit 16 w) :: u8))
      OR push_bit 24 (ucast (ucast (drop_bit 24 w) :: u8))) n = bit w n"
      by cases (auto simp: bit_simps less_diff_conv2)
  qed
  then show ?thesis by (simp add: PutUint32_def or.assoc)
qed

lemma magnitude_bits_pos:
  assumes "representable F32 r" and "0 < r"
  defines "e \<equiv> max (ilog2 r) (-126)" and "m \<equiv> \<lfloor>r / pow2 (max (ilog2 r) (-126) - 23)\<rfloor>"
  shows "magnitude_bits r = (e + 126) * 2 ^ 23 + m" and "r = of_int m * pow2 (e - 23)"
    and "0 < m" and "m < 2 ^ 24" and "e \<le> 127" and "-126 \<le> e" and "m < 2 ^ 23 \<longrightarrow> e = -126"
proof -
  have q: "quantum_exp F32 r = e - 23" by (simp add: quantum_exp_def e_def)
  have "r = of_int (rhe (r / pow2 (e - 23))) * pow2 (e - 23)"
    using assms(1,2) by (simp add: representable_def round_rat_pos q)
  then have "r / pow2 (e - 23) = of_int (rhe (r / pow2 (e - 23)))"
    by (metis nonzero_mult_div_cancel_right pow2_nonzero)
  then have m: "of_int m = r / pow2 (e - 23)" unfolding m_def e_def by (metis floor_of_int)
  show r: "r = of_int m * pow2 (e - 23)" by (simp add: m)
  show "magnitude_bits r = (e + 126) * 2 ^ 23 + m"
    using assms(2) by (simp add: magnitude_bits_def Let_def e_def m_def)
  have "0 < rat_of_int m" using assms(2) by (simp add: m)
  then show "0 < m" by simp
  note b = ilog2_bounds [OF assms(2)]
  have "pow2 (ilog2 r + 1) \<le> pow2 (24 + (e - 23))" by (rule pow2_mono) (simp add: e_def)
  also have "\<dots> = pow2 24 * pow2 (e - 23)" by (rule pow2_add)
  finally have "r < pow2 24 * pow2 (e - 23)" using b by linarith
  then have "rat_of_int m < pow2 24" by (simp add: m pos_divide_less_eq)
  then have "rat_of_int m < of_int (2 ^ 24)" by (simp add: pow2_Ints)
  then show "m < 2 ^ 24" by (simp only: of_int_less_iff)
  have "r \<le> maxfin F32" using assms(1,2) by (simp add: representable_def)
  also have "\<dots> < pow2 24 * pow2 104" by (simp add: maxfin_def algebra_simps)
  also have "\<dots> = pow2 128" by (simp flip: pow2_add)
  finally have "pow2 (ilog2 r) < pow2 128" using b by linarith
  then show "e \<le> 127" by (auto dest: pow2_less_cancel simp: e_def)
  show "-126 \<le> e" by (simp add: e_def)
  show "m < 2 ^ 23 \<longrightarrow> e = -126"
  proof
    assume "m < 2 ^ 23"
    then have "rat_of_int m < of_int (2 ^ 23)" by (simp only: of_int_less_iff)
    then have "r < pow2 23 * pow2 (e - 23)" by (simp add: m pos_divide_less_eq pow2_Ints)
    then have "r < pow2 e" by (simp flip: pow2_add)
    then have "pow2 (ilog2 r) < pow2 e" using b by linarith
    then have "ilog2 r < e" by (rule pow2_less_cancel)
    then show "e = -126" by (auto simp: e_def max_def split: if_splits)
  qed
qed

lemma Float32frombits_split:
  assumes "0 \<le> ex" and "ex < 255" and "0 \<le> m" and "m < 2 ^ 23" and "s \<in> {0, 1}"
  shows "Float32frombits (word_of_int (s * 2 ^ 31 + ex * 2 ^ 23 + m)) =
     (let v = (if ex = 0 then of_int m * pow2 (-149) else of_int (m + 2 ^ 23) * pow2 (ex - 150))
      in if v = 0 then signed_zero (s = 1) else Fin (if s = 1 then - v else v))"
proof -
  define n where "n = s * 2 ^ 31 + ex * 2 ^ 23 + m"
  have u: "uint (word_of_int n :: u32) = n"
  proof -
    have "0 \<le> n" "n < 2 ^ 32" using assms by (auto simp: n_def)
    then show ?thesis by (subst uint_word_of_int) simp
  qed
  have n2: "n = m + (s * 256 + ex) * 2 ^ 23" by (simp add: n_def)
  have d: "n div 2 ^ 23 = s * 256 + ex" and m: "n mod 2 ^ 23 = m"
    unfolding n2 by (rule packed_div [OF assms(3,4)], rule packed_mod [OF assms(3,4)])
  have ex: "n div 2 ^ 23 mod 256 = ex" unfolding d using assms by auto
  have s: "n div 2 ^ 31 = s" using assms by (auto simp: n_def)
  have "ex \<noteq> 255" using assms(2) by simp
  then show ?thesis unfolding n_def [symmetric] Float32frombits_def u Let_def ex m s by (simp only: if_False)
qed

lemma Float32frombits_bits:
  assumes "representable F32 r"
  shows "Float32frombits (Float32bits (Fin r)) = Fin r"
proof (cases "r = 0")
  case True
  then show ?thesis
    using Float32frombits_split [of 0 0 0] by (simp add: Float32bits_def magnitude_bits_def signed_zero_def)
next
  case False
  define s :: int where "s = (if r < 0 then 1 else 0)"
  define e where "e = max (ilog2 \<bar>r\<bar>) (-126)"
  define m where "m = \<lfloor>\<bar>r\<bar> / pow2 (e - 23)\<rfloor>"
  have rep: "representable F32 \<bar>r\<bar>" using assms by (auto simp: representable_def abs_if)
  note mb = magnitude_bits_pos [OF rep, folded e_def, folded m_def]
  have pos: "0 < \<bar>r\<bar>" using False by simp
  have bits: "Float32bits (Fin r) = word_of_int (s * 2 ^ 31 + ((e + 126) * 2 ^ 23 + m))"
    using mb(1) [OF pos] by (simp add: Float32bits_def s_def)
  have v: "\<bar>r\<bar> = of_int m * pow2 (e - 23)" using mb(2) [OF pos] .
  show ?thesis
  proof (cases "m < 2 ^ 23")
    case True
    with mb(7) [OF pos] have e: "e = -126" by simp
    have "Float32frombits (word_of_int (s * 2 ^ 31 + 0 * 2 ^ 23 + m)) = Fin (if s = 1 then - \<bar>r\<bar> else \<bar>r\<bar>)"
      using Float32frombits_split [of 0 m s] True mb(3) [OF pos] v False
      by (auto simp: e s_def Let_def)
    then show ?thesis using False by (auto simp: bits e s_def)
  next
    case nonsub: False
    have e2: "s * 2 ^ 31 + ((e + 126) * 2 ^ 23 + m) = s * 2 ^ 31 + (e + 127) * 2 ^ 23 + (m - 2 ^ 23)" by simp
    have "Float32frombits (word_of_int (s * 2 ^ 31 + (e + 127) * 2 ^ 23 + (m - 2 ^ 23))) =
        Fin (if s = 1 then - \<bar>r\<bar> else \<bar>r\<bar>)"
      using Float32frombits_split [of "e + 127" "m - 2 ^ 23" s] nonsub mb(4,5,6) [OF pos] v False
      by (auto simp: s_def Let_def)
    then show ?thesis using False unfolding bits e2 by (auto simp: s_def)
  qed
qed

section \<open>Quantizing keeps the order\<close>

text \<open>The components of a range that quantizing can work with.\<close>

definition good_range :: "fmt \<Rightarrow> rat \<Rightarrow> rat \<Rightarrow> bool" where
  "good_range f a b \<longleftrightarrow>
     representable f a \<and> representable f b \<and> a < b \<and> round_rat f (b - a) \<le> maxfin f"

definition clamp :: "fl \<Rightarrow> fl \<Rightarrow> fl \<Rightarrow> fl" where
  "clamp mn mx value = (if fl_less value mn then mn else if fl_less mx value then mx else value)"

definition steps :: "fmt \<Rightarrow> rat \<Rightarrow> rat \<Rightarrow> rat \<Rightarrow> rat" where
  "steps f a b x = round_rat f (round_rat f (round_rat f (x - a) / round_rat f (b - a)) * 255)"

lemma representable_255 [simp]: "representable f 255"
  by (cases f) simp_all

lemma good_range_span: "good_range f a b \<Longrightarrow> 0 < round_rat f (b - a)"
  by (auto simp: good_range_def intro: round_diff_pos)

lemma unit_interval_round:
  "0 \<le> x \<Longrightarrow> x \<le> y \<Longrightarrow> 0 < y \<Longrightarrow> 0 \<le> round_rat f (x / y) \<and> round_rat f (x / y) \<le> 1 \<and> 1 \<le> maxfin f"
  using round_rat_between [of f 0 1 "x / y"] representable_1 [of f] unfolding representable_def by auto

lemma steps_bounds:
  assumes "good_range f a b" and "a \<le> x" and "x \<le> b"
  shows "0 \<le> steps f a b x" and "steps f a b x \<le> 255"
proof -
  have "0 \<le> round_rat f (x - a)" using assms by (intro round_rat_nonneg) simp
  moreover have "round_rat f (x - a) \<le> round_rat f (b - a)" using assms by (intro round_rat_mono) simp
  ultimately have n: "0 \<le> round_rat f (round_rat f (x - a) / round_rat f (b - a))"
      "round_rat f (round_rat f (x - a) / round_rat f (b - a)) \<le> 1"
    using unit_interval_round good_range_span [OF assms(1)] by blast+
  then show "0 \<le> steps f a b x" "steps f a b x \<le> 255"
    using round_rat_between [of f 0 255 "round_rat f (round_rat f (x - a) / round_rat f (b - a)) * 255"]
    by (simp_all add: steps_def)
qed

lemma steps_mono:
  assumes "good_range f a b" and "x \<le> y"
  shows "steps f a b x \<le> steps f a b y"
  unfolding steps_def using assms good_range_span [OF assms(1)]
  by (intro round_rat_mono mult_right_mono divide_right_mono) (simp_all add: round_rat_mono)

lemma clamp_finite:
  assumes "a \<le> b" and "value \<noteq> NaN"
  shows "is_finite (clamp (Fin a) (Fin b) value)"
    and "a \<le> val (clamp (Fin a) (Fin b) value)" and "val (clamp (Fin a) (Fin b) value) \<le> b"
  using assms by (cases "value"; auto simp: clamp_def fl_less_def)+

lemma clamp_mono:
  assumes "a \<le> b" and "v \<noteq> NaN" and "w \<noteq> NaN" and "\<not> fl_less w v"
  shows "val (clamp (Fin a) (Fin b) v) \<le> val (clamp (Fin a) (Fin b) w)"
  using assms by (cases v; cases w) (auto simp: clamp_def fl_less_def)

lemma Quantize_eq:
  assumes good: "good_range f a b" and v: "value \<noteq> NaN"
  shows "Quantize imp f value (Fin a) (Fin b) =
     word_of_int \<lfloor>steps f a b (val (clamp (Fin a) (Fin b) value))\<rfloor>"
proof -
  let ?c = "clamp (Fin a) (Fin b) value"
  let ?D = "round_rat f (b - a)"
  have ab: "a \<le> b" using good by (simp add: good_range_def)
  note c = clamp_finite [OF ab v]
  have D: "0 < ?D" "?D \<le> maxfin f" using good_range_span [OF good] good by (simp_all add: good_range_def)
  have sp: "is_finite (fl_sub f (Fin b) (Fin a))" "val (fl_sub f (Fin b) (Fin a)) = ?D"
    using D fl_sub_val [of "Fin b" "Fin a" f] by simp_all
  have n0: "0 \<le> round_rat f (val ?c - a)" "round_rat f (val ?c - a) \<le> ?D"
    using c by (auto intro: round_rat_nonneg round_rat_mono)
  have n: "is_finite (fl_sub f ?c (Fin a))" "val (fl_sub f ?c (Fin a)) = round_rat f (val ?c - a)"
    using n0 D c fl_sub_val [of ?c "Fin a" f] by simp_all
  note u = unit_interval_round [OF n0 D(1), of f]
  have q: "is_finite (fl_div f (fl_sub f ?c (Fin a)) (fl_sub f (Fin b) (Fin a)))"
    "val (fl_div f (fl_sub f ?c (Fin a)) (fl_sub f (Fin b) (Fin a))) = round_rat f (round_rat f (val ?c - a) / ?D)"
    using u D n sp fl_div_val [of "fl_sub f ?c (Fin a)" "fl_sub f (Fin b) (Fin a)" f] by simp_all
  note s = steps_bounds [OF good c(2,3)]
  have "255 \<le> maxfin f" using representable_255 [of f] unfolding representable_def by simp
  then have m: "is_finite (fl_mul f (fl_div f (fl_sub f ?c (Fin a)) (fl_sub f (Fin b) (Fin a))) (Fin 255))"
    "val (fl_mul f (fl_div f (fl_sub f ?c (Fin a)) (fl_sub f (Fin b) (Fin a))) (Fin 255)) = steps f a b (val ?c)"
    using s q fl_mul_val [of "fl_div f (fl_sub f ?c (Fin a)) (fl_sub f (Fin b) (Fin a))" "Fin 255" f]
    by (simp_all add: steps_def)
  have "\<lfloor>steps f a b (val ?c)\<rfloor> \<le> 255" using s(2) by linarith
  moreover have "0 \<le> \<lfloor>steps f a b (val ?c)\<rfloor>" using s(1) by simp
  ultimately show ?thesis
    using m s unfolding Quantize_def Let_def clamp_def [symmetric] to_uint8_def trunc_def by simp
qed

lemma Quantize_unat:
  assumes "good_range f a b" and "value \<noteq> NaN"
  shows "int (unat (Quantize imp f value (Fin a) (Fin b))) =
     \<lfloor>steps f a b (val (clamp (Fin a) (Fin b) value))\<rfloor>"
proof -
  have "a \<le> b" using assms by (simp add: good_range_def)
  note s = steps_bounds [OF assms(1) clamp_finite(2,3) [OF this assms(2)]]
  have "0 \<le> \<lfloor>steps f a b (val (clamp (Fin a) (Fin b) value))\<rfloor>"
    "\<lfloor>steps f a b (val (clamp (Fin a) (Fin b) value))\<rfloor> < 256"
    using s by linarith+
  then show ?thesis by (simp add: Quantize_eq [OF assms] unat_eq_nat_uint uint_word_of_int)
qed

lemma byte_rat: "0 \<le> rat_of_nat (unat q)" "rat_of_nat (unat q) \<le> 255" for q :: u8
proof -
  have "unat q < 2 ^ LENGTH(8)" by (rule unsigned_less)
  then have "unat q \<le> 255" by simp
  then have "rat_of_nat (unat q) \<le> of_nat 255" by (simp only: of_nat_le_iff)
  then show "0 \<le> rat_of_nat (unat q)" "rat_of_nat (unat q) \<le> 255"
    by (simp_all only: of_nat_0_le_iff of_nat_numeral)
qed

text \<open>Dequantizing, on a range of the same kind.\<close>

definition level :: "fmt \<Rightarrow> rat \<Rightarrow> rat \<Rightarrow> nat \<Rightarrow> rat" where
  "level f a b n = round_rat f (a + round_rat f (round_rat f (of_nat n / 255) * round_rat f (b - a)))"

lemma Dequantize_val:
  assumes good: "good_range f a b" and no: "round_rat f (a + round_rat f (b - a)) \<le> maxfin f"
  shows "is_finite (Dequantize f q (Fin a) (Fin b))"
    and "val (Dequantize f q (Fin a) (Fin b)) = level f a b (unat q)"
proof -
  let ?D = "round_rat f (b - a)"
  have D: "0 < ?D" "?D \<le> maxfin f" using good_range_span [OF good] good by (simp_all add: good_range_def)
  have rep: "representable f a" "representable f ?D"
    using good D by (simp_all add: good_range_def representable_round)
  have sp: "is_finite (fl_sub f (Fin b) (Fin a))" "val (fl_sub f (Fin b) (Fin a)) = ?D"
    using D fl_sub_val [of "Fin b" "Fin a" f] by simp_all
  note u = unit_interval_round [OF byte_rat, of f q]
  have n: "is_finite (fl_div f (Fin (of_nat (unat q))) (Fin 255))"
    "val (fl_div f (Fin (of_nat (unat q))) (Fin 255)) = round_rat f (of_nat (unat q) / 255)"
    using u fl_div_val [of "Fin (of_nat (unat q))" "Fin 255" f] by simp_all
  let ?w = "round_rat f (of_nat (unat q) / 255) * ?D"
  have w: "0 \<le> ?w" "?w \<le> ?D" using u D by (simp_all add: mult_left_le_one_le)
  note rw = round_rat_between [OF representable_0 rep(2) w]
  have m: "is_finite (fl_mul f (fl_div f (Fin (of_nat (unat q))) (Fin 255)) (fl_sub f (Fin b) (Fin a)))"
    "val (fl_mul f (fl_div f (Fin (of_nat (unat q))) (Fin 255)) (fl_sub f (Fin b) (Fin a))) = round_rat f ?w"
    using rw n sp fl_mul_val [of "fl_div f (Fin (of_nat (unat q))) (Fin 255)" "fl_sub f (Fin b) (Fin a)" f]
    by simp_all
  have "a \<le> a + round_rat f ?w" using rw by simp
  then have lo: "a \<le> round_rat f (a + round_rat f ?w)"
    using round_rat_mono [of a "a + round_rat f ?w" f] rep(1) by (simp add: representable_def)
  have "round_rat f (a + round_rat f ?w) \<le> round_rat f (a + ?D)" using rw by (intro round_rat_mono) simp
  then have "\<bar>round_rat f (a + round_rat f ?w)\<bar> \<le> maxfin f"
    using lo no rep(1) by (auto simp: representable_def)
  then show "is_finite (Dequantize f q (Fin a) (Fin b))"
    "val (Dequantize f q (Fin a) (Fin b)) = level f a b (unat q)"
    using m fl_add_val [of "Fin a" "fl_mul f (fl_div f (Fin (of_nat (unat q))) (Fin 255)) (fl_sub f (Fin b) (Fin a))" f]
    by (simp_all add: Dequantize_def Let_def level_def)
qed

lemma level_mono:
  assumes "good_range f a b" and "m \<le> n"
  shows "level f a b m \<le> level f a b n"
  unfolding level_def using assms good_range_span [OF assms(1)]
  by (intro round_rat_mono add_left_mono mult_right_mono divide_right_mono) simp_all


section \<open>The error of a round trip\<close>

lemma good_range_tiny: "good_range f a b \<Longrightarrow> 2 * tiny f \<le> b - a"
proof -
  assume "good_range f a b"
  then have ab: "representable f a" "representable f b" "a < b" by (simp_all add: good_range_def)
  obtain j k where jk: "a = of_int j * pow2 (emin f - (int (prec f) - 1))"
      "b = of_int k * pow2 (emin f - (int (prec f) - 1))"
    using representable_multiple [OF ab(1)] representable_multiple [OF ab(2)] by blast
  with ab(3) have "1 \<le> rat_of_int (k - j)" by simp
  then have "1 * pow2 (emin f - (int (prec f) - 1)) \<le> of_int (k - j) * pow2 (emin f - (int (prec f) - 1))"
    by (intro mult_right_mono) simp_all
  then have "pow2 (emin f - (int (prec f) - 1)) \<le> b - a" by (simp add: jk algebra_simps)
  moreover have "pow2 (emin f - (int (prec f) - 1)) = 2 * tiny f"
    using pow2_half [of "emin f - int (prec f)"] by (simp add: tiny_def algebra_simps)
  ultimately show ?thesis by simp
qed

lemma abs_sum7:
  fixes x :: rat
  assumes "x = x1 + x2 + x3 + x4 + x5 + x6 + x7"
    and "\<bar>x1\<bar> \<le> c1" "\<bar>x2\<bar> \<le> c2" "\<bar>x3\<bar> \<le> c3" "\<bar>x4\<bar> \<le> c4" "\<bar>x5\<bar> \<le> c5" "\<bar>x6\<bar> \<le> c6" "\<bar>x7\<bar> \<le> c7"
  shows "\<bar>x\<bar> \<le> c1 + c2 + c3 + c4 + c5 + c6 + c7"
  using assms by linarith

text \<open>The seven roundings and the cut to a whole number, put together.\<close>

lemma round_trip_sum:
  fixes D :: rat
  assumes e: "0 < \<epsilon>" "\<epsilon> \<le> 1 / 8388608" and t: "0 < t" "t \<le> \<epsilon> / 8388608" "2 * t \<le> D"
    and D': "0 < D'" "\<bar>D' - D\<bar> \<le> \<epsilon> * D + t" and u: "0 \<le> u" "u \<le> D" "\<bar>u' - u\<bar> \<le> \<epsilon> * u + t" "0 \<le> u'" "u' \<le> D'"
    and q: "\<bar>q - u' / D'\<bar> \<le> \<epsilon> * (u' / D') + t" "0 \<le> q" "q \<le> 1"
    and s: "\<bar>s - q * 255\<bar> \<le> \<epsilon> * (q * 255) + t"
    and n: "n \<le> s" "s < n + 1" "0 \<le> n" "n \<le> 255"
    and v: "\<bar>v - n / 255\<bar> \<le> \<epsilon> * (n / 255) + t" "0 \<le> v" "v \<le> 1"
    and w: "\<bar>w - v * D'\<bar> \<le> \<epsilon> * (v * D') + t" "0 \<le> w" "w \<le> D'"
    and a: "a \<le> 0" "0 \<le> a + D" and y: "\<bar>y - (a + w)\<bar> \<le> \<epsilon> * \<bar>a + w\<bar> + t"
  shows "\<bar>y - (a + u)\<bar> \<le> D / 255 + 16 * \<epsilon> * D + 4 * t"
proof -
  have D0: "0 < D" using t by linarith
  have "\<epsilon> * D \<le> 1 / 8388608 * D" using e D0 by (intro mult_right_mono) simp_all
  then have D2: "D' \<le> 2 * D" using D' t by linarith
  have tD: "t * D' \<le> \<epsilon> * D / 8388608 * 2"
  proof -
    have "t * D' \<le> (\<epsilon> / 8388608) * (2 * D)" using t e D' D2 by (intro mult_mono) simp_all
    then show ?thesis by simp
  qed
  have eD: "\<epsilon> * D' \<le> \<epsilon> * (2 * D)" using e D2 by (intro mult_left_mono) simp_all
  have scale: "\<bar>x * D'\<bar> \<le> c * D'" if "\<bar>x\<bar> \<le> c" for x c
    using that D' by (simp add: abs_mult mult_right_mono)
  have ue: "\<epsilon> * u \<le> \<epsilon> * D" using u e by simp
  then have b7: "\<bar>u' - u\<bar> \<le> \<epsilon> * D + t" using u(3) by linarith
  have b1: "\<bar>y - (a + w)\<bar> \<le> \<epsilon> * D + \<epsilon> * D' + t"
  proof -
    have "\<epsilon> * \<bar>a + w\<bar> \<le> \<epsilon> * (D + D')" using a w e by (intro mult_left_mono) simp_all
    then show ?thesis using y by (simp add: distrib_left)
  qed
  have "v * D' \<le> D'" using v D' by (simp add: mult_left_le_one_le)
  then have "\<epsilon> * (v * D') \<le> \<epsilon> * D'" using e by simp
  then have b2: "\<bar>w - v * D'\<bar> \<le> \<epsilon> * D' + t" using w by linarith
  have "\<epsilon> * (n / 255) \<le> \<epsilon>" using n e by simp
  then have b3: "\<bar>(v - n / 255) * D'\<bar> \<le> (\<epsilon> + t) * D'" using v by (intro scale) linarith
  have b4: "\<bar>((n - s) / 255) * D'\<bar> \<le> (1 / 255) * D'" using n by (intro scale) (simp add: abs_le_iff)
  have "\<epsilon> * (q * 255) \<le> \<epsilon> * 255" using q e by simp
  with s have "\<bar>s - q * 255\<bar> \<le> \<epsilon> * 255 + t" by (rule order_trans [OF _ add_right_mono])
  then have "\<bar>s - q * 255\<bar> \<le> 255 * (\<epsilon> + t)" using t(1) by (simp add: algebra_simps)
  then have "\<bar>(s - q * 255) / 255\<bar> \<le> \<epsilon> + t" by (simp add: divide_le_eq)
  then have b5: "\<bar>((s - q * 255) / 255) * D'\<bar> \<le> (\<epsilon> + t) * D'" by (rule scale)
  have "u' / D' \<le> 1" using u(5) D'(1) by simp
  then have "\<epsilon> * (u' / D') \<le> \<epsilon>" using e(1) by (simp only: mult_left_le less_imp_le)
  then have "\<bar>q - u' / D'\<bar> \<le> \<epsilon> + t" using q by linarith
  then have b6: "\<bar>(q - u' / D') * D'\<bar> \<le> (\<epsilon> + t) * D'" by (rule scale)
  have q6: "(q - u' / D') * D' = q * D' - u'" using D' by (simp add: left_diff_distrib)
  have "y - (a + u) = (y - (a + w)) + (w - v * D') + (v - n / 255) * D' + ((n - s) / 255) * D'
      + ((s - q * 255) / 255) * D' + (q - u' / D') * D' + (u' - u)"
    unfolding q6 by (simp add: field_simps)
  then have "\<bar>y - (a + u)\<bar> \<le> (\<epsilon> * D + \<epsilon> * D' + t) + (\<epsilon> * D' + t) + (\<epsilon> + t) * D' + (1 / 255) * D'
      + (\<epsilon> + t) * D' + (\<epsilon> + t) * D' + (\<epsilon> * D + t)"
    using b1 b2 b3 b4 b5 b6 b7 by (rule abs_sum7)
  also have "\<dots> = 2 * (\<epsilon> * D) + 5 * (\<epsilon> * D') + 3 * (t * D') + D' / 255 + 3 * t"
    by (simp add: algebra_simps)
  also have "\<dots> \<le> D / 255 + 16 * (\<epsilon> * D) + 4 * t"
  proof -
    have p: "0 \<le> \<epsilon> * D" using e D0 by simp
    have "D' \<le> D + \<epsilon> * D + t" using D' by linarith
    then show ?thesis using tD eD t p by linarith
  qed
  finally show ?thesis by simp
qed

text \<open>How far a component may move when it is quantized and read back, on a range of width \<open>D\<close>.\<close>

definition error_bound :: "fmt \<Rightarrow> rat \<Rightarrow> rat" where
  "error_bound f D = D / 255 + 16 * ulp f * D + 4 * tiny f"

lemma clamp_inside: "is_finite v \<Longrightarrow> a \<le> val v \<Longrightarrow> val v \<le> b \<Longrightarrow> clamp (Fin a) (Fin b) v = v"
  by (auto elim!: is_finite_cases simp: clamp_def fl_less_def)

lemma level_error:
  assumes good: "good_range f a b" and a: "a \<le> 0" "0 \<le> b" and x: "a \<le> x" "x \<le> b"
  shows "\<bar>level f a b (nat \<lfloor>steps f a b x\<rfloor>) - x\<bar> \<le> error_bound f (b - a)"
proof -
  define D' where "D' = round_rat f (b - a)"
  define u' where "u' = round_rat f (x - a)"
  define q where "q = round_rat f (u' / D')"
  define s where "s = round_rat f (q * 255)"
  define n where "n = rat_of_int \<lfloor>s\<rfloor>"
  define v where "v = round_rat f (n / 255)"
  define w where "w = round_rat f (v * D')"
  define y where "y = round_rat f (a + w)"
  have D': "0 < D'" unfolding D'_def by (rule good_range_span [OF good])
  have ab: "a < b" using good by (simp add: good_range_def)
  have rD: "representable f D'"
    using good D' by (simp add: D'_def good_range_def representable_round)
  have u: "0 \<le> u'" "u' \<le> D'"
    using x by (auto simp: u'_def D'_def intro: round_rat_nonneg round_rat_mono)
  have q: "0 \<le> q" "q \<le> 1" using unit_interval_round [OF u D', of f] by (simp_all add: q_def)
  have s: "s = steps f a b x" by (simp add: s_def q_def u'_def D'_def steps_def)
  have sb: "0 \<le> s" "s \<le> 255" using steps_bounds [OF good x] by (simp_all add: s)
  have n: "n \<le> s" "s < n + 1" "0 \<le> n" "n \<le> 255"
  proof -
    show "n \<le> s" "s < n + 1" unfolding n_def by linarith+
    show "0 \<le> n" using sb by (simp add: n_def)
    show "n \<le> 255" using \<open>n \<le> s\<close> sb by linarith
  qed
  have v: "0 \<le> v" "v \<le> 1" using unit_interval_round [of n 255 f] n by (simp_all add: v_def)
  have vD: "0 \<le> v * D'" "v * D' \<le> D'" using v D' by (simp_all add: mult_left_le_one_le)
  have w: "0 \<le> w" "w \<le> D'" using round_rat_between [OF representable_0 rD vD] by (simp_all add: w_def)
  have err: "\<bar>round_rat f z - z\<bar> \<le> ulp f * z + tiny f" if "0 \<le> z" for z
    using round_rat_error [of f z] that by simp
  have "y = level f a b (nat \<lfloor>steps f a b x\<rfloor>)"
    using n(3) by (simp add: y_def w_def v_def D'_def level_def n_def s)
  moreover have "\<bar>y - (a + (x - a))\<bar> \<le> (b - a) / 255 + 16 * ulp f * (b - a) + 4 * tiny f"
  proof (rule round_trip_sum)
    show "0 < ulp f" "ulp f \<le> 1 / 8388608" "0 < tiny f" "tiny f \<le> ulp f / 8388608" by (rule ulp_tiny)+
    show "2 * tiny f \<le> b - a" by (rule good_range_tiny [OF good])
    show "\<bar>D' - (b - a)\<bar> \<le> ulp f * (b - a) + tiny f" unfolding D'_def by (rule err) (use ab in simp)
    show "\<bar>u' - (x - a)\<bar> \<le> ulp f * (x - a) + tiny f" unfolding u'_def by (rule err) (use x in simp)
    show "\<bar>q - u' / D'\<bar> \<le> ulp f * (u' / D') + tiny f" unfolding q_def by (rule err) (use u D' in simp)
    show "\<bar>s - q * 255\<bar> \<le> ulp f * (q * 255) + tiny f" unfolding s_def by (rule err) (use q in simp)
    show "\<bar>v - n / 255\<bar> \<le> ulp f * (n / 255) + tiny f" unfolding v_def by (rule err) (use n in simp)
    show "\<bar>w - v * D'\<bar> \<le> ulp f * (v * D') + tiny f" unfolding w_def by (rule err) (use vD in simp)
    show "\<bar>y - (a + w)\<bar> \<le> ulp f * \<bar>a + w\<bar> + tiny f" unfolding y_def by (rule round_rat_error)
  qed (use x u q n v w D' a in \<open>simp_all\<close>)
  ultimately show ?thesis by (simp add: error_bound_def)
qed

lemma round_trip_error:
  assumes good: "good_range f a b" and a: "a \<le> 0" "0 \<le> b"
    and v: "is_finite value" "a \<le> val value" "val value \<le> b"
  shows "is_finite (Dequantize f (Quantize imp f value (Fin a) (Fin b)) (Fin a) (Fin b))"
    and "\<bar>val (Dequantize f (Quantize imp f value (Fin a) (Fin b)) (Fin a) (Fin b)) - val value\<bar>
      \<le> error_bound f (b - a)"
proof -
  let ?q = "Quantize imp f value (Fin a) (Fin b)"
  have "round_rat f (a + round_rat f (b - a)) \<le> round_rat f (round_rat f (b - a))"
    using a by (intro round_rat_mono) simp
  then have no: "round_rat f (a + round_rat f (b - a)) \<le> maxfin f" using good by (simp add: good_range_def)
  note d = Dequantize_val [OF good no, of ?q]
  have nn: "value \<noteq> NaN" using v by auto
  have "int (unat ?q) = \<lfloor>steps f a b (val value)\<rfloor>"
    unfolding Quantize_unat [OF good nn] clamp_inside [OF v] ..
  then have "unat ?q = nat \<lfloor>steps f a b (val value)\<rfloor>" by linarith
  then show "is_finite (Dequantize f ?q (Fin a) (Fin b))"
    "\<bar>val (Dequantize f ?q (Fin a) (Fin b)) - val value\<bar> \<le> error_bound f (b - a)"
    using d level_error [OF good a v(2,3)] by simp_all
qed

section \<open>Vectors\<close>

lemma rangeFloat_from_Fin:
  assumes "\<forall>v \<in> set vs. is_finite v \<and> representable f (val v)"
    and "a \<le> 0" and "0 \<le> b" and "representable f a" and "representable f b"
  shows "\<exists>a' b'. rangeFloat_from (Fin a) (Fin b) vs = (Fin a', Fin b') \<and> a' \<le> a \<and> b \<le> b'
    \<and> representable f a' \<and> representable f b' \<and> (\<forall>v \<in> set vs. a' \<le> val v \<and> val v \<le> b')"
  using assms
proof (induction vs arbitrary: a b)
  case Nil
  then show ?case by simp
next
  case (Cons v vs)
  define a1 where "a1 = (if fl_less v (Fin a) then val v else a)"
  define b1 where "b1 = (if fl_less (Fin b) v then val v else b)"
  have v: "is_finite v" "representable f (val v)" using Cons.prems by simp_all
  have 1: "(if fl_less v (Fin a) then v else Fin a) = Fin a1" "(if fl_less (Fin b) v then v else Fin b) = Fin b1"
    using v(1) Cons.prems(2,3) by (auto elim!: is_finite_cases simp: a1_def b1_def fl_less_def)
  have 2: "a1 \<le> a" "b \<le> b1" "a1 \<le> val v" "val v \<le> b1" "representable f a1" "representable f b1"
    using v Cons.prems(2-5) by (auto simp: a1_def b1_def fl_less_finite)
  obtain a' b' where "rangeFloat_from (Fin a1) (Fin b1) vs = (Fin a', Fin b')" "a' \<le> a1" "b1 \<le> b'"
      "representable f a'" "representable f b'" "\<forall>v \<in> set vs. a' \<le> val v \<and> val v \<le> b'"
    using Cons.IH [of a1 b1] Cons.prems 2 by auto
  then show ?case using 1 2 by (intro exI [of _ a'] exI [of _ b']) auto
qed

lemma rangeFloat_Fin:
  assumes "\<forall>v \<in> set vs. is_finite v \<and> representable f (val v)" and "rangeFloat vs = (Fin a, Fin b)"
  shows "a \<le> 0" and "0 \<le> b" and "representable f a" and "representable f b"
    and "\<forall>v \<in> set vs. a \<le> val v \<and> val v \<le> b"
  using rangeFloat_from_Fin [OF assms(1), of 0 0] assms(2) by (auto simp: rangeFloat_def)

lemma fl_conv_Fin: "representable f r \<Longrightarrow> fl_conv f (Fin r) = Fin r"
  by (simp add: mk_representable)

lemma DequantizeVector_header:
  assumes "representable F32 a" and "representable F32 b"
  shows "DequantizeVector F32 (PutUint32 (Float32bits (Fin a)) @ PutUint32 (Float32bits (Fin b)) @ bs) =
    Done (map (\<lambda>q. Dequantize F32 q (Fin a) (Fin b)) bs)"
proof -
  have "length (PutUint32 (Float32bits (Fin a)) @ PutUint32 (Float32bits (Fin b)) @ bs) = 8 + length bs"
    by simp
  moreover have "drop 4 (PutUint32 (Float32bits (Fin a)) @ PutUint32 (Float32bits (Fin b)) @ bs) =
      PutUint32 (Float32bits (Fin b)) @ bs" by simp
  moreover have "drop 8 (PutUint32 (Float32bits (Fin a)) @ PutUint32 (Float32bits (Fin b)) @ bs) = bs" by simp
  ultimately show ?thesis
    unfolding DequantizeVector_def
    by (simp add: Float32frombits_bits [OF assms(1)] Float32frombits_bits [OF assms(2)]
        fl_conv_Fin [OF assms(1)] fl_conv_Fin [OF assms(2)] del: fl_conv.simps)
qed

lemma vector_bytes:
  assumes "representable F32 a" and "representable F32 b" and "rangeFloat vs = (Fin a, Fin b)"
  shows "QuantizeVector imp F32 vs = PutUint32 (Float32bits (Fin a)) @ PutUint32 (Float32bits (Fin b)) @
    map (\<lambda>v. Quantize imp F32 v (Fin a) (Fin b)) vs"
  using assms(3) unfolding QuantizeVector_def
  by (simp only: prod.case Let_def fl_conv_Fin [OF assms(1)] fl_conv_Fin [OF assms(2)])

section \<open>Properties\<close>

text \<open>
  C17: Storing a \<open>float32\<close> embedding and reading it back: of a vector of finite components that are not
  all zero and whose range does not overflow, the bytes are the eight of the header and one per
  component, reading succeeds with as many components, and each is finite and differs from the
  original by at most a 255th of the width of the range, up to rounding (\<open>error_bound\<close>). The behaviour of the
  conversion to \<open>uint8\<close> outside its range does not matter.
\<close>

theorem vector_round_trip:
  assumes "\<forall>v \<in> set vs. is_finite v \<and> representable F32 (val v)"
    and "rangeFloat vs = (Fin a, Fin b)" and "a < b" and "round_rat F32 (b - a) \<le> maxfin F32"
  shows "length (QuantizeVector imp F32 vs) = 8 + length vs
    \<and> (\<exists>ws. DequantizeVector F32 (QuantizeVector imp F32 vs) = Done ws \<and> length ws = length vs
      \<and> (\<forall>i < length vs. is_finite (ws ! i) \<and> \<bar>val (ws ! i) - val (vs ! i)\<bar> \<le> error_bound F32 (b - a)))"
proof -
  note r = rangeFloat_Fin [OF assms(1,2)]
  have good: "good_range F32 a b" using r assms(3,4) by (simp add: good_range_def)
  note bytes = vector_bytes [OF r(3,4) assms(2), of imp]
  have "is_finite v \<and> a \<le> val v \<and> val v \<le> b" if "v \<in> set vs" for v using assms(1) r(5) that by blast
  then show ?thesis
    unfolding bytes DequantizeVector_header [OF r(3,4)]
    using round_trip_error [OF good r(1,2)] by simp
qed

lemma representable_one_fits: "round_rat f 1 = 1" "1 \<le> maxfin f"
  using representable_1 [of f] by (simp_all add: representable_def)

theorem vector_round_trip_witness:
  "\<exists>ws. DequantizeVector F32 (QuantizeVector (\<lambda>_. 0) F32 [Fin 1, NZero, Fin 0]) = Done ws
    \<and> length ws = 3 \<and> (\<forall>i < 3. \<bar>val (ws ! i) - val ([Fin 1, NZero, Fin 0] ! i)\<bar> \<le> error_bound F32 1)"
proof -
  have "\<forall>v \<in> set [Fin 1, NZero, Fin 0]. is_finite v \<and> representable F32 (val v)" by simp
  moreover have "rangeFloat [Fin 1, NZero, Fin 0] = (Fin 0, Fin 1)" by (simp add: rangeFloat_def fl_less_def)
  moreover have "round_rat F32 (1 - 0) \<le> maxfin F32" using representable_one_fits by simp
  ultimately have "\<exists>ws. DequantizeVector F32 (QuantizeVector (\<lambda>_. 0) F32 [Fin 1, NZero, Fin 0]) = Done ws
      \<and> length ws = length [Fin 1, NZero, Fin 0] \<and> (\<forall>i < length [Fin 1, NZero, Fin 0].
        is_finite (ws ! i) \<and> \<bar>val (ws ! i) - val ([Fin 1, NZero, Fin 0] ! i)\<bar> \<le> error_bound F32 (1 - 0))"
    using vector_round_trip [of "[Fin 1, NZero, Fin 0]" 0 1 "\<lambda>_. 0"] by (metis zero_less_one)
  moreover have "length [Fin 1, NZero, Fin 0] = 3" by simp
  ultimately show ?thesis by (metis (no_types, lifting) diff_zero)
qed

lemma steps_ends:
  assumes "good_range f a b"
  shows "steps f a b a = 0" and "steps f a b b = 255"
  using good_range_span [OF assms] representable_255 [of f]
  by (simp_all add: steps_def representable_one_fits representable_def)

text \<open>
  Quantizing keeps the order: on a range quantizing can work with, and whatever the implementation
  does outside the range of \<open>uint8\<close>, a value that is not below another gets no smaller code (and so
  reads back as no smaller number), the minimum gets code 0 and the maximum code 255, and values
  beyond the range, infinities included, are clamped to its ends.
\<close>

theorem quantize_keeps_order:
  assumes "good_range f a b" and "v \<noteq> NaN" and "w \<noteq> NaN" and "\<not> fl_less w v"
  shows "unat (Quantize imp f v (Fin a) (Fin b)) \<le> unat (Quantize imp' f w (Fin a) (Fin b))
    \<and> Quantize imp f (Fin a) (Fin a) (Fin b) = 0 \<and> Quantize imp f (Fin b) (Fin a) (Fin b) = 255
    \<and> (fl_less v (Fin a) \<longrightarrow> Quantize imp f v (Fin a) (Fin b) = 0)
    \<and> (fl_less (Fin b) w \<longrightarrow> Quantize imp' f w (Fin a) (Fin b) = 255)"
proof -
  have ab: "a \<le> b" "\<not> b < a" using assms(1) by (auto simp: good_range_def)
  have "\<lfloor>steps f a b (val (clamp (Fin a) (Fin b) v))\<rfloor> \<le> \<lfloor>steps f a b (val (clamp (Fin a) (Fin b) w))\<rfloor>"
    by (intro floor_mono steps_mono [OF assms(1)] clamp_mono [OF ab(1) assms(2-4)])
  then have "int (unat (Quantize imp f v (Fin a) (Fin b))) \<le> int (unat (Quantize imp' f w (Fin a) (Fin b)))"
    unfolding Quantize_unat [OF assms(1,2)] Quantize_unat [OF assms(1,3)] .
  moreover have "Quantize imp f (Fin a) (Fin a) (Fin b) = 0" "Quantize imp f (Fin b) (Fin a) (Fin b) = 255"
    using ab by (simp_all add: Quantize_eq [OF assms(1)] steps_ends [OF assms(1)] clamp_def fl_less_def)
  moreover have "Quantize imp f v (Fin a) (Fin b) = 0" if "fl_less v (Fin a)"
    using that by (simp add: Quantize_eq [OF assms(1,2)] steps_ends [OF assms(1)] clamp_def)
  moreover have "Quantize imp' f w (Fin a) (Fin b) = 255" if "fl_less (Fin b) w"
  proof -
    have "\<not> fl_less w (Fin a)" using that ab by (cases w) (auto simp: fl_less_def)
    then show ?thesis using that by (simp add: Quantize_eq [OF assms(1,3)] steps_ends [OF assms(1)] clamp_def)
  qed
  ultimately show ?thesis by linarith
qed

theorem quantize_keeps_order_witness:
  "unat (Quantize (\<lambda>_. 7) F64 (Fin (1 / 2)) (Fin 0) (Fin 1)) \<le> unat (Quantize (\<lambda>_. 9) F64 PInf (Fin 0) (Fin 1))
   \<and> Quantize (\<lambda>_. 9) F64 PInf (Fin 0) (Fin 1) = 255"
proof -
  have "good_range F64 0 1" by (simp add: good_range_def representable_one_fits)
  moreover have "Fin (1 / 2) \<noteq> NaN" "PInf \<noteq> NaN" "\<not> fl_less PInf (Fin (1 / 2))" "fl_less (Fin 1) PInf"
    by (simp_all add: fl_less_def)
  ultimately show ?thesis using quantize_keeps_order [of F64 0 1 "Fin (1 / 2)" PInf] by blast
qed

lemma Dequantize_zero: "Dequantize f q (Fin 0) (Fin 0) = Fin 0"
proof -
  have u: "0 \<le> rat_of_nat (unat q) / 255" "round_rat f (of_nat (unat q) / 255) \<le> maxfin f"
    using unit_interval_round [OF byte_rat, of f q] byte_rat(1) [of q] by (linarith | simp)+
  have "fl_div f (Fin (of_nat (unat q))) (Fin 255) = mk f (of_nat (unat q) / 255)"
    by (cases "rat_of_nat (unat q) = 0") (simp_all add: fl_div_def signed_zero_def Let_def)
  then have r: "fl_div f (Fin (of_nat (unat q))) (Fin 255) = Fin (round_rat f (of_nat (unat q) / 255))"
      "0 \<le> round_rat f (of_nat (unat q) / 255)"
    by (simp_all only: mk_nonneg [OF u] round_rat_nonneg [OF u(1)])
  show ?thesis using r(2) unfolding Dequantize_def Let_def r(1)
    by (simp add: fl_sub_def fl_add_def fl_mul_def signed_zero_def)
qed

text \<open>
  The zero embedding divides zero by zero: every component is converted from a NaN, so its stored
  byte is whatever the implementation makes of that; yet the width of the range is zero, and the vector
  reads back as exactly zero on every implementation.
\<close>

theorem zero_vector_round_trip:
  "drop 8 (QuantizeVector imp F32 (replicate n (Fin 0))) = replicate n (imp NaN)
   \<and> DequantizeVector F32 (QuantizeVector imp F32 (replicate n (Fin 0))) = Done (replicate n (Fin 0))"
proof -
  have "rangeFloat_from (Fin 0) (Fin 0) (replicate n (Fin 0)) = (Fin 0, Fin 0)"
    by (induction n) (simp_all add: fl_less_def)
  then have r: "rangeFloat (replicate n (Fin 0)) = (Fin 0, Fin 0)" by (simp add: rangeFloat_def)
  have q: "Quantize imp F32 (Fin 0) (Fin 0) (Fin 0) = imp NaN"
    by (simp add: Quantize_def fl_less_def fl_sub_def fl_add_def fl_div_def fl_mul_def to_uint8_def Let_def)
  have b: "QuantizeVector imp F32 (replicate n (Fin 0)) =
      PutUint32 (Float32bits (Fin 0)) @ PutUint32 (Float32bits (Fin 0)) @ replicate n (imp NaN)"
    by (simp add: vector_bytes [OF _ _ r] q map_replicate)
  show ?thesis unfolding b
    by (simp add: DequantizeVector_header map_replicate Dequantize_zero)
qed

lemma Uint32_Done: "4 \<le> length bs \<Longrightarrow> \<exists>w. Uint32 bs = Done w"
  by (cases bs rule: Uint32.cases) auto

lemma DequantizeVector_long:
  assumes "8 \<le> length bs"
  shows "\<exists>ws. DequantizeVector f bs = Done ws \<and> length ws = length bs - 8"
proof -
  obtain a where "Uint32 bs = Done a" using Uint32_Done [of bs] assms by auto
  moreover obtain b where "Uint32 (drop 4 bs) = Done b" using Uint32_Done [of "drop 4 bs"] assms by fastforce
  ultimately show ?thesis using assms by (simp add: DequantizeVector_def Let_def)
qed

lemma DequantizeVector_short: "length bs < 8 \<Longrightarrow> \<exists>e. DequantizeVector f bs = Panic e"
  by (simp add: DequantizeVector_def)

text \<open>
  Reading a stored matrix returns exactly when every row has its eight header bytes, and then there is
  one vector per row with one component per remaining byte; a shorter row panics.
\<close>

theorem matrix_read_back:
  "case DequantizeMatrix f ms of
     Done xs \<Rightarrow> list_all2 (\<lambda>m x. length m = 8 + length x \<and> DequantizeVector f m = Done x) ms xs
   | Panic e \<Rightarrow> \<exists>m \<in> set ms. length m < 8"
proof (induction ms)
  case Nil
  then show ?case by simp
next
  case (Cons m ms)
  show ?case
  proof (cases "length m < 8")
    case True
    then show ?thesis using DequantizeVector_short [OF True, of f] by auto
  next
    case False
    then obtain x where "DequantizeVector f m = Done x" "length m = 8 + length x"
      using DequantizeVector_long [of m f] by auto
    then show ?thesis using Cons.IH by (auto split: outcome.splits)
  qed
qed

end
