(* ===== verification/Cosine.thy ===== *)
theory Cosine
  imports Quantization
begin

text \<open>
  \<open>compute/compute.go\<close> and \<open>compute/cosine.go\<close> (the default build), and the extraction of the result in
  \<open>compute/cosine_gonum.go\<close>: stored vectors become \<open>float64\<close> containers, rows are normalized in place
  and compared by their dot products. Every operation is rounded on its own; Go allows an
  implementation to fuse a product and a sum, which the default target does not do. The methods change the data of both
  containers, so they return them updated. The two arguments are different objects at every call.
\<close>

section \<open>Square root\<close>

fun isqrt :: "int \<Rightarrow> int" where
  "isqrt n = (if n \<le> 0 then 0
              else let r = 2 * isqrt (n div 4) in if (r + 1) * (r + 1) \<le> n then r + 1 else r)"

declare isqrt.simps [simp del]

definition sqrt_exp :: "fmt \<Rightarrow> rat \<Rightarrow> int" where
  "sqrt_exp f r = max (ilog2 r div 2) (emin f) - (int (prec f) - 1)"

definition round_sqrt :: "fmt \<Rightarrow> rat \<Rightarrow> rat" where
  "round_sqrt f r =
     (let q = pow2 (sqrt_exp f r); x = r / (q * q); n = isqrt \<lfloor>x\<rfloor>; h = (of_int n + 1 / 2) * (of_int n + 1 / 2)
      in of_int (if h < x \<or> (h = x \<and> odd n) then n + 1 else n) * q)"

fun fl_sqrt :: "fmt \<Rightarrow> fl \<Rightarrow> fl" where
  "fl_sqrt f NaN = NaN"
| "fl_sqrt f PInf = PInf"
| "fl_sqrt f NInf = NaN"
| "fl_sqrt f NZero = NZero"
| "fl_sqrt f (Fin r) = (if r = 0 then Fin 0 else if r < 0 then NaN else Fin (round_sqrt f r))"

lemma isqrt_bounds: "0 \<le> n \<Longrightarrow> 0 \<le> isqrt n \<and> isqrt n * isqrt n \<le> n \<and> n < (isqrt n + 1) * (isqrt n + 1)"
proof (induction n rule: isqrt.induct)
  case (1 n)
  show ?case
  proof (cases "n \<le> 0")
    case True
    with 1 have "n = 0" by simp
    moreover have "isqrt 0 = 0" by (subst isqrt.simps) simp
    ultimately show ?thesis by simp
  next
    case False
    define k where "k = isqrt (n div 4)"
    have k: "0 \<le> k" "k * k \<le> n div 4" "n div 4 < (k + 1) * (k + 1)"
      using 1 False by (simp_all add: k_def)
    have lo: "4 * (k * k) \<le> n" using k by linarith
    have hi: "n < 4 * ((k + 1) * (k + 1))" using k by linarith
    have e: "isqrt n = (if (2 * k + 1) * (2 * k + 1) \<le> n then 2 * k + 1 else 2 * k)"
      using False by (subst isqrt.simps) (simp add: k_def Let_def)
    show ?thesis
    proof (cases "(2 * k + 1) * (2 * k + 1) \<le> n")
      case True
      then show ?thesis using k hi by (simp add: e algebra_simps)
    next
      case False
      then show ?thesis using k lo by (simp add: e algebra_simps)
    qed
  qed
qed

section \<open>Containers\<close>

record vectorContainer =
  v_data :: "fl list"
  v_cols :: nat

record matrixContainer =
  m_data :: "fl list"
  m_rows :: nat
  m_cols :: nat

definition NewVector :: "u8 list \<Rightarrow> vectorContainer outcome" where
  "NewVector vectorQuantized =
     (let cols = int (length vectorQuantized) - 8
      in if cols \<le> 0 then Panic ''vector columns are empty''
         else case DequantizeVector F64 vectorQuantized of
           Panic e \<Rightarrow> Panic e
         | Done data \<Rightarrow> Done \<lparr>v_data = data, v_cols = nat cols\<rparr>)"

text \<open>\<open>copy(flat[off:], row)\<close> writes as much of the row as fits.\<close>

definition copy_at :: "nat \<Rightarrow> fl list \<Rightarrow> fl list \<Rightarrow> fl list" where
  "copy_at off row flat =
     (let k = min (length flat - off) (length row) in take off flat @ take k row @ drop (off + k) flat)"

fun copy_rows :: "nat \<Rightarrow> nat \<Rightarrow> fl list list \<Rightarrow> fl list \<Rightarrow> fl list" where
  "copy_rows cols i [] flat = flat"
| "copy_rows cols i (row # rows) flat = copy_rows cols (Suc i) rows (copy_at (i * cols) row flat)"

definition NewMatrix :: "u8 list list \<Rightarrow> matrixContainer outcome" where
  "NewMatrix matrixQuantized =
     (case matrixQuantized of
        [] \<Rightarrow> Panic ''matrix rows are empty''
      | first # _ \<Rightarrow>
          (let cols = int (length first) - 8
           in if cols \<le> 0 then Panic ''matrix columns are empty''
              else case DequantizeMatrix F64 matrixQuantized of
                Panic e \<Rightarrow> Panic e
              | Done matrix \<Rightarrow>
                  (let rows = length matrixQuantized;
                       flat = copy_rows (nat cols) 0 matrix (replicate (rows * nat cols) (Fin 0))
                   in Done \<lparr>m_data = flat, m_rows = rows, m_cols = nat cols\<rparr>)))"

section \<open>Cosine similarity\<close>

definition norm_of :: "fl list \<Rightarrow> fl" where
  "norm_of vec = fl_sqrt F64 (foldl (\<lambda>norm v. fl_add F64 norm (fl_mul F64 v v)) (Fin 0) vec)"

definition normalizeVector :: "fl list \<Rightarrow> fl list" where
  "normalizeVector vec =
     (let norm = norm_of vec in if fl_eq norm (Fin 0) then vec else map (\<lambda>v. fl_div F64 v norm) vec)"

definition row :: "nat \<Rightarrow> nat \<Rightarrow> fl list \<Rightarrow> fl list" where
  "row cols i data = take cols (drop (i * cols) data)"

text \<open>\<open>normalizeVector(B[i*cols : (i+1)*cols])\<close>, in place.\<close>

definition normalize_row :: "nat \<Rightarrow> nat \<Rightarrow> fl list \<Rightarrow> fl list" where
  "normalize_row cols i data =
     take (i * cols) data @ normalizeVector (row cols i data) @ drop ((i + 1) * cols) data"

definition normalize_rows :: "nat \<Rightarrow> nat \<Rightarrow> fl list \<Rightarrow> fl list" where
  "normalize_rows cols n data = foldl (\<lambda>d i. normalize_row cols i d) data [0..<n]"

fun dot_from :: "fl \<Rightarrow> fl list \<Rightarrow> fl list \<Rightarrow> fl" where
  "dot_from dot (x # xs) (y # ys) = dot_from (fl_add F64 dot (fl_mul F64 x y)) xs ys"
| "dot_from dot _ _ = dot"

definition dot :: "fl list \<Rightarrow> fl list \<Rightarrow> fl" where
  "dot xs ys = dot_from (Fin 0) xs ys"

text \<open>\<open>vectorContainer.MatrixCosineSimilarity\<close>; \<open>Fatalf\<close> ends the process.\<close>

definition VectorCosineSimilarity ::
    "vectorContainer \<Rightarrow> matrixContainer \<Rightarrow> (fl list \<times> vectorContainer \<times> matrixContainer) outcome" where
  "VectorCosineSimilarity vector matrix =
     (if v_cols vector \<noteq> m_cols matrix then Panic ''vector/matrix column size does not match''
      else let cols = v_cols vector; n = m_rows matrix;
               A = normalizeVector (v_data vector);
               B = normalize_rows cols n (m_data matrix);
               sims = map (\<lambda>i. fl_conv F32 (dot A (row cols i B))) [0..<n]
           in Done (sims, vector\<lparr>v_data := A\<rparr>, matrix\<lparr>m_data := B\<rparr>))"

text \<open>The best row of \<open>A\<close> for one row of \<open>B\<close>: strictly above -1 and strictly above the ones before.\<close>

fun best_from :: "fl \<Rightarrow> nat \<Rightarrow> nat \<Rightarrow> fl list \<Rightarrow> fl \<times> nat" where
  "best_from maxVal maxIdx j [] = (maxVal, maxIdx)"
| "best_from maxVal maxIdx j (d # ds) =
     (if fl_less maxVal d then best_from d j (Suc j) ds else best_from maxVal maxIdx (Suc j) ds)"

definition best :: "fl list \<Rightarrow> fl \<times> nat" where
  "best ds = best_from (Fin (-1)) 0 0 ds"

definition MatrixCosineSimilarity ::
    "matrixContainer \<Rightarrow> matrixContainer \<Rightarrow> ((fl list \<times> nat list) \<times> matrixContainer \<times> matrixContainer) outcome" where
  "MatrixCosineSimilarity matrix1 matrix2 =
     (if m_cols matrix1 \<noteq> m_cols matrix2 then Panic ''matrix/matrix column size does not match''
      else let cols = m_cols matrix1; m = m_rows matrix1; n = m_rows matrix2;
               A = normalize_rows cols m (m_data matrix1);
               B = normalize_rows cols n (m_data matrix2);
               found = map (\<lambda>i. best (map (\<lambda>j. dot (row cols j A) (row cols i B)) [0..<m])) [0..<n]
           in Done ((map (\<lambda>b. fl_conv F32 (fst b)) found, map snd found),
                    matrix1\<lparr>m_data := A\<rparr>, matrix2\<lparr>m_data := B\<rparr>))"

text \<open>
  The gonum build computes all products into a table \<open>C\<close> (BLAS, an argument here: one row of \<open>m\<close> products
  per data row), keeps all of them as similarities and starts from the first one.
\<close>

definition gonum_best :: "fl list \<Rightarrow> fl \<times> nat" where
  "gonum_best ds = best_from (hd ds) 0 0 ds"

definition gonum_extract :: "fl list list \<Rightarrow> fl list \<times> nat list" where
  "gonum_extract C = (map (fl_conv F32) (concat C), map (\<lambda>ds. snd (gonum_best ds)) C)"

section \<open>Rows\<close>

lemma length_normalizeVector [simp]: "length (normalizeVector v) = length v"
  by (simp add: normalizeVector_def Let_def)

lemma row_length: "(i + 1) * c \<le> length data \<Longrightarrow> length (row c i data) = c"
  by (simp add: row_def)

lemma length_normalize_row:
  "(j + 1) * c \<le> length data \<Longrightarrow> length (normalize_row c j data) = length data"
  by (simp add: normalize_row_def row_length)

lemma row_prefix: "a + c \<le> length xs \<Longrightarrow> take c (drop a (xs @ ys)) = take c (drop a xs)"
  by simp

lemma row_normalize_row:
  assumes "(j + 1) * c \<le> length data"
  shows "row c i (normalize_row c j data) = (if i = j then normalizeVector (row c j data) else row c i data)"
proof -
  have l: "length (normalizeVector (row c j data)) = c" using row_length [OF assms] by simp
  have t: "length (take (j * c) data) = j * c" using assms by simp
  consider "i < j" | "i = j" | "j < i" by linarith
  then show ?thesis
  proof cases
    case 1
    then have "(i + 1) * c \<le> j * c" by (intro mult_le_mono) simp_all
    then have "i * c + c \<le> j * c" by simp
    then have "i * c + c \<le> length (take (j * c) data)" "c \<le> j * c - i * c" using t by simp_all
    note le = this
    have "row c i (normalize_row c j data) = take c (drop (i * c) (take (j * c) data))"
      unfolding row_def [of c i] normalize_row_def using le(1) by (rule row_prefix)
    also have "\<dots> = row c i data" using le(2) by (simp add: row_def drop_take min_absorb1)
    finally show ?thesis using 1 by simp
  next
    case 2
    have "drop (j * c) (normalize_row c j data) = normalizeVector (row c j data) @ drop ((j + 1) * c) data"
      unfolding normalize_row_def using t by (metis append_eq_conv_conj)
    then show ?thesis using 2 l by (simp add: row_def [of c j "normalize_row c j data"])
  next
    case 3
    then have le: "(j + 1) * c \<le> i * c" by (intro mult_le_mono) simp_all
    have "drop (i * c) (normalize_row c j data) = drop (i * c - (j + 1) * c) (drop ((j + 1) * c) data)"
      using le t l 3 by (simp add: normalize_row_def)
    also have "\<dots> = drop (i * c) data" using le by simp
    finally show ?thesis using 3 by (simp add: row_def)
  qed
qed

lemma normalize_rows_upto:
  assumes "k \<le> n" and "length data = n * c"
  shows "length (foldl (\<lambda>d i. normalize_row c i d) data [0..<k]) = n * c
    \<and> (\<forall>i. row c i (foldl (\<lambda>d i. normalize_row c i d) data [0..<k]) =
         (if i < k then normalizeVector (row c i data) else row c i data))"
  using assms(1)
proof (induction k)
  case 0
  then show ?case using assms(2) by simp
next
  case (Suc k)
  let ?d = "foldl (\<lambda>d i. normalize_row c i d) data [0..<k]"
  have IH: "length ?d = n * c" "\<And>i. row c i ?d = (if i < k then normalizeVector (row c i data) else row c i data)"
    using Suc by simp_all
  have "(k + 1) * c \<le> length ?d" using Suc.prems IH(1) by (simp add: mult_le_mono del: mult_Suc)
  note step = length_normalize_row [OF this] row_normalize_row [OF this]
  have "foldl (\<lambda>d i. normalize_row c i d) data [0..<Suc k] = normalize_row c k ?d" by simp
  then show ?case using step IH by (simp add: less_Suc_eq)
qed

lemma normalize_rows_row:
  "length data = n * c \<Longrightarrow> i < n \<Longrightarrow> row c i (normalize_rows c n data) = normalizeVector (row c i data)"
  using normalize_rows_upto [of n n data c] by (simp add: normalize_rows_def)

lemma length_normalize_rows: "length data = n * c \<Longrightarrow> length (normalize_rows c n data) = n * c"
  using normalize_rows_upto [of n n data c] by (simp add: normalize_rows_def)

section \<open>Building a matrix\<close>

lemma copy_at_fit:
  "off + length r \<le> length flat \<Longrightarrow> copy_at off r flat = take off flat @ r @ drop (off + length r) flat"
  by (simp add: copy_at_def)

lemma length_copy_at [simp]: "off \<le> length flat \<Longrightarrow> length (copy_at off r flat) = length flat"
  by (simp add: copy_at_def Let_def min_def)

lemma copy_rows_equal:
  assumes "\<forall>r \<in> set rs. length r = c" and "length flat = (i + length rs) * c"
  shows "copy_rows c i rs flat = take (i * c) flat @ concat rs"
  using assms
proof (induction rs arbitrary: i flat)
  case Nil
  then show ?case by simp
next
  case (Cons r rs)
  have "copy_at (i * c) r flat = take (i * c) flat @ r @ drop (i * c + c) flat"
    using Cons.prems by (subst copy_at_fit) (simp_all add: algebra_simps)
  moreover have "length (copy_at (i * c) r flat) = (Suc i + length rs) * c"
    using Cons.prems by (simp add: algebra_simps)
  ultimately show ?case using Cons.prems Cons.IH [of "copy_at (i * c) r flat" "Suc i"]
    by (simp add: algebra_simps)
qed

lemma length_copy_rows [simp]:
  "(i + length rs) * c \<le> length flat \<Longrightarrow> length (copy_rows c i rs flat) = length flat"
proof (induction rs arbitrary: i flat)
  case (Cons r rs)
  have "i * c \<le> (i + length (r # rs)) * c" by (intro mult_le_mono) simp_all
  then have "length (copy_at (i * c) r flat) = length flat" using Cons.prems by simp
  then show ?case using Cons by (simp del: mult_Suc)
qed simp

lemma concat_rows:
  assumes "\<forall>r \<in> set rs. length r = c" and "i < length rs"
  shows "row c i (concat rs) = rs ! i"
  using assms
proof (induction rs arbitrary: i)
  case (Cons r rs)
  then show ?case by (cases i) (simp_all add: row_def add.commute)
qed simp

section \<open>The best row\<close>

lemma fl_less_trans: "fl_less x y \<Longrightarrow> fl_less y z \<Longrightarrow> fl_less x z"
  by (cases x; cases y; cases z) (auto simp: fl_less_def)

lemma fl_less_asym: "fl_less x y \<Longrightarrow> \<not> fl_less y x"
  by (cases x; cases y) (auto simp: fl_less_def)

lemma fl_not_less_trans: "\<not> fl_less m d \<Longrightarrow> d \<noteq> NaN \<Longrightarrow> fl_less m v \<Longrightarrow> fl_less d v"
  by (cases m; cases d; cases v) (auto simp: fl_less_def)

text \<open>The position \<open>n\<close> holds the largest element, and only smaller ones and NaNs come before it.\<close>

definition first_largest :: "fl list \<Rightarrow> nat \<Rightarrow> bool" where
  "first_largest ds n \<longleftrightarrow> n < length ds \<and> (\<forall>d \<in> set ds. \<not> fl_less (ds ! n) d)
     \<and> (\<forall>i < n. ds ! i = NaN \<or> fl_less (ds ! i) (ds ! n))"

lemma first_largest_Cons:
  assumes "first_largest ds n" and "\<not> fl_less (ds ! n) d" and "d = NaN \<or> fl_less d (ds ! n)"
  shows "first_largest (d # ds) (Suc n)"
  using assms by (auto simp: first_largest_def nth_Cons split: nat.splits)

lemma best_from_cases:
  assumes "best_from mv mi j ds = (v, k)"
  shows "(v = mv \<and> k = mi \<and> (\<forall>d \<in> set ds. \<not> fl_less mv d))
    \<or> (\<exists>n. k = j + n \<and> v = ds ! n \<and> fl_less mv v \<and> first_largest ds n)"
  using assms
proof (induction ds arbitrary: mv mi j)
  case Nil
  then show ?case by simp
next
  case (Cons d ds)
  show ?case
  proof (cases "fl_less mv d")
    case True
    then have "best_from d j (Suc j) ds = (v, k)" using Cons.prems by simp
    from Cons.IH [OF this] show ?thesis
    proof
      assume v: "v = d \<and> k = j \<and> (\<forall>x \<in> set ds. \<not> fl_less d x)"
      then have "first_largest (d # ds) 0" using fl_less_asym by (auto simp: first_largest_def)
      then show ?thesis using True v by (intro disjI2 exI [of _ 0]) simp
    next
      assume "\<exists>n. k = Suc j + n \<and> v = ds ! n \<and> fl_less d v \<and> first_largest ds n"
      then obtain n where n: "k = Suc j + n" "v = ds ! n" "fl_less d v" "first_largest ds n" by blast
      then have "fl_less mv v" "first_largest (d # ds) (Suc n)"
        using True fl_less_trans fl_less_asym first_largest_Cons by blast+
      then show ?thesis using n by (intro disjI2 exI [of _ "Suc n"]) simp
    qed
  next
    case False
    then have "best_from mv mi (Suc j) ds = (v, k)" using Cons.prems by simp
    from Cons.IH [OF this] show ?thesis
    proof
      assume "v = mv \<and> k = mi \<and> (\<forall>x \<in> set ds. \<not> fl_less mv x)"
      then show ?thesis using False by auto
    next
      assume "\<exists>n. k = Suc j + n \<and> v = ds ! n \<and> fl_less mv v \<and> first_largest ds n"
      then obtain n where n: "k = Suc j + n" "v = ds ! n" "fl_less mv v" "first_largest ds n" by blast
      then have "\<not> fl_less v d" "d = NaN \<or> fl_less d v"
        using False fl_less_trans fl_not_less_trans by blast+
      then have "first_largest (d # ds) (Suc n)" using n first_largest_Cons by blast
      then show ?thesis using n by (intro disjI2 exI [of _ "Suc n"]) simp
    qed
  qed
qed

lemma best_cases:
  "fl_less (Fin (-1)) (fst (best ds)) \<and> fst (best ds) = ds ! snd (best ds) \<and> first_largest ds (snd (best ds))
   \<or> (\<forall>d \<in> set ds. \<not> fl_less (Fin (-1)) d) \<and> best ds = (Fin (-1), 0)"
  using best_from_cases [of "Fin (-1)" 0 0 ds "fst (best ds)" "snd (best ds)"]
  by (auto simp: best_def prod_eq_iff)

lemma best_index: "ds \<noteq> [] \<Longrightarrow> snd (best ds) < length ds"
  using best_cases [of ds] by (auto simp: first_largest_def)

lemma first_largest_unique:
  assumes "first_largest ds m" and "first_largest ds n" and "ds ! m \<noteq> NaN" and "ds ! n \<noteq> NaN"
  shows "m = n"
proof (rule ccontr)
  assume "m \<noteq> n"
  then have "m < n \<or> n < m" by linarith
  then show False using assms by (auto simp: first_largest_def)
qed

section \<open>Properties\<close>

definition well_formed :: "matrixContainer \<Rightarrow> bool" where
  "well_formed m \<longleftrightarrow> length (m_data m) = m_rows m * m_cols m \<and> 0 < m_rows m \<and> 0 < m_cols m"

text \<open>The vector a stored embedding stands for.\<close>

definition vector_of :: "u8 list \<Rightarrow> fl list" where
  "vector_of bs = (case DequantizeVector F64 bs of Done xs \<Rightarrow> xs | Panic _ \<Rightarrow> [])"

lemma vector_of_Done: "8 \<le> length bs \<Longrightarrow> DequantizeVector F64 bs = Done (vector_of bs) \<and> length (vector_of bs) = length bs - 8"
  using DequantizeVector_long [of bs F64] by (auto simp: vector_of_def)

lemma DequantizeMatrix_Done:
  "\<forall>b \<in> set ms. 8 \<le> length b \<Longrightarrow> DequantizeMatrix F64 ms = Done (map vector_of ms)"
  by (induction ms) (simp_all add: vector_of_Done)

lemma DequantizeMatrix_DoneD:
  "DequantizeMatrix f ms = Done xs \<Longrightarrow> (\<forall>b \<in> set ms. 8 \<le> length b) \<and> length xs = length ms"
proof (induction ms arbitrary: xs)
  case (Cons m ms)
  then show ?case using DequantizeVector_short [of m f]
    by (cases "8 \<le> length m") (auto split: outcome.splits)
qed simp

lemma NewMatrix_Done:
  assumes "ms \<noteq> []" and "8 < length (hd ms)" and "\<forall>b \<in> set ms. 8 \<le> length b"
  shows "\<exists>m. NewMatrix ms = Done m"
  using assms DequantizeMatrix_Done [OF assms(3)]
  by (cases ms) (auto simp: NewMatrix_def Let_def simp del: DequantizeMatrix.simps)

lemma NewMatrix_rows:
  assumes "NewMatrix ms = Done m"
  shows "well_formed m \<and> m_rows m = length ms \<and> m_cols m = length (hd ms) - 8 \<and> (\<forall>b \<in> set ms. 8 \<le> length b)
    \<and> ((\<forall>b \<in> set ms. length b = length (hd ms)) \<longrightarrow>
         (\<forall>i < length ms. DequantizeVector F64 (ms ! i) = Done (row (m_cols m) i (m_data m))))"
proof -
  from assms obtain first rest where ms: "ms = first # rest" by (cases ms) (auto simp: NewMatrix_def)
  with assms obtain xs where xs: "DequantizeMatrix F64 ms = Done xs" and f: "8 < length first"
    by (auto simp: NewMatrix_def Let_def split: outcome.splits if_splits)
  note long = DequantizeMatrix_DoneD [OF xs]
  let ?c = "length first - 8"
  have "nat (int (length first) - 8) = ?c" by simp
  then have m: "m = \<lparr>m_data = copy_rows ?c 0 xs (replicate (length ms * ?c) (Fin 0)),
      m_rows = length ms, m_cols = ?c\<rparr>"
    using assms xs f by (auto simp: NewMatrix_def Let_def ms)
  have "xs = map vector_of ms" using xs DequantizeMatrix_Done [of ms] long by simp
  then have "DequantizeVector F64 (ms ! i) = Done (row ?c i (m_data m))"
    if eq: "\<forall>b \<in> set ms. length b = length (hd ms)" and i: "i < length ms" for i
  proof -
    have l: "\<forall>r \<in> set (map vector_of ms). length r = ?c" using eq long vector_of_Done by (auto simp: ms)
    have "m_data m = concat (map vector_of ms)"
      using copy_rows_equal [OF l, of "replicate (length ms * ?c) (Fin 0)" 0] \<open>xs = _\<close> by (simp add: m)
    then have "row ?c i (m_data m) = vector_of (ms ! i)" using concat_rows [OF l, of i] i by simp
    then show ?thesis using vector_of_Done [of "ms ! i"] long i by simp
  qed
  moreover have "length (m_data m) = m_rows m * m_cols m" using long by (simp add: m)
  moreover have "m_rows m = length ms" "m_cols m = ?c" "hd ms = first" by (simp_all add: m ms)
  moreover have "0 < length ms" by (simp add: ms)
  ultimately show ?thesis using f long by (simp add: well_formed_def)
qed

text \<open>
  Building a matrix from stored embeddings: it succeeds only on at least one row, a first row with a
  component and rows that all have their header; then it is well formed, one row per embedding, as wide as the
  first. When all embeddings have the same length, row \<open>i\<close> of the matrix is embedding \<open>i\<close> read back.
\<close>

theorem new_matrix_holds_rows:
  assumes "NewMatrix ms = Done m"
  shows "well_formed m \<and> m_rows m = length ms \<and> m_cols m = length (hd ms) - 8 \<and> (\<forall>b \<in> set ms. 8 \<le> length b)
    \<and> ((\<forall>b \<in> set ms. length b = length (hd ms)) \<longrightarrow>
         (\<forall>i < length ms. DequantizeVector F64 (ms ! i) = Done (row (m_cols m) i (m_data m))))"
  using assms by (rule NewMatrix_rows)

theorem new_matrix_holds_rows_witness:
  "\<exists>m. NewMatrix [replicate 9 0, replicate 9 1] = Done m \<and> m_rows m = 2 \<and> m_cols m = 1
    \<and> DequantizeVector F64 (replicate 9 1) = Done (row 1 1 (m_data m))"
proof -
  let ?ms = "[replicate 9 0, replicate 9 1] :: u8 list list"
  obtain m where m: "NewMatrix ?ms = Done m" using NewMatrix_Done [of ?ms] by auto
  note p = new_matrix_holds_rows [OF m]
  have "\<forall>b \<in> set ?ms. length b = length (hd ?ms)" "1 < length ?ms" "?ms ! 1 = replicate 9 1"
      "length (hd ?ms) - 8 = 1" "length ?ms = 2"
    by simp_all
  then show ?thesis using m p by metis
qed

definition products :: "matrixContainer \<Rightarrow> matrixContainer \<Rightarrow> nat \<Rightarrow> fl list" where
  "products m1 m2 i =
     map (\<lambda>j. dot (normalizeVector (row (m_cols m1) j (m_data m1))) (normalizeVector (row (m_cols m1) i (m_data m2))))
       [0..<m_rows m1]"

lemma MatrixCosine_eq:
  assumes "well_formed m1" and "well_formed m2" and "m_cols m1 = m_cols m2"
  shows "\<exists>m1' m2'. MatrixCosineSimilarity m1 m2 =
      Done ((map (\<lambda>i. fl_conv F32 (fst (best (products m1 m2 i)))) [0..<m_rows m2],
             map (\<lambda>i. snd (best (products m1 m2 i))) [0..<m_rows m2]), m1', m2')
    \<and> well_formed m1' \<and> well_formed m2'"
proof -
  let ?c = "m_cols m1" and ?m = "m_rows m1" and ?n = "m_rows m2"
  let ?A = "normalize_rows ?c ?m (m_data m1)" and ?B = "normalize_rows ?c ?n (m_data m2)"
  have l: "length (m_data m1) = ?m * ?c" "length (m_data m2) = ?n * ?c"
    using assms by (simp_all add: well_formed_def)
  have d: "map (\<lambda>j. dot (row ?c j ?A) (row ?c i ?B)) [0..<?m] = products m1 m2 i" if "i < ?n" for i
    using that by (simp add: products_def normalize_rows_row [OF l(1)] normalize_rows_row [OF l(2)])
  have "MatrixCosineSimilarity m1 m2 = Done ((map (\<lambda>i. fl_conv F32 (fst (best (products m1 m2 i)))) [0..<?n],
      map (\<lambda>i. snd (best (products m1 m2 i))) [0..<?n]), m1\<lparr>m_data := ?A\<rparr>, m2\<lparr>m_data := ?B\<rparr>)"
    using assms(3) d by (simp add: MatrixCosineSimilarity_def Let_def)
  moreover have "well_formed (m1\<lparr>m_data := ?A\<rparr>)" "well_formed (m2\<lparr>m_data := ?B\<rparr>)"
    using assms l by (simp_all add: well_formed_def length_normalize_rows)
  ultimately show ?thesis by blast
qed

lemma nearest_rows:
  assumes "well_formed m1" and "well_formed m2" and "m_cols m1 = m_cols m2"
  shows "\<exists>sims idx m1' m2'. MatrixCosineSimilarity m1 m2 = Done ((sims, idx), m1', m2')
    \<and> well_formed m1' \<and> well_formed m2' \<and> length sims = m_rows m2 \<and> length idx = m_rows m2
    \<and> (\<forall>i < m_rows m2. idx ! i < m_rows m1
        \<and> (first_largest (products m1 m2 i) (idx ! i) \<and> sims ! i = fl_conv F32 (products m1 m2 i ! (idx ! i))
           \<or> (\<forall>d \<in> set (products m1 m2 i). \<not> fl_less (Fin (-1)) d) \<and> idx ! i = 0 \<and> sims ! i = fl_conv F32 (Fin (-1))))"
proof -
  obtain m1' m2' where eq: "MatrixCosineSimilarity m1 m2 =
      Done ((map (\<lambda>i. fl_conv F32 (fst (best (products m1 m2 i)))) [0..<m_rows m2],
             map (\<lambda>i. snd (best (products m1 m2 i))) [0..<m_rows m2]), m1', m2')" "well_formed m1'" "well_formed m2'"
    using MatrixCosine_eq [OF assms] by blast
  have p: "products m1 m2 i \<noteq> []" "length (products m1 m2 i) = m_rows m1" for i
    using assms(1) by (simp_all add: products_def well_formed_def)
  have "snd (best (products m1 m2 i)) < m_rows m1" for i using best_index [OF p(1)] p(2) by simp
  moreover have "first_largest (products m1 m2 i) (snd (best (products m1 m2 i)))
        \<and> fl_conv F32 (fst (best (products m1 m2 i))) = fl_conv F32 (products m1 m2 i ! snd (best (products m1 m2 i)))
      \<or> (\<forall>d \<in> set (products m1 m2 i). \<not> fl_less (Fin (-1)) d) \<and> snd (best (products m1 m2 i)) = 0
        \<and> fl_conv F32 (fst (best (products m1 m2 i))) = fl_conv F32 (Fin (-1))" for i
    using best_cases [of "products m1 m2 i"] by (metis fst_conv snd_conv)
  ultimately show ?thesis using eq
    by (intro exI [of _ "map (\<lambda>i. fl_conv F32 (fst (best (products m1 m2 i)))) [0..<m_rows m2]"]
        exI [of _ "map (\<lambda>i. snd (best (products m1 m2 i))) [0..<m_rows m2]"] exI conjI) (assumption | simp)+
qed

text \<open>
  C10: The nearest row: comparing two matrices of the same width returns one similarity and one index per
  row of the second. The index points at the first largest product among all rows of the first matrix (NaNs set
  aside), whose rounding is the similarity; if no product exceeds -1 it is row 0 with similarity -1.
\<close>

theorem nearest_row:
  assumes "well_formed m1" and "well_formed m2" and "m_cols m1 = m_cols m2"
  shows "\<exists>sims idx m1' m2'. MatrixCosineSimilarity m1 m2 = Done ((sims, idx), m1', m2')
    \<and> well_formed m1' \<and> well_formed m2' \<and> length sims = m_rows m2 \<and> length idx = m_rows m2
    \<and> (\<forall>i < m_rows m2. idx ! i < m_rows m1
        \<and> (first_largest (products m1 m2 i) (idx ! i) \<and> sims ! i = fl_conv F32 (products m1 m2 i ! (idx ! i))
           \<or> (\<forall>d \<in> set (products m1 m2 i). \<not> fl_less (Fin (-1)) d) \<and> idx ! i = 0 \<and> sims ! i = fl_conv F32 (Fin (-1))))"
  using assms by (rule nearest_rows)

theorem nearest_row_witness:
  "\<exists>sims idx m1' m2'. MatrixCosineSimilarity
      \<lparr>m_data = [Fin 1, Fin 0, Fin 0, Fin 1], m_rows = 2, m_cols = 2\<rparr>
      \<lparr>m_data = [Fin 0, Fin 3], m_rows = 1, m_cols = 2\<rparr> = Done ((sims, idx), m1', m2')
    \<and> length idx = 1 \<and> idx ! 0 < 2"
proof -
  let ?a = "\<lparr>m_data = [Fin 1, Fin 0, Fin 0, Fin 1], m_rows = 2, m_cols = 2\<rparr>"
  let ?b = "\<lparr>m_data = [Fin 0, Fin 3], m_rows = 1, m_cols = 2\<rparr>"
  have "well_formed ?a" "well_formed ?b" "m_cols ?a = m_cols ?b" by (simp_all add: well_formed_def)
  from nearest_row [OF this] obtain sims idx m1' m2' where
    "MatrixCosineSimilarity ?a ?b = Done ((sims, idx), m1', m2')" "length idx = m_rows ?b"
    "\<forall>i < m_rows ?b. idx ! i < m_rows ?a" by blast
  then show ?thesis by (intro exI conjI) (assumption | simp)+
qed

definition similarity :: "u8 list \<Rightarrow> u8 list \<Rightarrow> fl" where
  "similarity q b = fl_conv F32 (dot (normalizeVector (vector_of q)) (normalizeVector (vector_of b)))"

lemma VectorCosine_eq:
  assumes "NewVector q = Done v" and "NewMatrix ms = Done m" and "\<forall>b \<in> set ms. length b = length q"
  shows "\<exists>v' m'. VectorCosineSimilarity v m = Done (map (similarity q) ms, v', m')"
proof -
  from assms(1) have q: "8 < length q" "v = \<lparr>v_data = vector_of q, v_cols = length q - 8\<rparr>"
    using vector_of_Done [of q] by (auto simp: NewVector_def Let_def split: if_splits outcome.splits)
  note p = NewMatrix_rows [OF assms(2)]
  have "length (hd ms) = length q" using p assms(3) by (auto simp: well_formed_def)
  then have c: "m_cols m = length q - 8" and
      r: "i < length ms \<Longrightarrow> DequantizeVector F64 (ms ! i) = Done (row (length q - 8) i (m_data m))" for i
    using p assms(3) by auto
  have row: "row (length q - 8) i (m_data m) = vector_of (ms ! i)" if "i < length ms" for i
    using r [OF that] by (simp add: vector_of_def)
  have l: "length (m_data m) = length ms * (length q - 8)" using p c by (simp add: well_formed_def)
  have "map (\<lambda>i. fl_conv F32 (dot (normalizeVector (vector_of q))
      (row (length q - 8) i (normalize_rows (length q - 8) (length ms) (m_data m))))) [0..<length ms]
    = map (\<lambda>i. similarity q (ms ! i)) [0..<length ms]"
    by (simp add: normalize_rows_row [OF l] row similarity_def)
  also have "\<dots> = map (similarity q) ms" by (rule nth_equalityI) simp_all
  finally show ?thesis using q c p by (simp add: VectorCosineSimilarity_def Let_def)
qed

text \<open>
  Searching: comparing a stored query with the matrix of stored embeddings of the same length yields one
  similarity per embedding, in order, and each depends on the query and that embedding alone: not on the
  other rows, nor on how the embeddings were split into matrices.
\<close>

theorem search_similarities:
  assumes "NewVector q = Done v" and "NewMatrix ms = Done m" and "\<forall>b \<in> set ms. length b = length q"
  shows "\<exists>v' m'. VectorCosineSimilarity v m = Done (map (similarity q) ms, v', m')"
  using assms by (rule VectorCosine_eq)

theorem search_similarities_witness:
  "\<exists>v m v' m'. NewVector (replicate 9 3) = Done v \<and> NewMatrix [replicate 9 0, replicate 9 1] = Done m
    \<and> VectorCosineSimilarity v m =
        Done ([similarity (replicate 9 3) (replicate 9 0), similarity (replicate 9 3) (replicate 9 1)], v', m')"
proof -
  let ?ms = "[replicate 9 0, replicate 9 1] :: u8 list list"
  obtain m where m: "NewMatrix ?ms = Done m" using NewMatrix_Done [of ?ms] by auto
  obtain v where v: "NewVector (replicate 9 3) = Done v"
    using vector_of_Done [of "replicate 9 3"] by (simp add: NewVector_def)
  have "\<forall>b \<in> set ?ms. length b = length (replicate 9 (3 :: u8))" by simp
  from search_similarities [OF v m this] show ?thesis using v m by auto
qed

lemma fl_less_not_NaN: "fl_less x y \<Longrightarrow> x \<noteq> NaN \<and> y \<noteq> NaN"
  by (auto simp: fl_less_def)

lemma gonum_best_eq:
  assumes "ds \<noteq> []" and "hd ds \<noteq> NaN" and "\<exists>d \<in> set ds. fl_less (Fin (-1)) d"
  shows "snd (gonum_best ds) = snd (best ds)"
proof -
  have "(fst (gonum_best ds) = hd ds \<and> snd (gonum_best ds) = 0 \<and> (\<forall>d \<in> set ds. \<not> fl_less (hd ds) d))
      \<or> (\<exists>n. snd (gonum_best ds) = n \<and> fst (gonum_best ds) = ds ! n \<and> fl_less (hd ds) (ds ! n) \<and> first_largest ds n)"
    using best_from_cases [of "hd ds" 0 0 ds "fst (gonum_best ds)" "snd (gonum_best ds)"]
    by (auto simp: gonum_best_def)
  then have "first_largest ds (snd (gonum_best ds)) \<and> ds ! snd (gonum_best ds) \<noteq> NaN"
    using assms(1,2) fl_less_not_NaN by (auto simp: first_largest_def hd_conv_nth)
  moreover have "first_largest ds (snd (best ds)) \<and> ds ! snd (best ds) \<noteq> NaN"
    using best_cases [of ds] assms(3) fl_less_not_NaN by metis
  ultimately show ?thesis by (blast intro: first_largest_unique)
qed

text \<open>
  The gonum build: where every row of products starts with a number and has one above -1, it finds
  the same nearest rows as the default build; but it returns every product as a similarity, and so as many
  similarities as there are pairs, not one per data row.
\<close>

theorem gonum_same_index:
  assumes "\<forall>ds \<in> set C. ds \<noteq> [] \<and> hd ds \<noteq> NaN \<and> (\<exists>d \<in> set ds. fl_less (Fin (-1)) d)"
  shows "snd (gonum_extract C) = map (\<lambda>ds. snd (best ds)) C
    \<and> length (fst (gonum_extract C)) = sum_list (map length C)"
  using assms gonum_best_eq by (simp add: gonum_extract_def length_concat)

theorem gonum_same_index_witness:
  "snd (gonum_extract [[Fin 0, Fin (1 / 2)]]) = [1] \<and> length (fst (gonum_extract [[Fin 0, Fin (1 / 2)]])) = 2"
  using gonum_same_index [of "[[Fin 0, Fin (1 / 2)]]"]
  by (simp add: fl_less_def best_def)

end
