(* ===== verification/Format.thy ===== *)
theory Format
  imports Decimal "HOL-Library.Multiset" "HOL-Library.List_Lexorder" "HOL-Library.Signed_Division"
begin

text \<open>
  \<open>server/format.go\<close>: an uploaded JSON value becomes text, one sentence per line, which is cut into sections
  that fit the context of the embedding model. A Go string decoded from JSON is valid UTF-8: it is the
  list of its code points, whose order is the byte order \<open>sort.Strings\<close> compares by.
\<close>

section \<open>Text\<close>

type_synonym gotext = "nat list"

definition runes :: "string \<Rightarrow> gotext" where
  "runes s = map of_char s"

abbreviation newline :: nat where
  "newline \<equiv> 10"

text \<open>\<open>unicode.IsSpace\<close>\<close>

definition go_space :: "nat \<Rightarrow> bool" where
  "go_space c \<longleftrightarrow> (9 \<le> c \<and> c \<le> 13) \<or> c = 32 \<or> c = 0x85 \<or> c = 0xA0 \<or> c = 0x1680 \<or> (0x2000 \<le> c \<and> c \<le> 0x200A)
     \<or> c = 0x2028 \<or> c = 0x2029 \<or> c = 0x202F \<or> c = 0x205F \<or> c = 0x3000"

definition TrimSpace :: "gotext \<Rightarrow> gotext" where
  "TrimSpace s = rev (dropWhile go_space (rev (dropWhile go_space s)))"

definition HasSuffix :: "gotext \<Rightarrow> gotext \<Rightarrow> bool" where
  "HasSuffix s suf \<longleftrightarrow> length suf \<le> length s \<and> drop (length s - length suf) s = suf"

definition TrimSuffix :: "gotext \<Rightarrow> gotext \<Rightarrow> gotext" where
  "TrimSuffix s suf = (if HasSuffix s suf then take (length s - length suf) s else s)"

text \<open>\<open>strings.Split(s, "\n")\<close> and the number of \<open>strings.Fields\<close>.\<close>

fun split_lines :: "gotext \<Rightarrow> gotext list" where
  "split_lines [] = [[]]"
| "split_lines (c # cs) =
     (if c = newline then [] # split_lines cs
      else case split_lines cs of [] \<Rightarrow> [[c]] | l # ls \<Rightarrow> (c # l) # ls)"

fun count_fields :: "bool \<Rightarrow> gotext \<Rightarrow> nat" where
  "count_fields inside [] = (if inside then 1 else 0)"
| "count_fields inside (c # cs) =
     (if go_space c then (if inside then 1 else 0) + count_fields False cs else count_fields True cs)"

definition numFields :: "gotext \<Rightarrow> nat" where
  "numFields s = count_fields False s"

text \<open>\<open>excessNewlineRegex\<close> replaced by one newline.\<close>

fun squeeze :: "gotext \<Rightarrow> gotext" where
  "squeeze (c # d # cs) = (if c = newline \<and> d = newline then squeeze (d # cs) else c # squeeze (d # cs))"
| "squeeze cs = cs"

section \<open>Flattening\<close>

text \<open>
  The dynamic types of a decoded JSON value; a map has distinct keys. \<open>Other\<close> is any other dynamic type, by
  what \<open>\<open>%v\<close>\<close> prints of it.
\<close>

datatype anyval = Nil_any | Str gotext | Float64 fl | Boolean bool | Slice "anyval list"
  | Map "(gotext \<times> anyval) list" | Other gotext

definition formatString :: "gotext \<Rightarrow> gotext" where
  "formatString value0 =
     (let value1 = filter (\<lambda>c. c \<noteq> 13) value0;
          value2 = squeeze value1;
          value3 = TrimSpace value2;
          value4 = TrimSuffix value3 [newline]
      in if \<not> HasSuffix value4 (runes ''.'') then value4 @ runes ''.'' else value4)"

definition flattenFloat :: "fl \<Rightarrow> gotext" where
  "flattenFloat value = runes (FormatFloat_f32 value)"

definition flattenBool :: "bool \<Rightarrow> gotext" where
  "flattenBool value = (if value then runes ''true.'' else runes ''false.'')"

fun flattenArray :: "gotext list \<Rightarrow> gotext" where
  "flattenArray [] = []"
| "flattenArray [item] = item"
| "flattenArray (item # items) = item @ [newline] @ flattenArray items"

text \<open>The lines of one key; \<open>last_key\<close> and an empty rest say whether the loops are at their ends.\<close>

fun map_lines :: "bool \<Rightarrow> gotext \<Rightarrow> gotext list \<Rightarrow> gotext" where
  "map_lines last_key key [] = []"
| "map_lines last_key key (value # list) =
     key @ runes '': '' @ value @ (if list \<noteq> [] \<and> \<not> last_key then [newline] else []) @ map_lines last_key key list"

fun map_keys :: "(gotext \<Rightarrow> gotext) \<Rightarrow> gotext list \<Rightarrow> gotext" where
  "map_keys get [] = []"
| "map_keys get (key # keys) = map_lines (keys = []) key (split_lines (get key)) @ map_keys get keys"

definition flattenMap :: "(gotext \<times> gotext) list \<Rightarrow> gotext" where
  "flattenMap data =
     (let keys = sort (remdups (map fst data))
      in map_keys (\<lambda>key. case map_of data key of Some v \<Rightarrow> v | None \<Rightarrow> []) keys)"

fun Flatten :: "anyval \<Rightarrow> gotext" where
  "Flatten Nil_any = runes ''null.''"
| "Flatten (Str value) = formatString value"
| "Flatten (Float64 value) = flattenFloat value"
| "Flatten (Boolean value) = flattenBool value"
| "Flatten (Slice data) = flattenArray (map Flatten data)"
| "Flatten (Map data) = flattenMap (map (\<lambda>(key, v). (key, Flatten v)) data)"
| "Flatten (Other printed) = printed"

section \<open>Splitting\<close>

text \<open>\<open>int\<close> has 64 bits: the product may wrap. Division truncates.\<close>

definition wrap64 :: "int \<Rightarrow> int" where
  "wrap64 n = (n + 2 ^ 63) mod 2 ^ 64 - 2 ^ 63"

definition max_words :: "int \<Rightarrow> int" where
  "max_words ctxNum = (wrap64 (ctxNum * 9) sdiv 10) sdiv 4"

fun split_loop :: "int \<Rightarrow> gotext \<Rightarrow> gotext list \<Rightarrow> gotext \<Rightarrow> int \<Rightarrow> gotext list \<Rightarrow> gotext list" where
  "split_loop maxWords pre list current currentNumWords [] = list @ [current]"
| "split_loop maxWords pre list current currentNumWords (sentence # sentences) =
     (let numWords = int (numFields sentence);
          (list, current, currentNumWords) =
            (if numWords + currentNumWords > maxWords \<and> current \<noteq> [] then (list @ [current], pre, 0)
             else (list, current, currentNumWords))
      in split_loop maxWords pre list (current @ runes '' '' @ sentence) (currentNumWords + numWords) sentences)"

definition Split :: "gotext \<Rightarrow> gotext \<Rightarrow> int \<Rightarrow> gotext list" where
  "Split pre t ctxNum = split_loop (max_words ctxNum) pre [] pre 0 (split_lines t)"

section \<open>Sections of whole sentences\<close>

text \<open>The prefix and a group of sentences, each after a space; the words of a group.\<close>

definition section_text :: "gotext \<Rightarrow> gotext list \<Rightarrow> gotext" where
  "section_text pre g = pre @ concat (map (\<lambda>s. runes '' '' @ s) g)"

definition words :: "gotext list \<Rightarrow> int" where
  "words g = sum_list (map (\<lambda>s. int (numFields s)) g)"

fun groups :: "int \<Rightarrow> gotext \<Rightarrow> gotext list \<Rightarrow> gotext list \<Rightarrow> gotext list list" where
  "groups mw pre g [] = [g]"
| "groups mw pre g (s # ss) =
     (if int (numFields s) + words g > mw \<and> section_text pre g \<noteq> [] then g # groups mw pre [s] ss
      else groups mw pre (g @ [s]) ss)"

lemma section_text_empty: "section_text pre g = [] \<longleftrightarrow> pre = [] \<and> g = []"
  by (cases g) (auto simp: section_text_def runes_def)

lemma words_simps [simp]: "words [] = 0" "words [s] = int (numFields s)" "words (g @ h) = words g + words h"
  by (simp_all add: words_def)

lemma words_Cons [simp]: "words (s # g) = int (numFields s) + words g"
  by (simp add: words_def)

lemma split_loop_groups:
  "split_loop mw pre list (section_text pre g) (words g) ss = list @ map (section_text pre) (groups mw pre g ss)"
proof (induction ss arbitrary: list g)
  case (Cons s ss)
  have one: "section_text pre [s] = pre @ runes '' '' @ s" "section_text pre (g @ [s]) = section_text pre g @ runes '' '' @ s"
    by (simp_all add: section_text_def)
  show ?case
    using Cons.IH [of "list @ [section_text pre g]" "[s]"] Cons.IH [of list "g @ [s]"] one
    by (simp add: Let_def add.commute)
qed simp

lemma groups_concat: "concat (groups mw pre g ss) = g @ ss"
  by (induction ss arbitrary: g) auto

lemma groups_not_Nil [simp]: "groups mw pre g ss \<noteq> []"
  by (induction ss arbitrary: g) auto

lemma groups_fit:
  "words g \<le> mw \<or> length g \<le> 1 \<Longrightarrow> \<forall>h \<in> set (groups mw pre g ss). words h \<le> mw \<or> length h \<le> 1"
proof (induction ss arbitrary: g)
  case (Cons s ss)
  have "words (g @ [s]) \<le> mw \<or> length (g @ [s]) \<le> 1"
    if "\<not> (int (numFields s) + words g > mw \<and> section_text pre g \<noteq> [])"
    using that by (auto simp: section_text_empty)
  then show ?case using Cons.prems Cons.IH [of "[s]"] Cons.IH [of "g @ [s]"] by auto
qed simp

lemma groups_hd: "\<exists>h. hd (groups mw pre g ss) = g @ h"
proof (induction ss arbitrary: g)
  case (Cons s ss)
  show ?case using Cons.IH [of "g @ [s]"] by auto
qed simp

lemma groups_tl: "\<forall>h \<in> set (tl (groups mw pre g ss)). h \<noteq> []"
proof (induction ss arbitrary: g)
  case (Cons s ss)
  have "\<forall>h \<in> set (groups mw pre [s] ss). h \<noteq> []"
    using Cons.IH [of "[s]"] groups_hd [of mw pre "[s]" ss]
    by (cases "groups mw pre [s] ss") auto
  then show ?case using Cons.IH [of "g @ [s]"] by simp
qed simp

lemma groups_hd_empty: "hd (groups mw pre [] (s # ss)) = [] \<longleftrightarrow> int (numFields s) > mw \<and> pre \<noteq> []"
  using groups_hd [of mw pre "[s]" ss] by (auto simp: section_text_empty)

lemma groups_full:
  "Suc i < length (groups mw pre g ss) \<Longrightarrow>
    words (groups mw pre g ss ! i) + int (numFields (hd (groups mw pre g ss ! Suc i))) > mw"
proof (induction ss arbitrary: g i)
  case (Cons s ss)
  show ?case
  proof (cases "int (numFields s) + words g > mw \<and> section_text pre g \<noteq> []")
    case True
    obtain h where "hd (groups mw pre [s] ss) = s # h" using groups_hd [of mw pre "[s]" ss] by auto
    then have "hd (groups mw pre [s] ss ! 0) = s" by (simp add: hd_conv_nth [symmetric])
    then show ?thesis using True Cons.prems Cons.IH [of _ "[s]"] by (cases i) simp_all
  next
    case False
    then have "groups mw pre g (s # ss) = groups mw pre (g @ [s]) ss" by (simp only: groups.simps if_False)
    then show ?thesis using Cons.IH [of i "g @ [s]"] Cons.prems by simp
  qed
qed simp

lemma split_lines_not_Nil [simp]: "split_lines t \<noteq> []"
  by (induction t) (auto split: list.splits)

section \<open>Properties\<close>

text \<open>
  C19: Splitting loses nothing and respects the limit: the sections are the prefix followed by consecutive
  groups of sentences that together are all sentences of the text in order; no group has more words than
  the limit unless it is a single sentence; a group is closed only when the next sentence does not fit. Only
  the first section can be without a sentence, exactly when there is a prefix and the first sentence
  alone is over the limit.
\<close>

theorem split_sections:
  "\<exists>gs. Split pre t ctxNum = map (section_text pre) gs \<and> concat gs = split_lines t \<and> gs \<noteq> []
    \<and> (\<forall>g \<in> set gs. words g \<le> max_words ctxNum \<or> length g \<le> 1)
    \<and> (\<forall>i. Suc i < length gs \<longrightarrow> words (gs ! i) + int (numFields (hd (gs ! Suc i))) > max_words ctxNum)
    \<and> (\<forall>g \<in> set (tl gs). g \<noteq> [])
    \<and> (hd gs = [] \<longleftrightarrow> pre \<noteq> [] \<and> int (numFields (hd (split_lines t))) > max_words ctxNum)"
proof -
  let ?gs = "groups (max_words ctxNum) pre [] (split_lines t)"
  obtain s ss where ss: "split_lines t = s # ss" by (cases "split_lines t") simp_all
  have "section_text pre [] = pre" by (simp add: section_text_def)
  then have "Split pre t ctxNum = map (section_text pre) ?gs"
    using split_loop_groups [of "max_words ctxNum" pre "[]" "[]" "split_lines t"] by (simp add: Split_def)
  moreover have "\<forall>g \<in> set ?gs. words g \<le> max_words ctxNum \<or> length g \<le> 1" by (rule groups_fit) simp
  moreover have "hd ?gs = [] \<longleftrightarrow> pre \<noteq> [] \<and> int (numFields (hd (split_lines t))) > max_words ctxNum"
    using groups_hd_empty [of "max_words ctxNum" pre s ss] by (auto simp: ss simp del: groups.simps)
  ultimately show ?thesis
    using groups_concat [of "max_words ctxNum" pre "[]" "split_lines t"] groups_full groups_tl
    by (intro exI [of _ ?gs]) auto
qed

theorem split_sections_witness:
  "\<exists>gs. Split (runes ''N. '') (runes ''a b c'') 10 = map (section_text (runes ''N. '')) gs
    \<and> concat gs = [runes ''a b c''] \<and> hd gs = []"
proof -
  have "split_lines (runes ''a b c'') = [runes ''a b c'']" by (simp add: runes_def)
  moreover have "numFields (runes ''a b c'') = 3" by (simp add: runes_def numFields_def go_space_def)
  moreover have "max_words 10 = 2" by code_simp
  moreover have "runes ''N. '' \<noteq> []" by (simp add: runes_def)
  ultimately show ?thesis using split_sections [of "runes ''N. ''" "runes ''a b c''" 10] by auto
qed

lemma squeeze_head: "\<exists>es. squeeze (d # cs) = d # es"
  by (induction cs arbitrary: d) auto

lemma squeeze_no_empty_line: "\<not> sublist [newline, newline] (squeeze cs)"
proof (induction cs rule: squeeze.induct)
  case (1 c d cs)
  then show ?case using squeeze_head [of d cs] by (auto simp: sublist_Cons_right)
qed (auto simp: sublist_Cons_right)

lemma squeeze_id: "\<not> sublist [newline, newline] cs \<Longrightarrow> squeeze cs = cs"
  by (induction cs rule: squeeze.induct) (auto simp: sublist_Cons_right)

lemma set_squeeze: "set (squeeze cs) \<subseteq> set cs"
  by (induction cs rule: squeeze.induct) auto

lemma HasSuffix_single: "HasSuffix s [c] \<longleftrightarrow> s \<noteq> [] \<and> last s = c"
  by (cases s rule: rev_cases) (auto simp: HasSuffix_def)

lemma TrimSpace_sublist: "sublist (TrimSpace x) x"
proof -
  let ?y = "dropWhile go_space x"
  have "?y = TrimSpace x @ rev (takeWhile go_space (rev ?y))"
    unfolding TrimSpace_def by (metis rev_append rev_rev_ident takeWhile_dropWhile_id)
  moreover have "x = takeWhile go_space x @ ?y" by simp
  ultimately show ?thesis unfolding sublist_def by metis
qed

lemma TrimSpace_ends:
  assumes "TrimSpace x \<noteq> []"
  shows "\<not> go_space (hd (TrimSpace x))" and "\<not> go_space (last (TrimSpace x))"
proof -
  let ?y = "dropWhile go_space x"
  have y: "?y = TrimSpace x @ rev (takeWhile go_space (rev ?y))"
    unfolding TrimSpace_def by (metis rev_append rev_rev_ident takeWhile_dropWhile_id)
  then have "?y \<noteq> []" "hd ?y = hd (TrimSpace x)" using assms by (metis append_is_Nil_conv, metis hd_append2)
  then show "\<not> go_space (hd (TrimSpace x))" using hd_dropWhile [of go_space x] by simp
  have "dropWhile go_space (rev ?y) \<noteq> []" using assms by (simp add: TrimSpace_def)
  then have "\<not> go_space (hd (dropWhile go_space (rev ?y)))" by (rule hd_dropWhile)
  then show "\<not> go_space (last (TrimSpace x))" by (simp add: TrimSpace_def last_rev)
qed

lemma TrimSpace_id:
  assumes "x \<noteq> []" and "\<not> go_space (hd x)" and "\<not> go_space (last x)"
  shows "TrimSpace x = x"
proof -
  have "dropWhile go_space x = x" using assms by (cases x) simp_all
  moreover have "dropWhile go_space (rev x) = rev x" using assms(1,3) by (cases x rule: rev_cases) simp_all
  ultimately show ?thesis by (simp add: TrimSpace_def)
qed

definition canonical :: "gotext \<Rightarrow> bool" where
  "canonical s \<longleftrightarrow> s \<noteq> [] \<and> last s = 46 \<and> \<not> go_space (hd s) \<and> 13 \<notin> set s \<and> \<not> sublist [newline, newline] s"

lemma full_stop: "runes ''.'' = [46]" "\<not> go_space 46" "go_space newline"
  by (simp_all add: runes_def go_space_def)

lemma no_empty_line_stop: "\<not> sublist [newline, newline] t \<Longrightarrow> \<not> sublist [newline, newline] (t @ [46])"
  by (auto simp: sublist_append suffix_def Cons_eq_append_conv sublist_Cons_right)

lemma formatString_eq:
  "formatString s = (let t = TrimSpace (squeeze (filter (\<lambda>c. c \<noteq> 13) s))
     in if t \<noteq> [] \<and> last t = 46 then t else t @ [46])"
proof -
  let ?t = "TrimSpace (squeeze (filter (\<lambda>c. c \<noteq> 13) s))"
  have "\<not> HasSuffix ?t [newline]" using TrimSpace_ends(2) full_stop(3) by (metis HasSuffix_single)
  then show ?thesis by (auto simp: formatString_def Let_def TrimSuffix_def full_stop HasSuffix_single)
qed

lemma canonical_formatString: "canonical (formatString s)"
proof -
  define x where "x = squeeze (filter (\<lambda>c. c \<noteq> 13) s)"
  define t where "t = TrimSpace x"
  have "13 \<notin> set x" unfolding x_def using set_squeeze by fastforce
  moreover have "\<not> sublist [newline, newline] x" unfolding x_def by (rule squeeze_no_empty_line)
  ultimately have t: "13 \<notin> set t" "\<not> sublist [newline, newline] t"
    using TrimSpace_sublist [of x] sublist_order.order_trans set_mono_sublist unfolding t_def by blast+
  have h: "t \<noteq> [] \<Longrightarrow> \<not> go_space (hd t)" using TrimSpace_ends(1) [of x] by (simp add: t_def)
  have "\<not> go_space (hd (t @ [46]))" using h full_stop(2) by (cases t) simp_all
  then have "canonical (t @ [46])" using t no_empty_line_stop by (simp add: canonical_def)
  moreover have "canonical t" if "t \<noteq> []" "last t = 46" using that t h by (simp add: canonical_def)
  moreover have "formatString s = t \<and> t \<noteq> [] \<and> last t = 46 \<or> formatString s = t @ [46]"
    unfolding formatString_eq Let_def t_def x_def by presburger
  ultimately show ?thesis by metis
qed

lemma formatString_canonical:
  assumes "canonical s"
  shows "formatString s = s"
proof -
  have f: "filter (\<lambda>c. c \<noteq> 13) s = s" using assms by (auto simp: canonical_def intro!: filter_True)
  have "squeeze s = s" using assms squeeze_id by (simp add: canonical_def)
  moreover have "TrimSpace s = s" using assms full_stop(2) by (auto simp: canonical_def intro: TrimSpace_id)
  ultimately show ?thesis using assms unfolding formatString_eq Let_def f by (simp add: canonical_def)
qed

text \<open>
  A formatted string is a sentence in canonical form: formatting it again changes nothing, it ends in a
  full stop, does not start with white space and has no carriage return and no empty line.
\<close>

theorem format_string_canonical:
  "canonical (formatString s) \<and> formatString (formatString s) = formatString s"
  using canonical_formatString formatString_canonical by blast

lemma split_lines_single: "newline \<notin> set t \<Longrightarrow> split_lines t = [t]"
  by (induction t) auto

lemma map_keys_single:
  "\<forall>key \<in> set keys. newline \<notin> set key \<and> newline \<notin> set (get key) \<Longrightarrow> newline \<notin> set (map_keys get keys)"
  by (induction keys) (auto simp: split_lines_single runes_def)

text \<open>
  The values of a map share one line: if no key and no flattened value has a line break then neither has
  the flattened map, however many keys it has; so splitting can only ever put the whole map into one section.
\<close>

theorem map_values_share_a_line:
  assumes "\<forall>(key, v) \<in> set kvs. newline \<notin> set key \<and> newline \<notin> set (Flatten v)"
  shows "newline \<notin> set (Flatten (Map kvs)) \<and> last (Split pre (Flatten (Map kvs)) ctxNum) = pre @ runes '' '' @ Flatten (Map kvs)"
proof -
  let ?data = "map (\<lambda>(key, v). (key, Flatten v)) kvs"
  have "newline \<notin> set key \<and> newline \<notin> set (case map_of ?data key of Some v \<Rightarrow> v | None \<Rightarrow> [])"
    if key: "key \<in> fst ` set ?data" for key
  proof -
    from key obtain w where w: "map_of ?data key = Some w"
      by (metis map_of_eq_None_iff not_None_eq)
    then have "(key, w) \<in> set ?data" by (rule map_of_SomeD)
    then show ?thesis using assms w by auto
  qed
  then have no: "newline \<notin> set (Flatten (Map kvs))"
    unfolding Flatten.simps flattenMap_def Let_def
    by (intro map_keys_single ballI) (simp only: set_sort set_remdups set_map not_False_eq_True simp_thms)
  then show ?thesis by (simp add: Split_def split_lines_single Let_def del: Flatten.simps)
qed

theorem map_values_share_a_line_witness:
  "newline \<notin> set (Flatten (Map [(runes ''a'', Boolean True), (runes ''b'', Nil_any)]))"
proof -
  have "\<forall>(key, v) \<in> set [(runes ''a'', Boolean True), (runes ''b'', Nil_any)].
      newline \<notin> set key \<and> newline \<notin> set (Flatten v)"
    by (simp add: runes_def flattenBool_def)
  from map_values_share_a_line [OF this] show ?thesis by blast
qed

text \<open>
  Flattening a map does not depend on the order in which its keys are enumerated, which Go leaves random.
\<close>

theorem flatten_map_order:
  assumes "distinct (map fst kvs)" and "mset kvs = mset kvs'"
  shows "Flatten (Map kvs) = Flatten (Map kvs')"
proof -
  let ?f = "map (\<lambda>(key, v). (key, Flatten v))"
  have s: "set kvs = set kvs'" using assms(2) by (metis set_mset_mset)
  have "mset (map fst kvs) = mset (map fst kvs')" using arg_cong [OF assms(2), of "image_mset fst"] by simp
  then have d: "distinct (map fst kvs')" using assms(1) by (metis mset_eq_imp_distinct_iff)
  have f: "map fst (?f xs) = map fst xs" for xs by (induction xs) auto
  have "map_of (?f kvs) = map_of (?f kvs')"
    using assms(1) d s by (intro map_of_inject_set [THEN iffD2]) (simp_all only: f set_map)
  moreover have "sort (remdups (map fst (?f kvs))) = sort (remdups (map fst (?f kvs')))"
    unfolding f using assms(1) d s
    by (intro sorted_distinct_set_unique) simp_all
  ultimately show ?thesis by (simp only: Flatten.simps flattenMap_def Let_def)
qed

theorem flatten_map_order_witness:
  "Flatten (Map [(runes ''b'', Nil_any), (runes ''a'', Boolean True)]) = Flatten (Map [(runes ''a'', Boolean True), (runes ''b'', Nil_any)])"
  by (rule flatten_map_order) (simp_all add: runes_def)

end
