(* ===== verification/Model.thy ===== *)
theory Model
  imports Format
begin

text \<open>
  \<open>database/model.go\<close> and \<open>config/constants.go\<close>: the rows of the five tables, the constants the
  components share, and \<open>math\<close>'s range of the machine integers. An identifier is a \<open>uint64\<close> that is only
  compared and printed. The pointers of a row to its parent and children are not
  loaded by any query of the source, so a row has its own columns; the column \<open>LastUpdated\<close> is
  written and never read.
\<close>

type_synonym id = nat

record Owner =
  owner_ID :: id
  owner_Name :: gotext

record Category =
  category_ID :: id
  category_Name :: gotext
  category_OwnerID :: id

record Centroid =
  centroid_ID :: id
  centroid_Vector :: "u8 list"
  centroid_CategoryID :: id

record Document =
  document_ID :: id
  document_Name :: gotext
  document_ExternalID :: gotext
  document_Document :: "anyval option" \<comment> \<open>\<open>None\<close> is an empty field\<close>
  document_CategoryID :: id

record Embedding =
  embedding_ID :: id
  embedding_Vector :: "u8 list"
  embedding_DocumentID :: id
  embedding_CentroidID :: id

section \<open>Constants\<close>

definition BATCH_SIZE_DATABASE :: nat where "BATCH_SIZE_DATABASE = 1000"
definition BATCH_SIZE_CACHE :: nat where "BATCH_SIZE_CACHE = 10000"
definition CENTROID_SIZE :: nat where "CENTROID_SIZE = 10000"
definition SAMPLE_SIZE :: nat where "SAMPLE_SIZE = 5 * BATCH_SIZE_CACHE"
definition SPLIT_SIZE :: nat where "SPLIT_SIZE = 5"
definition SUPERSET_MUL :: nat where "SUPERSET_MUL = 5"
definition KMEANS_ITTERATION_LIMIT :: nat where "KMEANS_ITTERATION_LIMIT = 1000"

text \<open>A point in time, in nanoseconds.\<close>

type_synonym time = int

definition second :: time where "second = 1000000000"
definition CACHE_DURATION :: time where "CACHE_DURATION = 5 * second"
definition CACHE_CLEANUP :: time where "CACHE_CLEANUP = 15 * second"

end
