(* ===== verification/Cache.thy ===== *)
theory Cache
  imports Model Machine
begin

text \<open>
  The package \<open>cache\<close>: owners, categories and centroids are kept five seconds under a string key.
  First the three fetch functions as one caller sees them, with the clock's readings as arguments and the
  caller's \<open>fetch\<close> as a function on the state of the world; then \<open>singleflight\<close> with several callers of one key,
  and the locks, as machines.
\<close>

section \<open>Keys\<close>

definition ownerKey :: "gotext \<Rightarrow> gotext" where
  "ownerKey name = name"

definition categoryKey :: "gotext \<Rightarrow> id \<Rightarrow> gotext" where
  "categoryKey name ownerID = runes (show_nat ownerID) @ runes '':'' @ name"

definition centroidsKey :: "id \<Rightarrow> gotext" where
  "centroidsKey categoryID = runes (show_nat categoryID)"

section \<open>Fetching\<close>

record 'v item =
  expiration :: time
  item_value :: 'v

type_synonym 'v table = "gotext \<rightharpoonup> 'v item"

record Cache =
  owner :: "Owner table"
  category :: "Category table"
  centroids :: "Centroid list table"

definition NewCache :: Cache where
  "NewCache = \<lparr>owner = Map.empty, category = Map.empty, centroids = Map.empty\<rparr>"

text \<open>
  The function every fetch passes to \<open>singleflight\<close>: \<open>now\<close> is the clock when the entry is checked,
  \<open>later\<close> when a new one is saved.
\<close>

definition lookup :: "gotext \<Rightarrow> time \<Rightarrow> 'v table \<Rightarrow> 'v option" where
  "lookup key now t =
     (case t key of
        Some cacheValue \<Rightarrow> if now < expiration cacheValue then Some (item_value cacheValue) else None
      | None \<Rightarrow> None)"

definition save :: "gotext \<Rightarrow> time \<Rightarrow> 'v \<Rightarrow> 'v table \<Rightarrow> 'v table" where
  "save key later v t = t(key \<mapsto> \<lparr>expiration = later + CACHE_DURATION, item_value = v\<rparr>)"

definition fetch_through ::
    "gotext \<Rightarrow> time \<Rightarrow> time \<Rightarrow> ('s \<Rightarrow> (error + 'v) \<times> 's) \<Rightarrow> 'v table \<Rightarrow> 's \<Rightarrow> (error + 'v) \<times> 'v table \<times> 's" where
  "fetch_through key now later fetch t s =
     (case lookup key now t of
        Some v \<Rightarrow> (Inr v, t, s)
      | None \<Rightarrow>
          (case fetch s of
             (Inl err, s') \<Rightarrow> (Inl err, t, s')
           | (Inr v, s') \<Rightarrow> (Inr v, save key later v t, s')))"

definition FetchOwner ::
    "gotext \<Rightarrow> time \<Rightarrow> time \<Rightarrow> ('s \<Rightarrow> (error + Owner) \<times> 's) \<Rightarrow> Cache \<Rightarrow> 's \<Rightarrow> (error + Owner) \<times> Cache \<times> 's" where
  "FetchOwner name now later fetch c s =
     (let (r, t, s') = fetch_through (ownerKey name) now later fetch (owner c) s in (r, c\<lparr>owner := t\<rparr>, s'))"

definition FetchCategory ::
    "gotext \<Rightarrow> id \<Rightarrow> time \<Rightarrow> time \<Rightarrow> ('s \<Rightarrow> (error + Category) \<times> 's) \<Rightarrow> Cache \<Rightarrow> 's \<Rightarrow> (error + Category) \<times> Cache \<times> 's" where
  "FetchCategory name ownerID now later fetch c s =
     (let (r, t, s') = fetch_through (categoryKey name ownerID) now later fetch (category c) s
      in (r, c\<lparr>category := t\<rparr>, s'))"

definition FetchCentroids ::
    "id \<Rightarrow> time \<Rightarrow> time \<Rightarrow> ('s \<Rightarrow> (error + Centroid list) \<times> 's) \<Rightarrow> Cache \<Rightarrow> 's \<Rightarrow> (error + Centroid list) \<times> Cache \<times> 's" where
  "FetchCentroids categoryID now later fetch c s =
     (let (r, t, s') = fetch_through (centroidsKey categoryID) now later fetch (centroids c) s
      in (r, c\<lparr>centroids := t\<rparr>, s'))"

text \<open>One tick of \<open>cleanupTask\<close>.\<close>

definition cleanup_table :: "time \<Rightarrow> 'v table \<Rightarrow> 'v table" where
  "cleanup_table now t = (\<lambda>key. case t key of Some it \<Rightarrow> if expiration it < now then None else Some it | None \<Rightarrow> None)"

definition cleanup :: "time \<Rightarrow> Cache \<Rightarrow> Cache" where
  "cleanup now c =
     c\<lparr>owner := cleanup_table now (owner c), category := cleanup_table now (category c),
       centroids := cleanup_table now (centroids c)\<rparr>"

section \<open>What a fetch returns\<close>

lemma runes_inject [simp]: "runes s = runes t \<longleftrightarrow> s = t"
  unfolding runes_def by (simp add: inj_map_eq_map inj_def)

lemma runes_append [simp]: "runes (s @ t) = runes s @ runes t"
  by (simp add: runes_def)

lemma lookup_save [simp]: "lookup key now (save key' later v t) =
    (if key = key' then if now < later + CACHE_DURATION then Some v else None else lookup key now t)"
  by (simp add: lookup_def save_def)

lemma lookup_cleanup: "now \<le> now' \<Longrightarrow> lookup key now' (cleanup_table now t) = lookup key now' t"
  by (auto simp: lookup_def cleanup_table_def split: option.splits)

lemma lookup_expires: "lookup key now t = Some v \<Longrightarrow> now' \<le> now \<Longrightarrow> lookup key now' t = Some v"
  by (auto simp: lookup_def split: option.splits if_splits)

text \<open>The first colon of a category key ends the number.\<close>

lemma split_at_first: "x \<notin> set a \<Longrightarrow> x \<notin> set b \<Longrightarrow> a @ x # r = b @ x # s \<Longrightarrow> a = b \<and> r = s"
proof (induction a arbitrary: b)
  case Nil
  then show ?case by (cases b) auto
next
  case (Cons y a)
  then show ?case by (cases b) auto
qed

lemma runes_in: "of_char c \<in> set (runes s) \<longleftrightarrow> c \<in> set s"
  by (auto simp: runes_def)

section \<open>A history of fetches\<close>

text \<open>
  One table under fetches of any keys and cleanup ticks, in the order the table sees them. A fetch event has the clock's
  two readings and what the database would answer; the state records what was saved and every answer
  given, with whether it came from the cache.
\<close>

record 'v history =
  entries :: "'v table"
  clock :: time
  saves :: "(gotext \<times> time \<times> 'v) list"
  answers :: "(gotext \<times> time \<times> (error + 'v) \<times> bool) list"

datatype 'v cache_event = Fetch gotext time time "error + 'v" | Tick time

definition history_init :: "'v history" where
  "history_init = \<lparr>entries = Map.empty, clock = 0, saves = [], answers = []\<rparr>"

fun cache_enabled :: "'v history \<Rightarrow> 'v cache_event \<Rightarrow> bool" where
  "cache_enabled h (Fetch key now later res) \<longleftrightarrow> clock h \<le> now \<and> now \<le> later"
| "cache_enabled h (Tick now) \<longleftrightarrow> clock h \<le> now"

fun cache_step :: "'v history \<Rightarrow> 'v cache_event \<Rightarrow> 'v history" where
  "cache_step h (Fetch key now later res) =
     (let (r, t, asked) = fetch_through key now later (\<lambda>_. (res, True)) (entries h) False
      in \<lparr>entries = t, clock = later,
          saves = saves h @ (case (asked, r) of (True, Inr v) \<Rightarrow> [(key, later, v)] | _ \<Rightarrow> []),
          answers = answers h @ [(key, now, r, \<not> asked)]\<rparr>)"
| "cache_step h (Tick now) = h\<lparr>entries := cleanup_table now (entries h), clock := now\<rparr>"

definition saved_before :: "'v history \<Rightarrow> gotext \<Rightarrow> time \<Rightarrow> 'v \<Rightarrow> bool" where
  "saved_before h key now v \<longleftrightarrow> (\<exists>t. (key, t, v) \<in> set (saves h) \<and> t \<le> now \<and> now < t + CACHE_DURATION)"

definition history_inv :: "'v history \<Rightarrow> bool" where
  "history_inv h \<longleftrightarrow>
     (\<forall>key it. entries h key = Some it \<longrightarrow>
        (key, expiration it - CACHE_DURATION, item_value it) \<in> set (saves h) \<and> expiration it - CACHE_DURATION \<le> clock h)
   \<and> (\<forall>(key, now, r, hit) \<in> set (answers h). hit \<longrightarrow> (\<exists>v. r = Inr v \<and> saved_before h key now v))
   \<and> (\<forall>(key, t, v) \<in> set (saves h). \<exists>now \<le> t. (key, now, Inr v, False) \<in> set (answers h))"

lemma saved_before_mono: "saved_before h key now v \<Longrightarrow> set (saves h) \<subseteq> set (saves h') \<Longrightarrow> saved_before h' key now v"
  by (auto simp: saved_before_def)

lemma history_inv_tick: "history_inv h \<Longrightarrow> clock h \<le> now \<Longrightarrow> history_inv (cache_step h (Tick now))"
  by (fastforce simp: history_inv_def cleanup_table_def saved_before_def split: option.splits if_splits)

lemma history_inv_fetch:
  assumes "history_inv h" and "clock h \<le> now" and "now \<le> later"
  shows "history_inv (cache_step h (Fetch key now later res))"
proof (cases "lookup key now (entries h)")
  case (Some v)
  then obtain it where it: "entries h key = Some it" "now < expiration it" "item_value it = v"
    by (auto simp: lookup_def split: option.splits if_splits)
  then have "(key, expiration it - CACHE_DURATION, v) \<in> set (saves h)" "expiration it - CACHE_DURATION \<le> clock h"
    using assms(1) by (auto simp: history_inv_def)
  then have "saved_before h key now v" unfolding saved_before_def
    using assms(2) it(2) by (intro exI [of _ "expiration it - CACHE_DURATION"]) simp
  then show ?thesis using assms Some by (fastforce simp: history_inv_def fetch_through_def saved_before_def)
next
  case None
  show ?thesis
  proof (cases res)
    case (Inl e)
    then show ?thesis using assms None by (fastforce simp: history_inv_def fetch_through_def saved_before_def)
  next
    case (Inr v)
    then show ?thesis using assms None
      by (fastforce simp: history_inv_def fetch_through_def saved_before_def save_def split: if_splits)
  qed
qed

lemma saves_origin:
  assumes "(key, t, v) \<notin> set (saves h)" and "(key, t, v) \<in> set (saves (cache_step h e))"
  shows "\<exists>asked. e = Fetch key asked t (Inr v) \<and> lookup key asked (entries h) = None"
  using assms by (cases e) (auto simp: fetch_through_def split: option.splits sum.splits)

interpretation cache_history: invariant cache_enabled cache_step history_init "\<lambda>_. True" history_inv
proof unfold_locales
  show "history_inv history_init" by (simp add: history_inv_def history_init_def)
  show "history_inv s \<Longrightarrow> cache_enabled s e \<Longrightarrow> True \<Longrightarrow> history_inv (cache_step s e)" for s :: "'a history" and e
    using history_inv_tick history_inv_fetch by (cases e) auto
qed

section \<open>Locks\<close>

text \<open>
  Who may be inside which table at a time: fetches read and write a table under that table's
  read-write lock, the cleanup task goes through the three tables in turn and takes, for each of them, the lock of the
  table of owners. A thread inside a table is between acquiring and releasing its lock.
\<close>

datatype table_name = Owners | Categories | Centroids

datatype access = Outside | Reading table_name | Writing table_name

datatype cleaner = Waiting "table_name list" | Cleaning table_name "table_name list"

record locks =
  fetchers :: "access list"
  cleaner :: cleaner

datatype lock_event = RLock nat table_name | Lock nat table_name | Release nat | Wake | CleanNext | CleanDone

definition cleaner_lock :: "table_name \<Rightarrow> table_name" where
  "cleaner_lock t = Owners"

definition cleaner_holds :: "locks \<Rightarrow> table_name \<Rightarrow> bool" where
  "cleaner_holds s t = (case cleaner s of Waiting ts \<Rightarrow> False | Cleaning x ts \<Rightarrow> t = cleaner_lock x)"

definition read_free :: "locks \<Rightarrow> table_name \<Rightarrow> bool" where
  "read_free s t \<longleftrightarrow> Writing t \<notin> set (fetchers s) \<and> \<not> cleaner_holds s t"

definition write_free :: "locks \<Rightarrow> table_name \<Rightarrow> bool" where
  "write_free s t \<longleftrightarrow> read_free s t \<and> Reading t \<notin> set (fetchers s)"

fun lock_enabled :: "locks \<Rightarrow> lock_event \<Rightarrow> bool" where
  "lock_enabled s (RLock i t) \<longleftrightarrow> i < length (fetchers s) \<and> fetchers s ! i = Outside \<and> read_free s t"
| "lock_enabled s (Lock i t) \<longleftrightarrow> i < length (fetchers s) \<and> fetchers s ! i = Outside \<and> write_free s t"
| "lock_enabled s (Release i) \<longleftrightarrow> i < length (fetchers s) \<and> fetchers s ! i \<noteq> Outside"
| "lock_enabled s Wake \<longleftrightarrow> cleaner s = Waiting []"
| "lock_enabled s CleanNext \<longleftrightarrow> (\<exists>t ts. cleaner s = Waiting (t # ts) \<and> write_free s (cleaner_lock t))"
| "lock_enabled s CleanDone \<longleftrightarrow> (\<exists>t ts. cleaner s = Cleaning t ts)"

fun lock_step :: "locks \<Rightarrow> lock_event \<Rightarrow> locks" where
  "lock_step s (RLock i t) = s\<lparr>fetchers := (fetchers s)[i := Reading t]\<rparr>"
| "lock_step s (Lock i t) = s\<lparr>fetchers := (fetchers s)[i := Writing t]\<rparr>"
| "lock_step s (Release i) = s\<lparr>fetchers := (fetchers s)[i := Outside]\<rparr>"
| "lock_step s Wake = s\<lparr>cleaner := Waiting [Owners, Categories, Centroids]\<rparr>"
| "lock_step s CleanNext =
     (case cleaner s of Waiting (t # ts) \<Rightarrow> s\<lparr>cleaner := Cleaning t ts\<rparr> | _ \<Rightarrow> s)"
| "lock_step s CleanDone = (case cleaner s of Cleaning t ts \<Rightarrow> s\<lparr>cleaner := Waiting ts\<rparr> | _ \<Rightarrow> s)"

definition lock_init :: "nat \<Rightarrow> locks" where
  "lock_init n = \<lparr>fetchers = replicate n Outside, cleaner = Waiting []\<rparr>"

text \<open>Two threads in one table of which one writes: Go's runtime ends the process when it notices.\<close>

definition race :: "locks \<Rightarrow> table_name \<Rightarrow> bool" where
  "race s t \<longleftrightarrow> (\<exists>ts. cleaner s = Cleaning t ts) \<and> (Reading t \<in> set (fetchers s) \<or> Writing t \<in> set (fetchers s))"

definition lock_inv :: "locks \<Rightarrow> bool" where
  "lock_inv s \<longleftrightarrow> (\<forall>t ts. cleaner s = Cleaning t ts \<longrightarrow>
     Reading Owners \<notin> set (fetchers s) \<and> Writing Owners \<notin> set (fetchers s))"

lemma set_update_not: "x \<notin> set xs \<Longrightarrow> y \<noteq> x \<Longrightarrow> x \<notin> set (xs[i := y])"
  using set_update_subset_insert by fastforce

interpretation cache_locks: invariant lock_enabled lock_step "lock_init n" "\<lambda>_. True" lock_inv for n
proof unfold_locales
  show "lock_inv (lock_init n)" by (simp add: lock_inv_def lock_init_def)
  show "lock_inv s \<Longrightarrow> lock_enabled s e \<Longrightarrow> True \<Longrightarrow> lock_inv (lock_step s e)" for s e
    by (cases e) (auto simp: lock_inv_def read_free_def write_free_def cleaner_holds_def cleaner_lock_def
        dest: set_update_not split: cleaner.splits list.splits)
qed

section \<open>Properties\<close>

text \<open>
  C28: Every answer the cache gives without asking the database was saved less than five seconds before by an earlier fetch of the same
  key that found no entry and got that value from the database, for any order of fetches of any keys, failing ones included, and cleanup
  ticks; an error is never answered from the cache. The time that counts is the one at which that fetch saved the value, its second reading of the clock.
\<close>

theorem cached_answers_fresh:
  assumes "run cache_enabled cache_step history_init es = Some h" and "(key, now, r, True) \<in> set (answers h)"
  shows "\<exists>v asked t es1 es2 h1. r = Inr v \<and> (key, t, v) \<in> set (saves h) \<and> t \<le> now \<and> now < t + CACHE_DURATION
    \<and> es = es1 @ Fetch key asked t (Inr v) # es2 \<and> asked \<le> t
    \<and> run cache_enabled cache_step history_init es1 = Some h1 \<and> lookup key asked (entries h1) = None"
proof -
  have inv: "history_inv h" using cache_history.run_inv [OF assms(1)] by (simp add: list_all_iff)
  then have "\<forall>(key, now, r, hit) \<in> set (answers h). hit \<longrightarrow> (\<exists>v. r = Inr v \<and> saved_before h key now v)"
    by (simp add: history_inv_def)
  with assms(2) obtain v where v: "r = Inr v" "saved_before h key now v" by fast
  then obtain t where t: "(key, t, v) \<in> set (saves h)" "t \<le> now" "now < t + CACHE_DURATION"
    unfolding saved_before_def by blast
  obtain es1 e es2 h1 where o: "es = es1 @ e # es2" "run cache_enabled cache_step history_init es1 = Some h1" "cache_enabled h1 e"
      "(key, t, v) \<notin> set (saves h1)" "(key, t, v) \<in> set (saves (cache_step h1 e))"
    using run_origin [where P = "\<lambda>h. (key, t, v) \<in> set (saves h)", OF assms(1) t(1)] by (auto simp: history_init_def)
  obtain asked where e: "e = Fetch key asked t (Inr v)" "lookup key asked (entries h1) = None"
    using saves_origin [OF o(4,5)] by blast
  then have "asked \<le> t" using o(3) by simp
  then show ?thesis using v(1) t o(1,2) e by blast
qed

definition example_fetches :: "nat cache_event list" where
  "example_fetches = [Fetch [1] 10 20 (Inl [RecordNotFound]), Fetch [1] 30 40 (Inr 7), Tick 50, Fetch [1] 60 60 (Inr 8)]"

lemma example_history:
  "\<exists>h. run cache_enabled cache_step history_init example_fetches = Some h \<and> ([1], 60, Inr 7, True) \<in> set (answers h)"
proof -
  have "case run cache_enabled cache_step history_init example_fetches of
      Some h \<Rightarrow> ([1], 60, Inr 7, True) \<in> set (answers h) | None \<Rightarrow> False"
    by code_simp
  then show ?thesis by (auto split: option.splits)
qed

theorem cached_answers_fresh_witness:
  "\<exists>h t v asked es1 es2. run cache_enabled cache_step history_init example_fetches = Some h
    \<and> ([1], 60, Inr 7, True) \<in> set (answers h) \<and> ([1], t, 7) \<in> set (saves h) \<and> t \<le> 60 \<and> 60 < t + CACHE_DURATION
    \<and> example_fetches = es1 @ Fetch [1] asked t (Inr v) # es2 \<and> v = 7"
proof -
  obtain h where h: "run cache_enabled cache_step history_init example_fetches = Some h"
      "([1], 60, Inr 7, True) \<in> set (answers h)" using example_history by blast
  from cached_answers_fresh [OF this] show ?thesis using h by auto
qed

text \<open>
  Different categories, and different owners' categories of one name, never share a cache entry: the keys
  are equal only for the same owner and name, even when the name contains digits and colons.
\<close>

theorem category_keys_distinct:
  "categoryKey name o1 = categoryKey name' o2 \<longleftrightarrow> name = name' \<and> o1 = o2"
proof
  assume eq: "categoryKey name o1 = categoryKey name' o2"
  have colon: "(58 :: nat) \<notin> set (runes (show_nat n))" for n
    using runes_in [of "CHR '':''" "show_nat n"] show_nat_no_colon by simp
  have "runes (show_nat o1) @ 58 # name = runes (show_nat o2) @ 58 # name'"
    using eq by (simp add: categoryKey_def) (simp add: runes_def)
  from split_at_first [OF colon colon this] show "name = name' \<and> o1 = o2" by simp
qed simp

lemma fetch_through_cleanup:
  assumes "now \<le> now'"
  shows "fst (fetch_through key now' later fetch (cleanup_table now t) s) = fst (fetch_through key now' later fetch t s)
    \<and> snd (snd (fetch_through key now' later fetch (cleanup_table now t) s)) = snd (snd (fetch_through key now' later fetch t s))"
  by (simp add: fetch_through_def lookup_cleanup [OF assms] split: option.splits sum.splits prod.splits)

text \<open>
  C33: The cleanup task is invisible to the fetches: at any later time a fetch after a cleanup returns the same
  answer and does the same to the database as one without it.
\<close>

theorem cleanup_is_invisible:
  assumes "now \<le> now'"
  shows "fst (FetchOwner name now' later f (cleanup now c) s) = fst (FetchOwner name now' later f c s)
    \<and> snd (snd (FetchOwner name now' later f (cleanup now c) s)) = snd (snd (FetchOwner name now' later f c s))
    \<and> fst (FetchCategory name oid now' later g (cleanup now c) s) = fst (FetchCategory name oid now' later g c s)
    \<and> snd (snd (FetchCategory name oid now' later g (cleanup now c) s)) = snd (snd (FetchCategory name oid now' later g c s))
    \<and> fst (FetchCentroids cid now' later h (cleanup now c) s) = fst (FetchCentroids cid now' later h c s)
    \<and> snd (snd (FetchCentroids cid now' later h (cleanup now c) s)) = snd (snd (FetchCentroids cid now' later h c s))"
  by (simp add: fetch_through_cleanup [OF assms, THEN conjunct1] fetch_through_cleanup [OF assms, THEN conjunct2] FetchOwner_def FetchCategory_def FetchCentroids_def cleanup_def case_prod_beta Let_def)

definition two_owners :: Cache where
  "two_owners = NewCache\<lparr>owner := [[1] \<mapsto> \<lparr>expiration = 4, item_value = \<lparr>owner_ID = 1, owner_Name = [1]\<rparr>\<rparr>,
     [2] \<mapsto> \<lparr>expiration = 20, item_value = \<lparr>owner_ID = 2, owner_Name = [2]\<rparr>\<rparr>]\<rparr>"

text \<open>The first of two entries has expired and is removed; the second still answers.\<close>

theorem cleanup_is_invisible_witness:
  "owner (cleanup 5 two_owners) [1] = None \<and> owner two_owners [1] \<noteq> None
    \<and> fst (FetchOwner [2] 9 9 (\<lambda>u. (Inl [RecordNotFound], u)) (cleanup 5 two_owners) ()) = Inr \<lparr>owner_ID = 2, owner_Name = [2]\<rparr>
    \<and> fst (FetchOwner [1] 9 9 (\<lambda>u. (Inl [RecordNotFound], u)) (cleanup 5 two_owners) ())
      = fst (FetchOwner [1] 9 9 (\<lambda>u. (Inl [RecordNotFound], u)) two_owners ())"
proof -
  have t: "(5 :: time) \<le> 9" by simp
  have "fst (FetchOwner [2] 9 9 (\<lambda>u. (Inl [RecordNotFound], u)) two_owners ()) = Inr \<lparr>owner_ID = 2, owner_Name = [2]\<rparr>"
    by (simp add: FetchOwner_def fetch_through_def lookup_def two_owners_def ownerKey_def)
  moreover have "owner (cleanup 5 two_owners) [1] = None" "owner two_owners [1] \<noteq> None"
    by (simp_all add: cleanup_def cleanup_table_def two_owners_def)
  ultimately show ?thesis
    using cleanup_is_invisible [OF t, THEN conjunct1, of "[2]" 9 "\<lambda>u. (Inl [RecordNotFound], u)" two_owners "()"]
      cleanup_is_invisible [OF t, THEN conjunct1, of "[1]" 9 "\<lambda>u. (Inl [RecordNotFound], u)" two_owners "()"]
    by simp
qed

text \<open>
  The locks keep the cleanup task and the fetches apart in the table of owners: in no reachable state is
  the cleanup inside that table while a fetch reads or writes it.
\<close>

theorem owner_table_exclusive:
  assumes "run lock_enabled lock_step (lock_init n) es = Some s"
  shows "\<not> race s Owners"
  using cache_locks.run_inv [OF assms] by (auto simp: race_def lock_inv_def list_all_iff)

definition example_locks :: "lock_event list" where
  "example_locks = [Wake, Lock 0 Owners, Release 0, CleanNext]"

theorem owner_table_exclusive_witness:
  "\<exists>s. run lock_enabled lock_step (lock_init 2) example_locks = Some s \<and> \<not> race s Owners"
proof -
  have "\<exists>s. run lock_enabled lock_step (lock_init 2) example_locks = Some s"
    by (simp add: example_locks_def lock_init_def write_free_def read_free_def cleaner_holds_def cleaner_lock_def
        numeral_2_eq_2)
  then show ?thesis using owner_table_exclusive by blast
qed

text \<open>
  C32: The locks do not keep them apart in the other two tables: the cleanup holds the owners' lock there, so a state is
  reachable in which it deletes from the table of categories while a fetch writes it under the categories' own lock,
  and likewise for centroids.
\<close>

theorem category_table_race:
  "(\<exists>es s. run lock_enabled lock_step (lock_init 1) es = Some s \<and> race s Categories \<and> Writing Categories \<in> set (fetchers s))
   \<and> (\<exists>es s. run lock_enabled lock_step (lock_init 1) es = Some s \<and> race s Centroids \<and> Writing Centroids \<in> set (fetchers s))"
proof
  show "\<exists>es s. run lock_enabled lock_step (lock_init 1) es = Some s \<and> race s Categories \<and> Writing Categories \<in> set (fetchers s)"
    by (intro exI [of _ "[Wake, CleanNext, CleanDone, CleanNext, Lock 0 Categories]"])
      (simp add: lock_init_def write_free_def read_free_def cleaner_holds_def cleaner_lock_def race_def)
  show "\<exists>es s. run lock_enabled lock_step (lock_init 1) es = Some s \<and> race s Centroids \<and> Writing Centroids \<in> set (fetchers s)"
    by (intro exI [of _ "[Wake, CleanNext, CleanDone, CleanNext, CleanDone, CleanNext, Lock 0 Centroids]"])
      (simp add: lock_init_def write_free_def read_free_def cleaner_holds_def cleaner_lock_def race_def)
qed

end
