(* ===== verification/GoSort.thy ===== *)
theory GoSort
  imports Floats "HOL-Library.Multiset"
begin

text \<open>
  \<open>slices.SortFunc\<close>: for a comparison that is a total preorder the result is a permutation in ascending order;
  elements that compare equal may come in any order. The algorithm is Go's business, so the sort is an argument of the
  components that use it and these laws are their interface; Go's insertion sort, which it uses for short lists, obeys them.
\<close>

section \<open>The interface\<close>

definition go_ordering :: "('a \<Rightarrow> 'a \<Rightarrow> int) \<Rightarrow> bool" where
  "go_ordering cmp \<longleftrightarrow> (\<forall>a b. cmp a b < 0 \<longleftrightarrow> 0 < cmp b a) \<and> (\<forall>a b c. cmp a b \<le> 0 \<longrightarrow> cmp b c \<le> 0 \<longrightarrow> cmp a c \<le> 0)"

definition sorting :: "(('a \<Rightarrow> 'a \<Rightarrow> int) \<Rightarrow> 'a list \<Rightarrow> 'a list) \<Rightarrow> bool" where
  "sorting S \<longleftrightarrow> (\<forall>cmp xs. go_ordering cmp \<longrightarrow>
     mset (S cmp xs) = mset xs \<and> sorted_wrt (\<lambda>a b. cmp a b \<le> 0) (S cmp xs))"

locale sort_func =
  fixes SortFunc :: "('a \<Rightarrow> 'a \<Rightarrow> int) \<Rightarrow> 'a list \<Rightarrow> 'a list"
  assumes sorting: "sorting SortFunc"
begin

lemma mset_sort: "go_ordering cmp \<Longrightarrow> mset (SortFunc cmp xs) = mset xs"
  using sorting by (simp add: sorting_def)

lemma sorted_sort: "go_ordering cmp \<Longrightarrow> sorted_wrt (\<lambda>a b. cmp a b \<le> 0) (SortFunc cmp xs)"
  using sorting by (simp add: sorting_def)

lemma set_sort: "go_ordering cmp \<Longrightarrow> set (SortFunc cmp xs) = set xs"
  using mset_sort by (metis set_mset_mset)

lemma length_sort: "go_ordering cmp \<Longrightarrow> length (SortFunc cmp xs) = length xs"
  using mset_sort by (metis size_mset)

text \<open>What is cut off is not before what is kept.\<close>

lemma take_sort_le:
  assumes "go_ordering cmp" and "x \<in> set (take k (SortFunc cmp xs))" and "y \<in> set (drop k (SortFunc cmp xs))"
  shows "cmp x y \<le> 0"
  using sorted_sort [OF assms(1), of xs] assms(2,3)
  by (metis append_take_drop_id sorted_wrt_append)

end

section \<open>Insertion sort\<close>

text \<open>The sorted part is kept in reverse; a new element moves left while it is smaller.\<close>

fun move_left :: "('a \<Rightarrow> 'a \<Rightarrow> int) \<Rightarrow> 'a \<Rightarrow> 'a list \<Rightarrow> 'a list" where
  "move_left cmp x [] = [x]"
| "move_left cmp x (y # ys) = (if cmp x y < 0 then y # move_left cmp x ys else x # y # ys)"

definition insertionSort :: "('a \<Rightarrow> 'a \<Rightarrow> int) \<Rightarrow> 'a list \<Rightarrow> 'a list" where
  "insertionSort cmp xs = rev (foldl (\<lambda>acc x. move_left cmp x acc) [] xs)"

lemma go_ordering_total: "go_ordering cmp \<Longrightarrow> \<not> cmp x y < 0 \<longleftrightarrow> cmp y x \<le> 0"
  unfolding go_ordering_def by (metis linorder_not_less)

lemma go_ordering_trans: "go_ordering cmp \<Longrightarrow> cmp a b \<le> 0 \<Longrightarrow> cmp b c \<le> 0 \<Longrightarrow> cmp a c \<le> 0"
  unfolding go_ordering_def by blast

lemma mset_move_left [simp]: "mset (move_left cmp x ys) = add_mset x (mset ys)"
  by (induction ys) auto

lemma sorted_move_left:
  assumes "go_ordering cmp" and "sorted_wrt (\<lambda>a b. cmp b a \<le> 0) ys"
  shows "sorted_wrt (\<lambda>a b. cmp b a \<le> 0) (move_left cmp x ys)"
  using assms(2)
proof (induction ys)
  case (Cons y ys)
  have s: "set (move_left cmp x ys) = insert x (set ys)" using mset_move_left [of cmp x ys] by (metis set_mset_add_mset_insert set_mset_mset)
  show ?case
  proof (cases "cmp x y < 0")
    case True
    then show ?thesis using Cons s by auto
  next
    case False
    then have "cmp y x \<le> 0" using go_ordering_total [OF assms(1)] by blast
    then show ?thesis using Cons.prems False go_ordering_trans [OF assms(1)] by auto
  qed
qed simp

lemma insertion_fold:
  "go_ordering cmp \<Longrightarrow> sorted_wrt (\<lambda>a b. cmp b a \<le> 0) acc \<Longrightarrow>
    mset (foldl (\<lambda>acc x. move_left cmp x acc) acc xs) = mset acc + mset xs
    \<and> sorted_wrt (\<lambda>a b. cmp b a \<le> 0) (foldl (\<lambda>acc x. move_left cmp x acc) acc xs)"
  by (induction xs arbitrary: acc) (simp_all add: sorted_move_left)

lemma insertionSort_sorting: "sorting insertionSort"
  unfolding sorting_def
proof (intro allI impI)
  fix cmp :: "'a \<Rightarrow> 'a \<Rightarrow> int" and xs
  assume "go_ordering cmp"
  from insertion_fold [OF this, of "[]" xs]
  show "mset (insertionSort cmp xs) = mset xs \<and> sorted_wrt (\<lambda>a b. cmp a b \<le> 0) (insertionSort cmp xs)"
    by (simp add: insertionSort_def sorted_wrt_rev)
qed

interpretation insertion: sort_func insertionSort
  by unfold_locales (rule insertionSort_sorting)

section \<open>Descending floats\<close>

text \<open>\<open>cmp.Compare(b.similarity, a.similarity)\<close>: descending, NaN last.\<close>

definition desc :: "('a \<Rightarrow> fl) \<Rightarrow> 'a \<Rightarrow> 'a \<Rightarrow> int" where
  "desc sim a b = cmp_Compare (sim b) (sim a)"

lemma cmp_Compare_swap: "cmp_Compare x y < 0 \<longleftrightarrow> 0 < cmp_Compare y x"
  by (cases x; cases y) (auto simp: cmp_Compare_def fl_less_def)

lemma desc_le: "desc sim a b \<le> 0 \<longleftrightarrow> rank_le (sim b) (sim a)"
  by (simp add: desc_def cmp_Compare_rank)

lemma go_ordering_desc: "go_ordering (desc sim)"
  unfolding go_ordering_def desc_le using cmp_Compare_swap rank_le_trans by (auto simp: desc_def)

end
