(* ===== verification/Sampling.thy ===== *)
theory Sampling
  imports Model "HOL-Library.Multiset"
begin

text \<open>
  \<open>dnc/sampling.go\<close> and \<open>dnc/dataset.go\<close>: vectors are written to a cache file, row after row, and read back in
  order; a sample of the rows is drawn by shuffling the first indices and reading the file once. What
  \<open>random.Intn\<close> returned is an argument, in the order of the calls.
\<close>

section \<open>Cache files\<close>

record createDataset =
  c_vectorsize :: nat
  c_bytes :: "u8 list" \<comment> \<open>written to the file or its buffer\<close>
  c_total :: nat

definition newDataset :: "nat \<Rightarrow> createDataset" where
  "newDataset vectorSize = \<lparr>c_vectorsize = vectorSize, c_bytes = [], c_total = 0\<rparr>"

definition WriteRow :: "u8 list \<Rightarrow> createDataset \<Rightarrow> createDataset" where
  "WriteRow r c = c\<lparr>c_bytes := c_bytes c @ r, c_total := c_total c + 1\<rparr>"

record dataset =
  d_vectorsize :: nat
  d_file :: "u8 list"
  d_rest :: "u8 list option" \<comment> \<open>what the reader has left; \<open>None\<close> without a reader\<close>
  d_total :: nat

text \<open>\<open>Finalize\<close> up to the closure it returns: the file is complete, no reader yet.\<close>

definition Finalize :: "createDataset \<Rightarrow> dataset" where
  "Finalize c = \<lparr>d_vectorsize = c_vectorsize c, d_file = c_bytes c, d_rest = None, d_total = c_total c\<rparr>"

definition Reset :: "dataset \<Rightarrow> dataset" where
  "Reset d = d\<lparr>d_rest := Some (d_file d)\<rparr>"

text \<open>
  \<open>ReadRow\<close> returns nil at the end of the file; a row cut short by the end, or a missing reader, ends the process.
\<close>

definition ReadRow :: "dataset \<Rightarrow> (u8 list option \<times> dataset) outcome" where
  "ReadRow d =
     (case d_rest d of
        None \<Rightarrow> Panic ''File is not open for decoder''
      | Some rest \<Rightarrow>
          (let n = 8 + d_vectorsize d
           in if rest = [] then Done (None, d)
              else if length rest < n then Panic ''Failed to read row from decoder''
              else Done (Some (take n rest), d\<lparr>d_rest := Some (drop n rest)\<rparr>)))"

text \<open>Reading row after row until nil, as the split does.\<close>

function read_rows :: "nat \<Rightarrow> u8 list \<Rightarrow> u8 list list outcome" where
  "read_rows vectorsize rest =
     (case ReadRow \<lparr>d_vectorsize = vectorsize, d_file = [], d_rest = Some rest, d_total = 0\<rparr> of
        Panic e \<Rightarrow> Panic e
      | Done (None, d) \<Rightarrow> Done []
      | Done (Some r, d) \<Rightarrow>
          (case read_rows vectorsize (drop (8 + vectorsize) rest) of Panic e \<Rightarrow> Panic e | Done rs \<Rightarrow> Done (r # rs)))"
  by pat_completeness auto
termination
  by (relation "measure (\<lambda>(v, rest). length rest)") (auto simp: ReadRow_def Let_def split: if_splits)

declare read_rows.simps [simp del]

section \<open>Sampling\<close>

definition swap :: "nat \<Rightarrow> nat \<Rightarrow> 'a list \<Rightarrow> 'a list" where
  "swap i j xs = xs[i := xs ! j, j := xs ! i]"

fun partial_shuffle :: "nat \<Rightarrow> nat list \<Rightarrow> nat list \<Rightarrow> nat list" where
  "partial_shuffle i [] numbers = numbers"
| "partial_shuffle i (r # rs) numbers = partial_shuffle (Suc i) rs (swap i (i + r) numbers)"

definition generateUniqueRandom :: "nat list \<Rightarrow> nat \<Rightarrow> nat \<Rightarrow> nat list" where
  "generateUniqueRandom rs n cnt = take cnt (partial_shuffle 0 (take cnt rs) [0..<n])"

text \<open>Reading the rows at ascending indices in one pass; \<open>None\<close> is the nil row at the end of the data.\<close>

definition next_row :: "'r list \<Rightarrow> 'r option" where
  "next_row rest = (case rest of [] \<Rightarrow> None | r # _ \<Rightarrow> Some r)"

fun read_sorted :: "nat \<Rightarrow> 'r list \<Rightarrow> nat list \<Rightarrow> 'r option list" where
  "read_sorted readerIdx rest [] = []"
| "read_sorted readerIdx rest (targetIdx # indexes) =
     (let rest' = drop (targetIdx - readerIdx) rest; readerIdx' = max readerIdx targetIdx
      in next_row rest' # read_sorted (Suc readerIdx') (drop 1 rest') indexes)"

definition sample :: "nat list \<Rightarrow> 'r list \<Rightarrow> nat \<Rightarrow> nat \<Rightarrow> 'r option list" where
  "sample rs rows tot sz =
     (let indexes = (if tot \<le> sz then [0..<tot] else sort (generateUniqueRandom rs tot sz))
      in read_sorted 0 rows indexes)"

section \<open>The shuffle\<close>

lemma mset_swap: "i < length xs \<Longrightarrow> j < length xs \<Longrightarrow> mset (swap i j xs) = mset xs"
  by (simp add: swap_def mset_swap)

lemma length_swap [simp]: "length (swap i j xs) = length xs"
  by (simp add: swap_def)

text \<open>\<open>Intn(n - i)\<close> returns less than its argument.\<close>

fun intn_results :: "nat \<Rightarrow> nat \<Rightarrow> nat list \<Rightarrow> bool" where
  "intn_results n i [] \<longleftrightarrow> True"
| "intn_results n i (r # rs) \<longleftrightarrow> i + r < n \<and> intn_results n (Suc i) rs"

lemma partial_shuffle_perm:
  "intn_results (length xs) i rs \<Longrightarrow> mset (partial_shuffle i rs xs) = mset xs"
  by (induction rs arbitrary: i xs) (simp_all add: mset_swap)

lemma intn_results_take: "intn_results n i rs \<Longrightarrow> intn_results n i (take k rs)"
  by (induction rs arbitrary: i k) (auto simp: take_Cons split: nat.splits)

lemma unique_random:
  assumes "intn_results n 0 rs" and "cnt \<le> n"
  shows "distinct (generateUniqueRandom rs n cnt)" and "set (generateUniqueRandom rs n cnt) \<subseteq> {..<n}"
    and "length (generateUniqueRandom rs n cnt) = cnt"
proof -
  have m: "mset (partial_shuffle 0 (take cnt rs) [0..<n]) = mset [0..<n]"
    using assms(1) by (intro partial_shuffle_perm) (simp add: intn_results_take)
  then have "distinct (partial_shuffle 0 (take cnt rs) [0..<n])" by (metis distinct_upt mset_eq_imp_distinct_iff)
  then show "distinct (generateUniqueRandom rs n cnt)" by (simp add: generateUniqueRandom_def)
  have "set (partial_shuffle 0 (take cnt rs) [0..<n]) = {..<n}"
    using m by (metis atLeast_upt set_mset_mset)
  then show "set (generateUniqueRandom rs n cnt) \<subseteq> {..<n}"
    using set_take_subset by (fastforce simp: generateUniqueRandom_def)
  have "length (partial_shuffle 0 (take cnt rs) [0..<n]) = n" using m by (metis length_upt minus_nat.diff_0 size_mset)
  then show "length (generateUniqueRandom rs n cnt) = cnt" using assms(2) by (simp add: generateUniqueRandom_def)
qed

lemma read_sorted_nth:
  assumes "sorted_wrt (<) indexes" and "\<forall>i \<in> set indexes. readerIdx \<le> i \<and> i < length rows"
  shows "read_sorted readerIdx (drop readerIdx rows) indexes = map (\<lambda>i. Some (rows ! i)) indexes"
  using assms
proof (induction indexes arbitrary: readerIdx)
  case (Cons t ts)
  have t: "readerIdx \<le> t" "t < length rows" using Cons.prems by simp_all
  have d: "drop (t - readerIdx) (drop readerIdx rows) = drop t rows" using t by simp
  have "next_row (drop t rows) = Some (rows ! t)" using t by (simp add: next_row_def Cons_nth_drop_Suc [symmetric])
  moreover have "read_sorted (Suc t) (drop (Suc t) rows) ts = map (\<lambda>i. Some (rows ! i)) ts"
    using Cons.prems by (intro Cons.IH) auto
  ultimately show ?case using t by (simp add: d Let_def max_absorb2)
qed simp

section \<open>Properties\<close>

lemma sample_rows_at:
  assumes "tot \<le> sz \<or> intn_results tot 0 rs" and "length rows = tot"
  shows "\<exists>ixs. sorted_wrt (<) ixs \<and> set ixs \<subseteq> {..<tot} \<and> length ixs = min tot sz
    \<and> sample rs rows tot sz = map (\<lambda>i. Some (rows ! i)) ixs"
proof -
  define ixs where "ixs = (if tot \<le> sz then [0..<tot] else sort (generateUniqueRandom rs tot sz))"
  have "sorted_wrt (<) ixs \<and> set ixs \<subseteq> {..<tot} \<and> length ixs = min tot sz"
  proof (cases "tot \<le> sz")
    case True
    then show ?thesis by (simp add: ixs_def sorted_wrt_upt subset_iff)
  next
    case False
    with assms(1) have "intn_results tot 0 rs" "sz \<le> tot" by simp_all
    note u = unique_random [OF this]
    have "sorted_wrt (<) (sort (generateUniqueRandom rs tot sz))"
      using u(1) by (simp add: strict_sorted_iff)
    then show ?thesis using u False by (simp add: ixs_def)
  qed
  moreover from this have "read_sorted 0 (drop 0 rows) ixs = map (\<lambda>i. Some (rows ! i)) ixs"
    using assms(2) by (intro read_sorted_nth) auto
  ultimately show ?thesis by (intro exI [of _ ixs]) (simp add: sample_def ixs_def [symmetric])
qed

text \<open>
  A sample consists of distinct rows of the data in their order: of data with no more rows than asked for it is all
  of them, otherwise exactly as many as asked, for whatever the random source returns within its bounds; no row
  is read past the end.
\<close>

theorem sample_distinct_rows:
  assumes "tot \<le> sz \<or> intn_results tot 0 rs" and "length rows = tot"
  shows "\<exists>ixs. sorted_wrt (<) ixs \<and> set ixs \<subseteq> {..<tot} \<and> length ixs = min tot sz
    \<and> sample rs rows tot sz = map (\<lambda>i. Some (rows ! i)) ixs"
  using assms by (rule sample_rows_at)

theorem sample_distinct_rows_witness:
  "\<exists>ixs. length ixs = 2 \<and> sample [2, 0] [10, 20, 30 :: nat] 3 2 = map (\<lambda>i. Some ([10, 20, 30] ! i)) ixs"
proof -
  have "(3 :: nat) \<le> 2 \<or> intn_results 3 0 [2, 0]" "length [10, 20, 30 :: nat] = 3" by simp_all
  from sample_distinct_rows [OF this] show ?thesis by auto
qed

lemma fold_WriteRow:
  "c_bytes (foldl (\<lambda>c r. WriteRow r c) c rows) = c_bytes c @ concat rows
   \<and> c_total (foldl (\<lambda>c r. WriteRow r c) c rows) = c_total c + length rows
   \<and> c_vectorsize (foldl (\<lambda>c r. WriteRow r c) c rows) = c_vectorsize c"
  by (induction rows arbitrary: c) (simp_all add: WriteRow_def)

lemma read_rows_Nil [simp]: "read_rows v [] = Done []"
  by (simp add: read_rows.simps [of v "[]"] ReadRow_def)

lemma read_rows_append:
  "length r = 8 + v \<Longrightarrow> read_rows v (r @ rest) = (case read_rows v rest of Panic e \<Rightarrow> Panic e | Done rs \<Rightarrow> Done (r # rs))"
  by (subst read_rows.simps) (auto simp: ReadRow_def Let_def split: outcome.splits)

text \<open>
  Writing rows of the full width to a cache file and reading it from the start returns exactly these rows in
  order and then the end of the file, and the recorded total is their number.
\<close>

theorem cache_file_round_trip:
  assumes "\<forall>r \<in> set rows. length r = 8 + v"
  shows "read_rows v (the (d_rest (Reset (Finalize (foldl (\<lambda>c r. WriteRow r c) (newDataset v) rows))))) = Done rows
    \<and> d_total (Finalize (foldl (\<lambda>c r. WriteRow r c) (newDataset v) rows)) = length rows"
proof -
  have "read_rows v (concat rows) = Done rows"
    using assms by (induction rows) (simp_all add: read_rows_append)
  then show ?thesis by (simp add: Reset_def Finalize_def fold_WriteRow) (simp add: newDataset_def)
qed

theorem cache_file_round_trip_witness:
  "read_rows 1 (the (d_rest (Reset (Finalize (foldl (\<lambda>c r. WriteRow r c) (newDataset 1) [replicate 9 1, replicate 9 2])))))
    = Done [replicate 9 1, replicate 9 2]"
  using cache_file_round_trip [of "[replicate 9 1, replicate 9 2]" 1] by simp

text \<open>
  A file is readable to its end exactly when its length is a multiple of the row width; else the process ends on the
  row cut short, so a single row of another width breaks the whole file.
\<close>

theorem cut_row_is_fatal:
  "(\<exists>rows. read_rows v bytes = Done rows) \<longleftrightarrow> length bytes mod (8 + v) = 0"
proof (induction "length bytes" arbitrary: bytes rule: less_induct)
  case less
  consider "bytes = []" | "bytes \<noteq> []" "length bytes < 8 + v" | "8 + v \<le> length bytes" by linarith
  then show ?case
  proof cases
    case 1
    then show ?thesis by simp
  next
    case 2
    then show ?thesis by (subst read_rows.simps) (simp add: ReadRow_def)
  next
    case 3
    define r rest where "r = take (8 + v) bytes" and "rest = drop (8 + v) bytes"
    have b: "bytes = r @ rest" "length r = 8 + v" using 3 by (simp_all add: r_def rest_def)
    have "(\<exists>rows. read_rows v rest = Done rows) \<longleftrightarrow> length rest mod (8 + v) = 0"
      using 3 by (intro less) (simp add: rest_def)
    moreover have "length bytes mod (8 + v) = length rest mod (8 + v)" using b by simp
    ultimately show ?thesis unfolding b(1) read_rows_append [OF b(2)] by (auto split: outcome.splits)
  qed
qed

end
