(* ===== verification/KMeans.thy ===== *)
theory KMeans
  imports Cosine Sampling GoSort
begin

text \<open>
  \<open>dnc/k_means.go\<close>: \<open>k\<close> centroids for stored vectors. A superset of starting vectors is drawn at random, moved to the means of
  the nearest vectors until nothing changes, cut to \<open>k\<close> and moved again. Arguments: what \<open>random.Intn\<close> returns,
  the sort, and the conversion \<open>imp\<close> of quantization.
\<close>

section \<open>Outcomes in sequence\<close>

fun all_done :: "'a outcome list \<Rightarrow> 'a list outcome" where
  "all_done [] = Done []"
| "all_done (Panic e # xs) = Panic e"
| "all_done (Done x # xs) = (case all_done xs of Panic e \<Rightarrow> Panic e | Done ys \<Rightarrow> Done (x # ys))"

function chunks :: "nat \<Rightarrow> 'a list \<Rightarrow> 'a list list" where
  "chunks n xs = (if xs = [] \<or> n = 0 then [] else take n xs # chunks n (drop n xs))"
  by pat_completeness auto
termination
  by (relation "measure (\<lambda>(n, xs). length xs)") auto

declare chunks.simps [simp del]

definition chunkData :: "u8 list list \<Rightarrow> nat \<Rightarrow> matrixContainer list outcome" where
  "chunkData input sz = all_done (map NewMatrix (chunks sz input))"

section \<open>One round\<close>

text \<open>The nearest centroid of every vector; both matrices are cloned for every comparison.\<close>

definition nearest :: "u8 list list \<Rightarrow> matrixContainer list \<Rightarrow> nat list outcome" where
  "nearest centroids chunked =
     (case NewMatrix centroids of
        Panic e \<Rightarrow> Panic e
      | Done centroidMatrix \<Rightarrow>
          (case all_done (map (\<lambda>dataMatrix.
               case MatrixCosineSimilarity centroidMatrix dataMatrix of
                 Panic e \<Rightarrow> Panic e | Done ((sims, idx), _, _) \<Rightarrow> Done idx) chunked) of
             Panic e \<Rightarrow> Panic e
           | Done idxs \<Rightarrow> Done (concat idxs)))"

definition add_into :: "fl list \<Rightarrow> fl list \<Rightarrow> fl list" where
  "add_into sumv vec = map2 (fl_add F32) sumv vec @ drop (length vec) sumv"

fun accumulate :: "fl list list \<Rightarrow> nat list \<Rightarrow> (nat \<times> u8 list) list \<Rightarrow> (fl list list \<times> nat list) outcome" where
  "accumulate totals counts [] = Done (totals, counts)"
| "accumulate totals counts ((centroidIdx, bs) # rest) =
     (case DequantizeVector F32 bs of
        Panic e \<Rightarrow> Panic e
      | Done vec \<Rightarrow>
          (if length (totals ! centroidIdx) < length vec then Panic ''index out of range''
           else accumulate (totals[centroidIdx := add_into (totals ! centroidIdx) vec])
                  (counts[centroidIdx := Suc (counts ! centroidIdx)]) rest))"

definition float32_of_int :: "nat \<Rightarrow> fl" where
  "float32_of_int n = mk F32 (of_nat n)"

definition means :: "fl list list \<Rightarrow> nat list \<Rightarrow> fl list list \<Rightarrow> fl list list" where
  "means totals counts meanVectors =
     map (\<lambda>i. if counts ! i = 0 then meanVectors ! i
              else map (\<lambda>x. fl_div F32 x (float32_of_int (counts ! i))) (totals ! i)) [0..<length totals]"

text \<open>
  The variables of the loop. A round ends by zeroing the counts and the sums; the loop ends when no code of a
  centroid has changed, headers aside, or after a thousand rounds.
\<close>

record kstate =
  k_centroids :: "u8 list list"
  sumVectors :: "fl list list"
  counts :: "nat list"
  meanVectors :: "fl list list"
  converged :: bool

definition kmeans_round ::
    "(fl \<Rightarrow> u8) \<Rightarrow> u8 list list \<Rightarrow> matrixContainer list \<Rightarrow> nat \<Rightarrow> kstate \<Rightarrow> kstate outcome" where
  "kmeans_round imp data chunked vectorLen s =
     (case nearest (k_centroids s) chunked of
        Panic e \<Rightarrow> Panic e
      | Done centroidIndexes \<Rightarrow>
          (case accumulate (sumVectors s) (counts s) (zip centroidIndexes data) of
             Panic e \<Rightarrow> Panic e
           | Done (totals, cnts) \<Rightarrow>
               (let meanVectors' = means totals cnts (meanVectors s);
                    newCentroids = QuantizeMatrix imp F32 meanVectors'
                in Done \<lparr>k_centroids = newCentroids,
                         sumVectors = map (\<lambda>_. replicate vectorLen (Fin 0)) totals,
                         counts = map (\<lambda>_. 0) cnts,
                         meanVectors = meanVectors',
                         converged = list_all2 (\<lambda>n c. drop 8 n = drop 8 c) newCentroids (k_centroids s)\<rparr>)))"

fun kmeans_loop ::
    "nat \<Rightarrow> (fl \<Rightarrow> u8) \<Rightarrow> u8 list list \<Rightarrow> matrixContainer list \<Rightarrow> nat \<Rightarrow> kstate \<Rightarrow> kstate outcome" where
  "kmeans_loop 0 imp data chunked vectorLen s = Done s"
| "kmeans_loop (Suc n) imp data chunked vectorLen s =
     (if converged s then Done s
      else case kmeans_round imp data chunked vectorLen s of
        Panic e \<Rightarrow> Panic e
      | Done s' \<Rightarrow> kmeans_loop n imp data chunked vectorLen s')"

section \<open>The whole\<close>

text \<open>Drawing different indices; \<open>None\<close> while the random numbers seen so far do not suffice.\<close>

fun pick_unique :: "nat \<Rightarrow> nat list \<Rightarrow> nat list \<Rightarrow> nat list option" where
  "pick_unique kS used [] = (if kS \<le> length used then Some used else None)"
| "pick_unique kS used (i # rs) =
     (if kS \<le> length used then Some used
      else if i \<in> set used then pick_unique kS used rs
      else pick_unique kS (used @ [i]) rs)"

text \<open>\<open>cmp.Compare(b.count, a.count)\<close>\<close>

definition by_size :: "(u8 list \<times> nat) \<Rightarrow> (u8 list \<times> nat) \<Rightarrow> int" where
  "by_size a b = (if snd b < snd a then -1 else if snd a < snd b then 1 else 0)"

type_synonym size_sort = "((u8 list \<times> nat) \<Rightarrow> (u8 list \<times> nat) \<Rightarrow> int) \<Rightarrow> (u8 list \<times> nat) list \<Rightarrow> (u8 list \<times> nat) list"

definition superset_start :: "nat \<Rightarrow> nat \<Rightarrow> u8 list list \<Rightarrow> kstate" where
  "superset_start kS vectorLen centroids =
     \<lparr>k_centroids = centroids, sumVectors = replicate kS (replicate vectorLen (Fin 0)), counts = replicate kS 0,
      meanVectors = replicate kS (replicate vectorLen (Fin 0)), converged = False\<rparr>"

text \<open>Steps 4 and 5: the superset ordered by its counts, cut to \<open>k\<close>; totals and means are cut as they stand.\<close>

definition set_start :: "size_sort \<Rightarrow> nat \<Rightarrow> kstate \<Rightarrow> kstate" where
  "set_start SortFunc k s =
     \<lparr>k_centroids = map fst (take k (SortFunc by_size (zip (k_centroids s) (counts s)))),
      sumVectors = take k (sumVectors s), counts = replicate k 0, meanVectors = take k (meanVectors s), converged = False\<rparr>"

definition kMeans ::
    "nat list \<Rightarrow> size_sort \<Rightarrow> (fl \<Rightarrow> u8) \<Rightarrow> u8 list list \<Rightarrow> int \<Rightarrow> u8 list list outcome option" where
  "kMeans rs SortFunc imp data k =
     (if k \<le> 0 then Some (Done [])
      else let dlen = length data
      in if dlen = 0 \<or> int dlen \<le> k then Some (Done data)
      else case chunkData data BATCH_SIZE_CACHE of
        Panic e \<Rightarrow> Some (Panic e)
      | Done chunked \<Rightarrow>
          (let kS = min dlen (nat k * SUPERSET_MUL)
           in case pick_unique kS [] rs of
                None \<Rightarrow> None
              | Some used \<Rightarrow>
                  (let centroids = map (\<lambda>i. data ! i) used;
                       vectorLen = length (hd centroids) - 8
                   in Some (case kmeans_loop KMEANS_ITTERATION_LIMIT imp data chunked vectorLen
                                   (superset_start kS vectorLen centroids) of
                        Panic e \<Rightarrow> Panic e
                      | Done s \<Rightarrow>
                          (case kmeans_loop KMEANS_ITTERATION_LIMIT imp data chunked vectorLen
                                  (set_start SortFunc (nat k) s) of
                             Panic e \<Rightarrow> Panic e
                           | Done t \<Rightarrow> Done (k_centroids t))))))"

section \<open>Shapes\<close>

lemma all_done_map:
  assumes "\<And>x. x \<in> set xs \<Longrightarrow> \<exists>y. f x = Done y \<and> P x y"
  shows "\<exists>ys. all_done (map f xs) = Done ys \<and> list_all2 P xs ys"
  using assms
proof (induction xs)
  case (Cons x xs)
  obtain y where "f x = Done y" "P x y" using Cons.prems by auto
  moreover obtain ys where "all_done (map f xs) = Done ys" "list_all2 P xs ys" using Cons by auto
  ultimately show ?case by simp
qed simp

lemma chunks_Nil [simp]: "chunks n [] = []"
  by (simp add: chunks.simps [of n "[]"])

lemma chunks_concat: "0 < n \<Longrightarrow> concat (chunks n xs) = xs"
proof (induction n xs rule: chunks.induct)
  case (1 n xs)
  then show ?case by (cases "xs = []") (simp_all add: chunks.simps [of n xs])
qed

lemma chunks_not_empty: "c \<in> set (chunks n xs) \<Longrightarrow> c \<noteq> []"
proof (induction n xs rule: chunks.induct)
  case (1 n xs)
  then show ?case by (cases "xs = [] \<or> n = 0") (auto simp: chunks.simps [of n xs])
qed

lemma chunks_parts: "0 < n \<Longrightarrow> c \<in> set (chunks n xs) \<Longrightarrow> set c \<subseteq> set xs"
  using chunks_concat [of n xs] by (metis UN_upper set_concat)

definition good_data :: "nat \<Rightarrow> u8 list list \<Rightarrow> bool" where
  "good_data w data \<longleftrightarrow> data \<noteq> [] \<and> 8 < w \<and> (\<forall>b \<in> set data. length b = w)"

lemma NewMatrix_good:
  assumes "good_data w ms"
  shows "\<exists>m. NewMatrix ms = Done m \<and> well_formed m \<and> m_cols m = w - 8 \<and> m_rows m = length ms"
proof -
  have h: "ms \<noteq> []" "length (hd ms) = w" "8 < w" using assms by (auto simp: good_data_def)
  then obtain m where m: "NewMatrix ms = Done m" using NewMatrix_Done [of ms] assms by (auto simp: good_data_def)
  then show ?thesis using NewMatrix_rows [OF m] h by auto
qed

lemma chunkData_good:
  assumes "good_data w data" and "0 < sz"
  shows "\<exists>ms. chunkData data sz = Done ms"
proof -
  have "\<exists>m. NewMatrix c = Done m \<and> True" if "c \<in> set (chunks sz data)" for c
  proof -
    have "good_data w c"
      using chunks_not_empty [OF that] chunks_parts [OF assms(2) that] assms(1) by (auto simp: good_data_def)
    then show ?thesis using NewMatrix_good by blast
  qed
  from all_done_map [of "chunks sz data" NewMatrix "\<lambda>_ _. True", OF this] show ?thesis
    by (auto simp: chunkData_def)
qed

text \<open>
  The index of the nearest centroid as a function of the two stored vectors: how the vectors are chunked into matrices
  does not matter.
\<close>

definition nearest_index :: "u8 list list \<Rightarrow> u8 list \<Rightarrow> nat" where
  "nearest_index centroids r =
     snd (best (map (\<lambda>c. dot (normalizeVector (vector_of c)) (normalizeVector (vector_of r))) centroids))"

lemma NewMatrix_good_row:
  assumes "good_data w ms" and "NewMatrix ms = Done m" and "i < length ms"
  shows "row (m_cols m) i (m_data m) = vector_of (ms ! i)"
proof -
  have "\<forall>b \<in> set ms. length b = length (hd ms)" using assms(1) by (cases ms) (auto simp: good_data_def)
  then have "DequantizeVector F64 (ms ! i) = Done (row (m_cols m) i (m_data m))"
    using NewMatrix_rows [OF assms(2)] assms(3) by blast
  then show ?thesis by (simp add: vector_of_def)
qed

lemma chunk_nearest:
  assumes cs: "good_data w cs" "NewMatrix cs = Done cm" and c: "good_data w c" "NewMatrix c = Done dm"
  shows "\<exists>s m1 m2. MatrixCosineSimilarity cm dm = Done ((s, map (nearest_index cs) c), m1, m2)"
proof -
  have wf: "well_formed cm" "m_cols cm = w - 8" "m_rows cm = length cs" "well_formed dm" "m_cols dm = w - 8" "m_rows dm = length c"
    using NewMatrix_good [OF cs(1)] NewMatrix_good [OF c(1)] cs(2) c(2) by auto
  have "products cm dm i = map (\<lambda>x. dot (normalizeVector (vector_of x)) (normalizeVector (vector_of (c ! i)))) cs"
    if "i < length c" for i
    using wf that NewMatrix_good_row [OF cs] NewMatrix_good_row [OF c]
    by (intro nth_equalityI) (simp_all add: products_def)
  then have "map (\<lambda>i. snd (best (products cm dm i))) [0..<m_rows dm] = map (nearest_index cs) c"
    using wf by (intro nth_equalityI) (simp_all add: nearest_index_def)
  then show ?thesis using MatrixCosine_eq [OF wf(1,4)] wf by auto
qed

lemma all_done_maps: "(\<And>x. x \<in> set xs \<Longrightarrow> f x = Done (g x)) \<Longrightarrow> all_done (map f xs) = Done (map g xs)"
  by (induction xs) simp_all

lemma nearest_eq:
  assumes cs: "good_data w cs" and rows: "\<forall>b \<in> set rows. length b = w" and ch: "chunkData rows sz = Done ms" and sz: "0 < sz"
  shows "nearest cs ms = Done (map (nearest_index cs) rows)"
proof -
  obtain cm where cm: "NewMatrix cs = Done cm" using NewMatrix_good [OF cs] by blast
  have g: "good_data w c" if "c \<in> set (chunks sz rows)" for c
    using that chunks_not_empty [OF that] chunks_parts [OF sz that] cs rows by (auto simp: good_data_def)
  define mat where "mat c = (case NewMatrix c of Done m \<Rightarrow> m)" for c
  have mat: "NewMatrix c = Done (mat c)" if "c \<in> set (chunks sz rows)" for c
    using NewMatrix_good [OF g [OF that]] by (auto simp: mat_def)
  have ms: "ms = map mat (chunks sz rows)"
    using ch all_done_maps [of "chunks sz rows" NewMatrix mat, OF mat] by (simp add: chunkData_def)
  let ?f = "\<lambda>dm. case MatrixCosineSimilarity cm dm of Panic e \<Rightarrow> Panic e | Done ((s, idx), _, _) \<Rightarrow> Done idx"
  have "?f (mat c) = Done (map (nearest_index cs) c)" if "c \<in> set (chunks sz rows)" for c
    using chunk_nearest [OF cs cm g [OF that] mat [OF that]] by auto
  then have "all_done (map (?f \<circ> mat) (chunks sz rows)) = Done (map (map (nearest_index cs)) (chunks sz rows))"
    by (intro all_done_maps) simp
  then have "all_done (map ?f ms) = Done (map (map (nearest_index cs)) (chunks sz rows))" by (simp add: ms)
  then have "nearest cs ms = Done (concat (map (map (nearest_index cs)) (chunks sz rows)))" by (simp add: nearest_def cm)
  also have "concat (map (map (nearest_index cs)) (chunks sz rows)) = map (nearest_index cs) rows"
    using chunks_concat [OF sz, of rows] by (metis map_concat)
  finally show ?thesis .
qed

lemma nearest_index_less: "cs \<noteq> [] \<Longrightarrow> nearest_index cs r < length cs"
  unfolding nearest_index_def using best_index [of "map f cs" for f] by fastforce

lemma length_add_into: "length vec \<le> length v \<Longrightarrow> length (add_into v vec) = length v"
  by (simp add: add_into_def)

lemma accumulate_good:
  assumes "length totals = n" and "length cnts = n" and "\<forall>t \<in> set totals. length t = v"
    and "\<forall>(i, bs) \<in> set ps. i < n \<and> length bs = 8 + v"
  shows "\<exists>t c. accumulate totals cnts ps = Done (t, c) \<and> length t = n \<and> length c = n \<and> (\<forall>x \<in> set t. length x = v)"
  using assms
proof (induction ps arbitrary: totals cnts)
  case (Cons p ps)
  obtain i bs where p: "p = (i, bs)" by force
  have i: "i < n" "length bs = 8 + v" using Cons.prems(4) p by auto
  obtain vec where vec: "DequantizeVector F32 bs = Done vec" "length vec = v"
    using DequantizeVector_long [of bs F32] i by auto
  have ti: "length (totals ! i) = v" using Cons.prems(1,3) i by simp
  have "\<forall>t \<in> set (totals[i := add_into (totals ! i) vec]). length t = v"
    using Cons.prems(3) ti vec(2) length_add_into [of vec "totals ! i"]
    by (metis insertE le_refl set_update_subset_insert subsetD)
  then have "\<exists>t c. accumulate (totals[i := add_into (totals ! i) vec]) (cnts[i := Suc (cnts ! i)]) ps = Done (t, c)
      \<and> length t = n \<and> length c = n \<and> (\<forall>x \<in> set t. length x = v)"
    using Cons.prems by (intro Cons.IH) auto
  then show ?case using p vec ti by simp
qed simp

definition kstate_ok :: "nat \<Rightarrow> nat \<Rightarrow> kstate \<Rightarrow> bool" where
  "kstate_ok n v s \<longleftrightarrow> length (k_centroids s) = n \<and> (\<forall>c \<in> set (k_centroids s). length c = 8 + v)
     \<and> length (sumVectors s) = n \<and> (\<forall>t \<in> set (sumVectors s). length t = v) \<and> counts s = replicate n 0
     \<and> length (meanVectors s) = n \<and> (\<forall>t \<in> set (meanVectors s). length t = v)"

lemma length_QuantizeVector: "length (QuantizeVector imp f xs) = 8 + length xs"
  by (simp add: QuantizeVector_def case_prod_beta)

lemma means_shape:
  assumes "length totals = n" and "length ms = n" and "\<forall>t \<in> set totals. length t = v" and "\<forall>t \<in> set ms. length t = v"
  shows "length (means totals cnts ms) = n \<and> (\<forall>t \<in> set (means totals cnts ms). length t = v)"
  using assms by (auto simp: means_def)

lemma kmeans_round_ok:
  assumes data: "good_data (8 + v) data" and ch: "chunkData data BATCH_SIZE_CACHE = Done ms"
    and s: "kstate_ok n v s" and n: "0 < n"
  shows "\<exists>s'. kmeans_round imp data ms v s = Done s' \<and> kstate_ok n v s'"
proof -
  have c: "good_data (8 + v) (k_centroids s)" using s n data by (auto simp: good_data_def kstate_ok_def)
  define idx where "idx = map (nearest_index (k_centroids s)) data"
  have "\<forall>b \<in> set data. length b = 8 + v" "0 < BATCH_SIZE_CACHE" using data by (simp_all add: good_data_def BATCH_SIZE_CACHE_def)
  from nearest_eq [OF c this(1) ch this(2)] have idx: "nearest (k_centroids s) ms = Done idx" "length idx = length data"
    by (simp_all add: idx_def)
  have "k_centroids s \<noteq> []" "length (k_centroids s) = n" using s n by (auto simp: kstate_ok_def)
  then have idx3: "\<forall>i \<in> set idx. i < n" using nearest_index_less by (fastforce simp: idx_def)
  have "\<forall>(i, bs) \<in> set (zip idx data). i < n \<and> length bs = 8 + v"
    using idx3 data by (auto simp: good_data_def dest: set_zip_leftD set_zip_rightD)
  then have "\<exists>t c. accumulate (sumVectors s) (counts s) (zip idx data) = Done (t, c) \<and> length t = n \<and> length c = n
      \<and> (\<forall>x \<in> set t. length x = v)"
    using s by (intro accumulate_good) (simp_all add: kstate_ok_def)
  then obtain t c where tc: "accumulate (sumVectors s) (counts s) (zip idx data) = Done (t, c)" "length t = n"
      "length c = n" "\<forall>x \<in> set t. length x = v" by blast
  have m: "length (means t c (meanVectors s)) = n" "\<forall>x \<in> set (means t c (meanVectors s)). length x = v"
    using means_shape [OF tc(2) _ tc(4), of "meanVectors s" c] s by (auto simp: kstate_ok_def)
  show ?thesis using idx tc m
    by (simp add: kmeans_round_def Let_def kstate_ok_def QuantizeMatrix_def length_QuantizeVector map_replicate_const)
qed

lemma kmeans_loop_ok:
  assumes "good_data (8 + v) data" and "chunkData data BATCH_SIZE_CACHE = Done ms" and "kstate_ok n v s" and "0 < n"
  shows "\<exists>s'. kmeans_loop fuel imp data ms v s = Done s' \<and> kstate_ok n v s'"
  using assms(3)
proof (induction fuel arbitrary: s)
  case (Suc fuel)
  obtain s' where "kmeans_round imp data ms v s = Done s'" "kstate_ok n v s'"
    using kmeans_round_ok [OF assms(1,2) Suc.prems assms(4)] by blast
  then show ?case using Suc.IH [of s'] Suc.prems by simp
qed simp

lemma go_ordering_by_size: "go_ordering by_size"
  by (auto simp: go_ordering_def by_size_def split: if_splits)

lemma pick_unique_Some:
  assumes "kS \<le> card (set used \<union> set rs)" and "distinct used"
  shows "\<exists>us. pick_unique kS used rs = Some us"
  using assms
proof (induction rs arbitrary: used)
  case Nil
  then show ?case by (simp add: distinct_card)
next
  case (Cons i rs)
  show ?case
  proof (cases "i \<in> set used")
    case True
    then have "set used \<union> set (i # rs) = set used \<union> set rs" by auto
    then show ?thesis using Cons True by simp
  next
    case False
    have "set used \<union> set (i # rs) = set (used @ [i]) \<union> set rs" by auto
    then show ?thesis using Cons.IH [of "used @ [i]"] Cons.prems False by simp
  qed
qed

lemma pick_unique_props:
  assumes "pick_unique kS used rs = Some us" and "distinct used" and "length used \<le> kS" and "\<forall>i \<in> set used \<union> set rs. i < n"
  shows "distinct us \<and> length us = kS \<and> (\<forall>i \<in> set us. i < n)"
  using assms
proof (induction rs arbitrary: used)
  case Nil
  then show ?case by (auto split: if_splits)
next
  case (Cons i rs)
  show ?case
  proof (cases "kS \<le> length used")
    case True
    then show ?thesis using Cons.prems by auto
  next
    case False
    then show ?thesis using Cons.prems Cons.IH [of used] Cons.IH [of "used @ [i]"] by (auto split: if_splits)
  qed
qed

lemma superset_start_ok:
  assumes "good_data (8 + v) data" and "length used = n" and "\<forall>i \<in> set used. i < length data"
  shows "kstate_ok n v (superset_start n v (map (\<lambda>i. data ! i) used))"
  using assms by (auto simp: kstate_ok_def superset_start_def good_data_def)

lemma set_start_ok:
  assumes "sorting S" and "kstate_ok n v s" and "k \<le> n"
  shows "kstate_ok k v (set_start S k s)"
proof -
  let ?z = "zip (k_centroids s) (counts s)"
  have S: "mset (S by_size ?z) = mset ?z" using assms go_ordering_by_size by (simp add: sorting_def)
  then have "set (S by_size ?z) = set ?z" "length (S by_size ?z) = length ?z"
    by (metis set_mset_mset, metis size_mset)
  then have "length (S by_size ?z) = n" "\<forall>p \<in> set (S by_size ?z). length (fst p) = 8 + v"
    using assms by (auto simp: kstate_ok_def dest: set_zip_leftD)
  then show ?thesis using assms(2,3) by (auto simp: kstate_ok_def set_start_def dest: in_set_takeD)
qed

lemma kMeans_Done:
  assumes data: "good_data w data" and k: "0 < k" "k < int (length data)" and S: "sorting SortFunc"
    and rs: "\<forall>i \<in> set rs. i < length data" "min (length data) (nat k * SUPERSET_MUL) \<le> card (set rs)"
  shows "\<exists>cs. kMeans rs SortFunc imp data k = Some (Done cs) \<and> length cs = nat k \<and> (\<forall>c \<in> set cs. length c = w)"
proof -
  define v where "v = w - 8"
  define n where "n = min (length data) (nat k * SUPERSET_MUL)"
  have w: "w = 8 + v" using data by (simp add: v_def good_data_def)
  note data = data [unfolded w]
  have "0 < BATCH_SIZE_CACHE" by (simp add: BATCH_SIZE_CACHE_def)
  from chunkData_good [OF data this] obtain ms where ms: "chunkData data BATCH_SIZE_CACHE = Done ms" by blast
  obtain used where used: "pick_unique n [] rs = Some used" using pick_unique_Some [of n "[]" rs] rs(2) by (auto simp: n_def)
  from pick_unique_props [OF this, of "length data"] rs(1)
  have u: "length used = n" "\<forall>i \<in> set used. i < length data" by simp_all
  have nk: "nat k \<le> n" "0 < nat k" "0 < n" using k by (auto simp: n_def SUPERSET_MUL_def)
  have hd: "length (hd (map (\<lambda>i. data ! i) used)) - 8 = v"
    using u nk(3) data by (cases used) (auto simp: good_data_def)
  obtain s where s: "kmeans_loop KMEANS_ITTERATION_LIMIT imp data ms v (superset_start n v (map (\<lambda>i. data ! i) used)) = Done s"
      "kstate_ok n v s"
    using kmeans_loop_ok [OF data ms superset_start_ok [OF data u] nk(3)] by blast
  obtain t where t: "kmeans_loop KMEANS_ITTERATION_LIMIT imp data ms v (set_start SortFunc (nat k) s) = Done t"
      "kstate_ok (nat k) v t"
    using kmeans_loop_ok [OF data ms set_start_ok [OF S s(2) nk(1)] nk(2)] by blast
  have "data \<noteq> []" using k by auto
  then have "kMeans rs SortFunc imp data k = Some (Done (k_centroids t))"
    using k nk(3) ms used hd s(1) t(1) by (simp add: kMeans_def Let_def n_def [symmetric])
  then show ?thesis using t(2) w by (simp add: kstate_ok_def)
qed

section \<open>Properties\<close>

text \<open>
  C18: Clustering returns: for more stored vectors than clusters, all of one length, it never panics, ends after at most two
  thousand rounds once the random source has produced enough different indices, and yields exactly \<open>k\<close>
  centroids of the same length, whatever order the sort leaves equal elements in.
\<close>

theorem kMeans_returns:
  assumes "good_data w data" and "0 < k" "k < int (length data)" and "sorting SortFunc"
    and "\<forall>i \<in> set rs. i < length data" and "min (length data) (nat k * SUPERSET_MUL) \<le> card (set rs)"
  shows "\<exists>cs. kMeans rs SortFunc imp data k = Some (Done cs) \<and> length cs = nat k \<and> (\<forall>c \<in> set cs. length c = w)"
  using assms by (rule kMeans_Done)

theorem kMeans_returns_witness:
  "\<exists>cs. kMeans [1, 1, 0, 2] insertionSort (\<lambda>_. 0) [replicate 9 1, replicate 9 2, replicate 9 3] 2 = Some (Done cs)
    \<and> length cs = 2"
proof -
  let ?data = "[replicate 9 1, replicate 9 2, replicate 9 3] :: u8 list list"
  have "good_data 9 ?data" by (simp add: good_data_def)
  moreover have "(0 :: int) < 2" "2 < int (length ?data)" by simp_all
  moreover have "\<forall>i \<in> set [1, 1, 0, 2]. i < length ?data" by simp
  moreover have "min (length ?data) (nat 2 * SUPERSET_MUL) \<le> card (set [1, 1, 0, 2 :: nat])"
    by (simp add: SUPERSET_MUL_def)
  ultimately obtain cs where "kMeans [1, 1, 0, 2] insertionSort (\<lambda>_. 0) ?data 2 = Some (Done cs)" "length cs = nat 2"
    using kMeans_returns [OF _ _ _ insertionSort_sorting] by blast
  then show ?thesis by simp
qed

lemma insertion_equal: "(\<And>x y. x \<in> set xs \<union> set acc \<Longrightarrow> y \<in> set xs \<union> set acc \<Longrightarrow> \<not> cmp x y < 0) \<Longrightarrow>
    foldl (\<lambda>acc x. move_left cmp x acc) acc xs = rev xs @ acc"
proof (induction xs arbitrary: acc)
  case (Cons x xs)
  have "move_left cmp x acc = x # acc" using Cons.prems [of x] by (cases acc) auto
  moreover have "foldl (\<lambda>acc x. move_left cmp x acc) (x # acc) xs = rev xs @ x # acc"
    using Cons.prems by (intro Cons.IH) auto
  ultimately show ?case by simp
qed simp

text \<open>
  Ordering the superset by size has no effect: after any rounds the counts the sort compares are all zero, so
  Go's sort for short lists keeps the first \<open>k\<close> centroids as they stand, however many vectors each of them gathered.
\<close>

theorem superset_order_ignores_size:
  assumes "good_data (8 + v) data" and "chunkData data BATCH_SIZE_CACHE = Done ms" and "kstate_ok n v s" and "0 < n"
    and "kmeans_loop fuel imp data ms v s = Done t"
  shows "counts t = replicate n 0 \<and> k_centroids (set_start insertionSort k t) = take k (k_centroids t)"
proof -
  have t: "kstate_ok n v t" using kmeans_loop_ok [OF assms(1-4), of fuel imp] assms(5) by simp
  then have c: "counts t = replicate n 0" "length (k_centroids t) = n" by (simp_all add: kstate_ok_def)
  have "insertionSort by_size (zip (k_centroids t) (replicate n 0)) = zip (k_centroids t) (replicate n 0)"
    unfolding insertionSort_def by (subst insertion_equal) (auto simp: by_size_def dest: set_zip_rightD)
  then show ?thesis using c by (simp add: set_start_def take_map [symmetric])
qed

theorem superset_order_ignores_size_witness:
  "counts (superset_start 1 1 [replicate 9 1]) = replicate 1 0
   \<and> k_centroids (set_start insertionSort 1 (superset_start 1 1 [replicate 9 1])) = [replicate 9 1]"
proof -
  let ?data = "[replicate 9 1] :: u8 list list"
  have d: "good_data (8 + 1) ?data" by (simp add: good_data_def)
  obtain ms where ms: "chunkData ?data BATCH_SIZE_CACHE = Done ms"
    using chunkData_good [OF d, of BATCH_SIZE_CACHE] by (auto simp: BATCH_SIZE_CACHE_def)
  have s: "kstate_ok 1 1 (superset_start 1 1 ?data)" by (simp add: kstate_ok_def superset_start_def)
  have "kmeans_loop 0 (\<lambda>_. 0) ?data ms 1 (superset_start 1 1 ?data) = Done (superset_start 1 1 ?data)" by simp
  from superset_order_ignores_size [OF d ms s _ this, of 1] show ?thesis by (simp add: superset_start_def)
qed

end
