(* ===== verification/DivideConquer.thy ===== *)
theory DivideConquer
  imports KMeans Machine
begin

text \<open>
  \<open>dnc/dnc.go\<close> and the closure of \<open>Finalize\<close> in \<open>dnc/dataset.go\<close>: new centroids for a category. A set of
  vectors larger than the target is split by its own k-means centroids into subsets, each handled by its own goroutine in the same
  way. First one such call and the recursion as functions, with the rows of a cache file as a list (\<open>Sampling\<close> has
  the file); then the goroutines and their channel as a machine; last the steps on the database rows. What the random source returns
  is an argument that depends on the call: the path of subset indices leading to it, and which of its four draws.
\<close>

section \<open>One dataset\<close>

type_synonym draws = "nat list \<Rightarrow> nat \<Rightarrow> nat list"

definition sample_rows :: "nat list \<Rightarrow> u8 list list \<Rightarrow> u8 list list" where
  "sample_rows rs rows = map (\<lambda>r. case r of Some b \<Rightarrow> b | None \<Rightarrow> []) (sample rs rows (length rows) SAMPLE_SIZE)"

text \<open>\<open>initX\<close>: the centroid of a dataset is the single mean of a sample of it.\<close>

definition init_centroid ::
    "draws \<Rightarrow> nat list \<Rightarrow> size_sort \<Rightarrow> (fl \<Rightarrow> u8) \<Rightarrow> u8 list list \<Rightarrow> u8 list outcome option" where
  "init_centroid draw path S imp rows =
     (case kMeans (draw path 1) S imp (sample_rows (draw path 0) rows) 1 of
        None \<Rightarrow> None
      | Some (Panic e) \<Rightarrow> Some (Panic e)
      | Some (Done []) \<Rightarrow> Some (Panic ''index out of range'')
      | Some (Done (c # _)) \<Rightarrow> Some (Done c))"

definition split_count :: "nat \<Rightarrow> nat \<Rightarrow> nat" where
  "split_count tot targetSize = min SPLIT_SIZE (max 2 (tot div targetSize))"

definition write_rows :: "nat \<Rightarrow> (nat \<times> u8 list) list \<Rightarrow> u8 list list list" where
  "write_rows n ps = foldl (\<lambda>ws (i, r). ws[i := ws ! i @ [r]]) (replicate n []) ps"

text \<open>Every row goes to the writer of its nearest centroid, minibatch by minibatch.\<close>

definition split_dataset :: "u8 list list \<Rightarrow> u8 list list \<Rightarrow> u8 list list list outcome" where
  "split_dataset centroids rows =
     (case chunkData rows BATCH_SIZE_CACHE of
        Panic e \<Rightarrow> Panic e
      | Done chunked \<Rightarrow>
          (case nearest centroids chunked of
             Panic e \<Rightarrow> Panic e
           | Done idxs \<Rightarrow> Done (write_rows (length centroids) (zip idxs rows))))"

text \<open>
  Several goroutines together: a panic in any of them ends the process; otherwise all have to finish.
\<close>

definition together :: "'a list outcome option list \<Rightarrow> 'a list outcome option" where
  "together rs =
     (case List.find (\<lambda>r. \<exists>e. r = Some (Panic e)) rs of
        Some r \<Rightarrow> r
      | None \<Rightarrow> if None \<in> set rs then None
                else Some (Done (concat (map (\<lambda>r. case r of Some (Done xs) \<Rightarrow> xs | _ \<Rightarrow> []) rs))))"

text \<open>
  The vectors a call and its descendants send to \<open>Y\<close>; \<open>None\<close> when the fuel (the depth of the recursion) is used up.
\<close>

fun divideNconquer ::
    "nat \<Rightarrow> draws \<Rightarrow> (nat list \<Rightarrow> bool) \<Rightarrow> size_sort \<Rightarrow> (fl \<Rightarrow> u8) \<Rightarrow> nat \<Rightarrow> nat list \<Rightarrow> u8 list list \<Rightarrow>
      u8 list list outcome option" where
  "divideNconquer 0 draw canceled S imp targetSize path X = None"
| "divideNconquer (Suc fuel) draw canceled S imp targetSize path X =
     (case init_centroid draw path S imp X of
        None \<Rightarrow> None
      | Some (Panic e) \<Rightarrow> Some (Panic e)
      | Some (Done centroid) \<Rightarrow>
          (if length X \<le> targetSize \<or> canceled path then Some (Done [centroid])
           else case kMeans (draw path 3) S imp (sample_rows (draw path 2) X) (int (split_count (length X) targetSize)) of
             None \<Rightarrow> None
           | Some (Panic e) \<Rightarrow> Some (Panic e)
           | Some (Done centroids) \<Rightarrow>
               (case split_dataset centroids X of
                  Panic e \<Rightarrow> Some (Panic e)
                | Done subsets \<Rightarrow>
                    together (map (\<lambda>(i, sub). divideNconquer fuel draw canceled S imp targetSize (path @ [i]) sub)
                      (enumerate 0 subsets)))))"

section \<open>Splitting\<close>

lemma foldl_write_rows:
  assumes "\<forall>(i, r) \<in> set ps. i < length ws" and "j < length ws"
  shows "length (foldl (\<lambda>ws (i, r). ws[i := ws ! i @ [r]]) ws ps) = length ws
    \<and> foldl (\<lambda>ws (i, r). ws[i := ws ! i @ [r]]) ws ps ! j = ws ! j @ map snd (filter (\<lambda>p. fst p = j) ps)"
  using assms
proof (induction ps arbitrary: ws)
  case (Cons p ps)
  obtain i r where p: "p = (i, r)" by force
  have "\<forall>(i', r') \<in> set ps. i' < length (ws[i := ws ! i @ [r]])" "j < length (ws[i := ws ! i @ [r]])"
    using Cons.prems by auto
  from Cons.IH [OF this] show ?case using Cons.prems p by (cases "i = j") auto
qed simp

lemma write_rows_nth:
  "\<forall>(i, r) \<in> set ps. i < n \<Longrightarrow> j < n \<Longrightarrow> write_rows n ps ! j = map snd (filter (\<lambda>p. fst p = j) ps)"
  using foldl_write_rows [of ps "replicate n []" j] by (simp add: write_rows_def)

lemma length_write_rows [simp]: "\<forall>(i, r) \<in> set ps. i < n \<Longrightarrow> length (write_rows n ps) = n"
  using foldl_write_rows [of ps "replicate n []" 0] by (cases n; cases ps) (auto simp: write_rows_def)

lemma mset_foldl_write_rows:
  "\<forall>(i, r) \<in> set ps. i < length ws \<Longrightarrow>
    mset (concat (foldl (\<lambda>ws (i, r). ws[i := ws ! i @ [r]]) ws ps)) = mset (concat ws) + mset (map snd ps)"
proof (induction ps arbitrary: ws)
  case (Cons p ps)
  obtain i r where p: "p = (i, r)" by force
  have i: "i < length ws" using Cons.prems p by auto
  have "ws[i := ws ! i @ [r]] = take i ws @ (ws ! i @ [r]) # drop (Suc i) ws" using i by (rule upd_conv_take_nth_drop)
  moreover have "mset (concat ws) = mset (concat (take i ws @ ws ! i # drop (Suc i) ws))"
    using id_take_nth_drop [OF i] by simp
  ultimately have "mset (concat (ws[i := ws ! i @ [r]])) = add_mset r (mset (concat ws))" by simp
  then show ?case using Cons.IH [of "ws[i := ws ! i @ [r]]"] Cons.prems p by auto
qed simp

lemma split_eq:
  assumes "good_data w cs" and "good_data w rows"
  shows "split_dataset cs rows = Done (map (\<lambda>j. filter (\<lambda>r. nearest_index cs r = j) rows) [0..<length cs])"
proof -
  have sz: "0 < BATCH_SIZE_CACHE" by (simp add: BATCH_SIZE_CACHE_def)
  obtain ms where ms: "chunkData rows BATCH_SIZE_CACHE = Done ms" using chunkData_good [OF assms(2) sz] by blast
  have "\<forall>b \<in> set rows. length b = w" using assms(2) by (simp add: good_data_def)
  from nearest_eq [OF assms(1) this ms sz] have n: "nearest cs ms = Done (map (nearest_index cs) rows)" .
  let ?ps = "zip (map (nearest_index cs) rows) rows"
  have ps: "?ps = map (\<lambda>r. (nearest_index cs r, r)) rows" by (induction rows) simp_all
  have i: "\<forall>(i, r) \<in> set ?ps. i < length cs"
    using assms(1) nearest_index_less by (auto simp: ps good_data_def)
  have "write_rows (length cs) ?ps = map (\<lambda>j. filter (\<lambda>r. nearest_index cs r = j) rows) [0..<length cs]"
  proof (rule nth_equalityI)
    show "length (write_rows (length cs) ?ps) = length (map (\<lambda>j. filter (\<lambda>r. nearest_index cs r = j) rows) [0..<length cs])"
      using i by simp
  next
    fix j
    assume "j < length (write_rows (length cs) ?ps)"
    then have j: "j < length cs" using i by simp
    have "map snd (filter (\<lambda>p. fst p = j) ?ps) = filter (\<lambda>r. nearest_index cs r = j) rows"
      unfolding ps by (induction rows) simp_all
    then show "write_rows (length cs) ?ps ! j = map (\<lambda>j. filter (\<lambda>r. nearest_index cs r = j) rows) [0..<length cs] ! j"
      using write_rows_nth [OF i j] j by simp
  qed
  then show ?thesis using ms n by (simp add: split_dataset_def)
qed

lemma mset_filter_parts:
  "\<forall>r \<in> set rows. f r < n \<Longrightarrow> mset (concat (map (\<lambda>j. filter (\<lambda>r. f r = j) rows) [0..<n])) = mset rows"
proof (induction n arbitrary: rows)
  case (Suc n)
  let ?A = "filter (\<lambda>r. f r < n) rows"
  have f: "filter (\<lambda>r. f r = j) ?A = filter (\<lambda>r. f r = j) rows" if "j < n" for j
    using that by (induction rows) auto
  have m: "map (\<lambda>j. filter (\<lambda>r. f r = j) ?A) [0..<n] = map (\<lambda>j. filter (\<lambda>r. f r = j) rows) [0..<n]"
    by (rule map_cong [OF refl], rule f) simp
  have "\<forall>r \<in> set ?A. f r < n" by simp
  from Suc.IH [OF this] have 1: "mset (concat (map (\<lambda>j. filter (\<lambda>r. f r = j) rows) [0..<n])) = mset ?A"
    unfolding m .
  have "filter (\<lambda>r. f r = n) rows = filter (\<lambda>r. \<not> f r < n) rows" using Suc.prems by (intro filter_cong) auto
  then have 2: "mset ?A + mset (filter (\<lambda>r. f r = n) rows) = mset rows" by (simp add: multiset_partition [symmetric])
  show ?case using 1 2 by simp
qed simp

section \<open>Identical vectors\<close>

lemma sample_rows_good:
  assumes "good_data w rows" and "length rows \<le> SAMPLE_SIZE \<or> intn_results (length rows) 0 rs"
  shows "good_data w (sample_rows rs rows) \<and> set (sample_rows rs rows) \<subseteq> set rows \<and> length (sample_rows rs rows) = min (length rows) SAMPLE_SIZE"
proof -
  obtain ixs where ixs: "set ixs \<subseteq> {..<length rows}" "length ixs = min (length rows) SAMPLE_SIZE"
      "sample rs rows (length rows) SAMPLE_SIZE = map (\<lambda>i. Some (rows ! i)) ixs"
    using sample_rows_at [OF assms(2) refl] by blast
  then have e: "sample_rows rs rows = map (\<lambda>i. rows ! i) ixs" by (simp add: sample_rows_def)
  have sub: "set (sample_rows rs rows) \<subseteq> set rows" using ixs(1) by (auto simp: e subset_iff)
  moreover have "sample_rows rs rows \<noteq> []"
  proof -
    have "0 < min (length rows) SAMPLE_SIZE"
      using assms(1) by (simp add: good_data_def SAMPLE_SIZE_def BATCH_SIZE_CACHE_def)
    then have "ixs \<noteq> []" using ixs(2) by (metis length_0_conv less_irrefl)
    then show ?thesis by (simp add: e)
  qed
  ultimately show ?thesis using assms(1) ixs(2) by (auto simp: good_data_def e)
qed

lemma init_empty: "init_centroid draw path S imp [] = Some (Panic ''index out of range'')"
  by (simp add: init_centroid_def sample_rows_def sample_def kMeans_def)

text \<open>What the draws of a call have to provide for its two clusterings to go through.\<close>

definition good_draws :: "draws \<Rightarrow> nat list \<Rightarrow> nat \<Rightarrow> nat \<Rightarrow> bool" where
  "good_draws draw path n k \<longleftrightarrow>
     (n \<le> SAMPLE_SIZE \<or> intn_results n 0 (draw path 0) \<and> intn_results n 0 (draw path 2))
   \<and> (\<forall>i \<in> set (draw path 1) \<union> set (draw path 3). i < min n SAMPLE_SIZE)
   \<and> min (min n SAMPLE_SIZE) SUPERSET_MUL \<le> card (set (draw path 1))
   \<and> min (min n SAMPLE_SIZE) (k * SUPERSET_MUL) \<le> card (set (draw path 3))"

lemma init_centroid_Done:
  assumes "good_data w rows" and "good_draws draw path (length rows) k" and "sorting S"
  shows "\<exists>c. init_centroid draw path S imp rows = Some (Done c) \<and> length c = w"
proof -
  define data where "data = sample_rows (draw path 0) rows"
  have d: "good_data w data" "length data = min (length rows) SAMPLE_SIZE"
    using sample_rows_good [OF assms(1)] assms(2) by (auto simp: data_def good_draws_def)
  have "\<exists>cs. kMeans (draw path 1) S imp data 1 = Some (Done cs) \<and> length cs = 1 \<and> (\<forall>c \<in> set cs. length c = w)"
  proof (cases "length data = 1")
    case True
    then show ?thesis using d by (auto simp: kMeans_def good_data_def)
  next
    case False
    have "0 < length data" using d(1) by (auto simp: good_data_def)
    then have "1 < int (length data)" using False by linarith
    moreover have "\<forall>i \<in> set (draw path 1). i < length data"
        "min (length data) (nat 1 * SUPERSET_MUL) \<le> card (set (draw path 1))"
      using assms(2) d(2) by (auto simp: good_draws_def)
    ultimately have "\<exists>cs. kMeans (draw path 1) S imp data 1 = Some (Done cs) \<and> length cs = nat 1 \<and> (\<forall>c \<in> set cs. length c = w)"
      by (intro kMeans_Done [OF d(1) _ _ assms(3)]) simp_all
    then show ?thesis by simp
  qed
  then obtain cs where cs: "kMeans (draw path 1) S imp data 1 = Some (Done cs)" "length cs = 1" "\<forall>c \<in> set cs. length c = w"
    by blast
  then obtain c where "cs = [c]" by (auto simp: length_Suc_conv)
  then show ?thesis using cs by (simp add: init_centroid_def data_def)
qed

lemma together_panic:
  assumes "Some (Panic e) \<in> set rs"
  shows "\<exists>e'. together rs = Some (Panic e')"
proof -
  obtain r where "List.find (\<lambda>r. \<exists>e. r = Some (Panic e)) rs = Some r"
    using assms by (cases "List.find (\<lambda>r. \<exists>e. r = Some (Panic e)) rs") (auto simp: find_None_iff)
  moreover from this obtain e' where "r = Some (Panic e')" by (auto simp: find_Some_iff)
  ultimately show ?thesis by (simp add: together_def)
qed

lemma kMeans_sample_Done:
  assumes "good_data w rows" and "good_draws draw path (length rows) k" and "sorting S" and "0 < k"
    and "k < length rows" and "k < SAMPLE_SIZE"
  shows "\<exists>cs. kMeans (draw path 3) S imp (sample_rows (draw path 2) rows) (int k) = Some (Done cs)
    \<and> length cs = k \<and> good_data w cs"
proof -
  let ?data = "sample_rows (draw path 2) rows"
  have d: "good_data w ?data" "length ?data = min (length rows) SAMPLE_SIZE"
    using sample_rows_good [OF assms(1)] assms(2) by (auto simp: good_draws_def)
  have "\<exists>cs. kMeans (draw path 3) S imp ?data (int k) = Some (Done cs) \<and> length cs = nat (int k) \<and> (\<forall>c \<in> set cs. length c = w)"
    using assms(2,4-6) d(2) by (intro kMeans_Done [OF d(1) _ _ assms(3)]) (auto simp: good_draws_def)
  then show ?thesis using assms(4) d(1) by (auto simp: good_data_def)
qed

lemma split_count_bounds: "2 \<le> split_count n t" "split_count n t \<le> 5" "split_count n t < SAMPLE_SIZE"
  by (auto simp: split_count_def SPLIT_SIZE_def SAMPLE_SIZE_def BATCH_SIZE_CACHE_def)

lemma identical_rows_panic:
  assumes b: "length b = w" "8 < w" and n: "targetSize < n" "SPLIT_SIZE \<le> targetSize"
    and draws: "good_draws draw path n (split_count n targetSize)" and S: "sorting S" and c: "\<not> canceled path"
  shows "\<exists>e. divideNconquer (Suc (Suc fuel)) draw canceled S imp targetSize path (replicate n b) = Some (Panic e)"
proof -
  let ?X = "replicate n b" and ?k = "split_count n targetSize"
  have X: "good_data w ?X" using b n by (simp add: good_data_def)
  obtain c where init: "init_centroid draw path S imp ?X = Some (Done c)"
    using init_centroid_Done [OF X _ S, of draw path ?k] draws by auto
  obtain cs where cs: "kMeans (draw path 3) S imp (sample_rows (draw path 2) ?X) (int ?k) = Some (Done cs)"
      "length cs = ?k" "good_data w cs"
  proof -
    have "0 < ?k" "?k < n" "?k < SAMPLE_SIZE"
      using split_count_bounds [of n targetSize] n by (auto simp: SPLIT_SIZE_def)
    then show ?thesis using that kMeans_sample_Done [OF X _ S, of draw path ?k imp] draws by auto
  qed
  let ?subs = "map (\<lambda>j. filter (\<lambda>r. nearest_index cs r = j) ?X) [0..<?k]"
  have split: "split_dataset cs ?X = Done ?subs" using split_eq [OF cs(3) X] cs(2) by simp
  define j where "j = (if nearest_index cs b = 0 then 1 else 0 :: nat)"
  have j: "j < ?k" "nearest_index cs b \<noteq> j" using split_count_bounds(1) [of n targetSize] by (auto simp: j_def)
  then have "?subs ! j = []" by simp
  then have child: "divideNconquer (Suc fuel) draw canceled S imp targetSize (path @ [j]) (?subs ! j) =
      Some (Panic ''index out of range'')" by (simp add: init_empty)
  have "(j, ?subs ! j) \<in> set (enumerate 0 ?subs)" using j(1) by (simp add: in_set_enumerate_eq)
  then have "Some (Panic ''index out of range'') \<in> set (map (\<lambda>(i, sub). divideNconquer (Suc fuel) draw canceled S imp
      targetSize (path @ [i]) sub) (enumerate 0 ?subs))" using child by force
  from together_panic [OF this] show ?thesis
    using init cs(1) split n c by (simp del: divideNconquer.simps(2) add: divideNconquer.simps(2) [of "Suc fuel"])
qed

section \<open>The goroutines\<close>

text \<open>
  The life of the goroutines of one refresh: queued for a slot, working, and then either sending one centroid or spawning
  children, and ended. The counter of live goroutines goes up before a child starts and down at the end of each; who brings it to zero closes
  \<open>Y\<close>. Sending on a closed channel and closing it twice panic. The main goroutine always receives.
\<close>

datatype worker = Queued | Working nat | Sent | Ended

record pool =
  workers :: "worker list"
  concurrent :: int
  Y_closed :: bool
  panicked :: bool

datatype pool_event = Begin nat | SendCentroid nat | SpawnChild nat | End nat

definition pool_init :: pool where
  "pool_init = \<lparr>workers = [Queued], concurrent = 1, Y_closed = False, panicked = False\<rparr>"

definition holds_slot :: "worker \<Rightarrow> bool" where
  "holds_slot w \<longleftrightarrow> w = Sent \<or> (\<exists>k. w = Working k)"

definition slots_used :: "pool \<Rightarrow> nat" where
  "slots_used p = length (filter holds_slot (workers p))"

fun pool_enabled :: "nat \<Rightarrow> pool \<Rightarrow> pool_event \<Rightarrow> bool" where
  "pool_enabled par p (Begin i) \<longleftrightarrow> i < length (workers p) \<and> workers p ! i = Queued \<and> slots_used p < par"
| "pool_enabled par p (SendCentroid i) \<longleftrightarrow> i < length (workers p) \<and> workers p ! i = Working 0"
| "pool_enabled par p (SpawnChild i) \<longleftrightarrow> i < length (workers p) \<and> (\<exists>k. workers p ! i = Working k)"
| "pool_enabled par p (End i) \<longleftrightarrow> i < length (workers p) \<and> (workers p ! i = Sent \<or> (\<exists>k. workers p ! i = Working (Suc k)))"

fun pool_step :: "pool \<Rightarrow> pool_event \<Rightarrow> pool" where
  "pool_step p (Begin i) = p\<lparr>workers := (workers p)[i := Working 0]\<rparr>"
| "pool_step p (SendCentroid i) = p\<lparr>workers := (workers p)[i := Sent], panicked := panicked p \<or> Y_closed p\<rparr>"
| "pool_step p (SpawnChild i) =
     p\<lparr>workers := (workers p)[i := (case workers p ! i of Working k \<Rightarrow> Working (Suc k) | w \<Rightarrow> w)] @ [Queued],
       concurrent := concurrent p + 1\<rparr>"
| "pool_step p (End i) =
     (let n = concurrent p - 1
      in p\<lparr>workers := (workers p)[i := Ended], concurrent := n, Y_closed := Y_closed p \<or> n \<le> 0,
           panicked := panicked p \<or> (n \<le> 0 \<and> Y_closed p)\<rparr>)"

definition live :: "worker list \<Rightarrow> nat" where
  "live ws = length (filter (\<lambda>w. w \<noteq> Ended) ws)"

definition pool_inv :: "pool \<Rightarrow> bool" where
  "pool_inv p \<longleftrightarrow> concurrent p = int (live (workers p)) \<and> (Y_closed p \<longleftrightarrow> live (workers p) = 0) \<and> \<not> panicked p"

lemma live_update: "i < length ws \<Longrightarrow> ws ! i \<noteq> Ended \<Longrightarrow> live (ws[i := w]) = (if w = Ended then live ws - 1 else live ws)"
proof (induction ws arbitrary: i)
  case (Cons v ws)
  then show ?case
  proof (cases i)
    case (Suc j)
    then have "ws ! j \<noteq> Ended" "j < length ws" using Cons.prems by simp_all
    moreover from this have "0 < live ws" by (auto simp: live_def filter_empty_conv dest: nth_mem)
    ultimately show ?thesis using Suc Cons.IH [of j] by (auto simp: live_def)
  qed (auto simp: live_def)
qed simp

lemma live_pos: "i < length ws \<Longrightarrow> ws ! i \<noteq> Ended \<Longrightarrow> 0 < live ws"
  by (auto simp: live_def filter_empty_conv dest: nth_mem)

lemma live_append [simp]: "live (xs @ ys) = live xs + live ys"
  by (simp add: live_def)

lemma pool_inv_step:
  assumes "pool_inv p" and "pool_enabled par p e"
  shows "pool_inv (pool_step p e)"
proof (cases e)
  case (Begin i)
  then show ?thesis using assms live_update [of i "workers p" "Working 0"] by (simp add: pool_inv_def)
next
  case (SendCentroid i)
  then show ?thesis using assms live_update [of i "workers p" Sent] live_pos [of i "workers p"]
    by (simp add: pool_inv_def)
next
  case (SpawnChild i)
  then obtain k where k: "i < length (workers p)" "workers p ! i = Working k" using assms(2) by auto
  then show ?thesis using assms(1) SpawnChild live_update [of i "workers p" "Working (Suc k)"] live_pos [of i "workers p"]
    by (simp add: pool_inv_def) (simp add: live_def)
next
  case (End i)
  then have "i < length (workers p)" "workers p ! i \<noteq> Ended" using assms(2) by auto
  then show ?thesis using assms(1) End live_update [of i "workers p" Ended] live_pos [of i "workers p"]
    by (auto simp: pool_inv_def Let_def)
qed

interpretation worker_pool: invariant "pool_enabled par" pool_step pool_init "\<lambda>_. True" pool_inv for par
proof unfold_locales
  show "pool_inv pool_init" by (simp add: pool_inv_def pool_init_def live_def)
  show "pool_inv s \<Longrightarrow> pool_enabled par s e \<Longrightarrow> True \<Longrightarrow> pool_inv (pool_step s e)" for s e
    by (rule pool_inv_step)
qed

text \<open>Somebody can always move while anybody lives.\<close>

lemma pool_progress:
  assumes "0 < par" and "0 < live (workers p)"
  shows "\<exists>e. pool_enabled par p e"
proof (cases "\<exists>i < length (workers p). holds_slot (workers p ! i)")
  case True
  then obtain i where i: "i < length (workers p)" "holds_slot (workers p ! i)" by blast
  then have "pool_enabled par p (SpawnChild i) \<or> pool_enabled par p (End i)" by (auto simp: holds_slot_def)
  then show ?thesis by blast
next
  case False
  have "\<exists>i < length (workers p). workers p ! i \<noteq> Ended"
    using assms(2) by (auto simp: live_def filter_empty_conv in_set_conv_nth)
  then obtain i where i: "i < length (workers p)" "workers p ! i \<noteq> Ended" by blast
  with False have "workers p ! i = Queued" by (cases "workers p ! i") (auto simp: holds_slot_def)
  moreover have "slots_used p = 0" using False by (auto simp: slots_used_def filter_empty_conv in_set_conv_nth)
  ultimately have "pool_enabled par p (Begin i)" using i assms(1) by simp
  then show ?thesis by blast
qed


lemma slots_bound: "run (pool_enabled par) pool_step pool_init es = Some p \<Longrightarrow> slots_used p \<le> par"
proof (induction es arbitrary: p rule: rev_induct)
  case Nil
  then show ?case by (auto simp: pool_init_def slots_used_def holds_slot_def)
next
  case (snoc e es)
  then obtain q where q: "slots_used q \<le> par" "pool_enabled par q e" "p = pool_step q e"
    by (auto simp: run_snoc)
  have upd: "length (filter holds_slot (ws[i := w])) \<le>
      length (filter holds_slot ws) + (if holds_slot w \<and> \<not> holds_slot (ws ! i) then 1 else 0)"
    if "i < length ws" for ws w i
    using that
  proof (induction ws arbitrary: i)
    case (Cons v ws)
    then show ?case
    proof (cases i)
      case (Suc j)
      then show ?thesis using Cons.IH [of j] Cons.prems by (auto split: if_splits)
    qed (auto split: if_splits)
  qed simp
  show ?case
  proof (cases e)
    case (Begin i)
    then show ?thesis using q upd [of i "workers q" "Working 0"] by (auto simp: slots_used_def holds_slot_def)
  next
    case (SendCentroid i)
    then show ?thesis using q upd [of i "workers q" Sent] by (auto simp: slots_used_def holds_slot_def)
  next
    case (SpawnChild i)
    then obtain k where "i < length (workers q)" "workers q ! i = Working k" using q(2) by auto
    then show ?thesis using q SpawnChild upd [of i "workers q" "Working (Suc k)"]
      by (auto simp: slots_used_def holds_slot_def)
  next
    case (End i)
    then show ?thesis using q upd [of i "workers q" Ended] by (auto simp: slots_used_def holds_slot_def Let_def)
  qed
qed

section \<open>Properties\<close>

text \<open>
  C16: splitting a dataset by centroids loses nothing and invents nothing: there is one subset per centroid, a subset holds
  the rows whose nearest centroid it is, in the order of the file, and all subsets together are a permutation of the rows.
\<close>

theorem split_partition:
  assumes "good_data w cs" and "good_data w rows"
  shows "\<exists>subs. split_dataset cs rows = Done subs \<and> length subs = length cs
    \<and> subs = map (\<lambda>j. filter (\<lambda>r. nearest_index cs r = j) rows) [0..<length cs] \<and> mset (concat subs) = mset rows"
proof -
  have "\<forall>r \<in> set rows. nearest_index cs r < length cs" using nearest_index_less assms(1) by (auto simp: good_data_def)
  then show ?thesis using split_eq [OF assms] mset_filter_parts by auto
qed

theorem split_partition_witness:
  "\<exists>subs. split_dataset [replicate 9 1, replicate 9 2] [replicate 9 3, replicate 9 4, replicate 9 3] = Done subs
    \<and> length subs = 2 \<and> mset (concat subs) = mset [replicate 9 3, replicate 9 4, replicate 9 3 :: u8 list]"
  using split_partition [of 9 "[replicate 9 1, replicate 9 2]" "[replicate 9 3, replicate 9 4, replicate 9 3]"]
  by (auto simp: good_data_def)

text \<open>
  C30: a dataset of more than \<open>targetSize\<close> copies of one vector kills the process, whatever the random draws (they only have
  to be long enough) and the sort are: all copies go to one subset, and the first centroid of an empty one is out of range.
\<close>

theorem identical_rows_crash:
  assumes "length b = w" and "8 < w" and "targetSize < n" and "SPLIT_SIZE \<le> targetSize"
    and "good_draws draw path n (split_count n targetSize)" and "sorting S" and "\<not> canceled path"
  shows "\<exists>e. divideNconquer (Suc (Suc fuel)) draw canceled S imp targetSize path (replicate n b) = Some (Panic e)"
  using assms by (rule identical_rows_panic)

theorem identical_rows_crash_witness:
  "\<exists>e. divideNconquer 3 (\<lambda>_ _. [0..<20]) (\<lambda>_. False) insertionSort (\<lambda>_. 0) 7 [] (replicate 20 (replicate 9 1)) = Some (Panic e)"
proof -
  have "good_draws (\<lambda>_ _. [0..<20]) [] 20 (split_count 20 7)"
    by (simp add: good_draws_def split_count_def SAMPLE_SIZE_def BATCH_SIZE_CACHE_def SUPERSET_MUL_def SPLIT_SIZE_def)
  from identical_rows_crash [OF refl _ _ _ this insertionSort_sorting, of "replicate 9 1" "\<lambda>_. False" 1 "\<lambda>_. 0"]
  show ?thesis by (simp add: SPLIT_SIZE_def eval_nat_numeral del: replicate.simps divideNconquer.simps)
qed

text \<open>
  C29: whatever the order in which the goroutines of a refresh run, nobody sends on a closed channel or closes it twice, the
  channel is closed exactly when all goroutines have ended, at most \<open>par\<close> of them hold a slot, and until the end
  somebody can move.
\<close>

theorem channel_closed_once:
  assumes "run (pool_enabled par) pool_step pool_init es = Some p" and "0 < par"
  shows "\<not> panicked p \<and> (Y_closed p \<longleftrightarrow> list_all (\<lambda>w. w = Ended) (workers p)) \<and> slots_used p \<le> par
    \<and> (Y_closed p \<or> (\<exists>e. pool_enabled par p e))"
proof -
  have i: "pool_inv p" using worker_pool.run_inv [OF assms(1)] by (simp add: list_all_iff)
  have l: "live (workers p) = 0 \<longleftrightarrow> list_all (\<lambda>w. w = Ended) (workers p)"
    by (auto simp: live_def list_all_iff filter_empty_conv)
  then have "Y_closed p \<longleftrightarrow> list_all (\<lambda>w. w = Ended) (workers p)" using i by (simp add: pool_inv_def)
  moreover have "Y_closed p \<or> (\<exists>e. pool_enabled par p e)"
    using i pool_progress [OF assms(2), of p] by (cases "live (workers p) = 0") (auto simp: pool_inv_def)
  ultimately show ?thesis using i slots_bound [OF assms(1)] by (simp add: pool_inv_def)
qed

definition pool_example :: "pool_event list" where
  "pool_example = [Begin 0, SpawnChild 0, SpawnChild 0, Begin 1, SendCentroid 1, End 0, Begin 2, End 1, SendCentroid 2, End 2]"

theorem channel_closed_once_witness:
  "\<exists>p. run (pool_enabled 2) pool_step pool_init pool_example = Some p \<and> \<not> panicked p \<and> Y_closed p
    \<and> list_all (\<lambda>w. w = Ended) (workers p)"
proof -
  let ?p = "\<lparr>workers = [Ended, Ended, Ended], concurrent = 0, Y_closed = True, panicked = False\<rparr>"
  have "run (pool_enabled 2) pool_step pool_init pool_example = Some ?p"
    by (simp add: pool_example_def pool_init_def slots_used_def holds_slot_def)
  from channel_closed_once [OF this] this show ?thesis by auto
qed

end
