(* ===== verification/Refresh.thy ===== *)
theory Refresh
  imports DivideConquer Model
begin

text \<open>
  The steps of \<open>dnc/dnc.go\<close> on the rows of the database, after the new centroids of a category are known: \<open>KMeansDivideAndConquer\<close>
  gives the centroid rows their new vectors and moves every embedding to its nearest centroid,
  \<open>dropSmallCentroids\<close> gets rid of small ones, \<open>recenterDbCentroid\<close> moves each to the mean of its embeddings. A table is a list of
  rows in the order of the primary key; rows come in batches, and what \<open>Save\<close> stores for a new row (its identifier) is an argument.
\<close>

section \<open>New vectors\<close>

fun set_vectors :: "id \<Rightarrow> Centroid list \<Rightarrow> u8 list list \<Rightarrow> Centroid list" where
  "set_vectors categoryID dbCentroids [] = dbCentroids"
| "set_vectors categoryID [] (c # cs) =
     \<lparr>centroid_ID = 0, centroid_Vector = c, centroid_CategoryID = categoryID\<rparr> # set_vectors categoryID [] cs"
| "set_vectors categoryID (d # ds) (c # cs) = d\<lparr>centroid_Vector := c\<rparr> # set_vectors categoryID ds cs"

text \<open>\<open>Save\<close> updates the rows that have an identifier and inserts the others; \<open>fresh\<close> numbers the latter.\<close>

fun save_centroids :: "(nat \<Rightarrow> id) \<Rightarrow> nat \<Rightarrow> Centroid list \<Rightarrow> Centroid list" where
  "save_centroids fresh n [] = []"
| "save_centroids fresh n (d # ds) =
     (if centroid_ID d = 0 then d\<lparr>centroid_ID := fresh n\<rparr> # save_centroids fresh (Suc n) ds
      else d # save_centroids fresh n ds)"

section \<open>Moving the embeddings\<close>

text \<open>\<open>updateMap[centroidID] = append(current, update.ID)\<close>; the groups in the order in which they are created.\<close>

fun add_update :: "id \<Rightarrow> id \<Rightarrow> (id \<times> id list) list \<Rightarrow> (id \<times> id list) list" where
  "add_update c e [] = [(c, [e])]"
| "add_update c e ((c', es) # us) = (if c = c' then (c', es @ [e]) # us else (c', es) # add_update c e us)"

fun group_updates :: "id list \<Rightarrow> (nat \<times> Embedding) list \<Rightarrow> (id \<times> id list) list \<Rightarrow> (id \<times> id list) list" where
  "group_updates ids [] us = us"
| "group_updates ids ((centroidIdx, e) # rest) us =
     (if embedding_CentroidID e = ids ! centroidIdx then group_updates ids rest us
      else group_updates ids rest (add_update (ids ! centroidIdx) (embedding_ID e) us))"

text \<open>\<open>UPDATE embeddings SET centroid_id = c WHERE id IN es\<close>\<close>

definition update_where :: "id \<times> id list \<Rightarrow> Embedding list \<Rightarrow> Embedding list" where
  "update_where u tbl =
     map (\<lambda>e. if embedding_ID e \<in> set (snd u) then e\<lparr>embedding_CentroidID := fst u\<rparr> else e) tbl"

text \<open>
  One batch; \<open>order\<close> is the order in which the goroutines of the groups reach the database.
\<close>

type_synonym order = "(id \<times> id list) list \<Rightarrow> (id \<times> id list) list"

definition move_batch ::
    "order \<Rightarrow> u8 list list \<Rightarrow> id list \<Rightarrow> Embedding list \<Rightarrow> Embedding list \<Rightarrow> Embedding list outcome" where
  "move_batch order centroids ids batch tbl =
     (case NewMatrix (map embedding_Vector batch) of
        Panic e \<Rightarrow> Panic e
      | Done dataMatrix \<Rightarrow>
          (case nearest centroids [dataMatrix] of
             Panic e \<Rightarrow> Panic e
           | Done centroidIndexes \<Rightarrow>
               Done (fold update_where (order (group_updates ids (zip centroidIndexes batch) [])) tbl)))"

fun move_batches ::
    "order \<Rightarrow> u8 list list \<Rightarrow> id list \<Rightarrow> Embedding list list \<Rightarrow> Embedding list \<Rightarrow> Embedding list outcome" where
  "move_batches order centroids ids [] tbl = Done tbl"
| "move_batches order centroids ids (b # bs) tbl =
     (case move_batch order centroids ids b tbl of
        Panic e \<Rightarrow> Panic e | Done tbl' \<Rightarrow> move_batches order centroids ids bs tbl')"

definition reassign ::
    "order \<Rightarrow> (Embedding \<Rightarrow> bool) \<Rightarrow> u8 list list \<Rightarrow> Centroid list \<Rightarrow> Embedding list \<Rightarrow> Embedding list outcome" where
  "reassign order in_category centroids dbCentroids tbl =
     move_batches order centroids (map centroid_ID dbCentroids) (chunks BATCH_SIZE_DATABASE (filter in_category tbl)) tbl"

text \<open>The three steps in a row: the centroids of the category and all embeddings.\<close>

definition refresh_rows ::
    "(nat \<Rightarrow> id) \<Rightarrow> order \<Rightarrow> id \<Rightarrow> (Embedding \<Rightarrow> bool) \<Rightarrow> u8 list list \<Rightarrow> Centroid list \<Rightarrow> Embedding list \<Rightarrow>
      (Centroid list \<times> Embedding list) outcome" where
  "refresh_rows fresh order categoryID in_category centroids dbCentroids tbl =
     (let saved = save_centroids fresh 0 (set_vectors categoryID dbCentroids centroids)
      in case reassign order in_category centroids saved tbl of
           Panic e \<Rightarrow> Panic e | Done tbl' \<Rightarrow> Done (saved, tbl'))"

section \<open>Dropping small centroids\<close>

record small_result =
  r_ID :: id
  r_Vector :: "u8 list"
  r_Total :: nat

definition by_total :: "small_result \<Rightarrow> small_result \<Rightarrow> int" where
  "by_total a b = (if r_Total a < r_Total b then -1 else if r_Total b < r_Total a then 1 else 0)"

text \<open>The rows before the first small one are old, the others stay.\<close>

fun cut_small :: "small_result list \<Rightarrow> small_result list \<Rightarrow> small_result list \<Rightarrow> small_result list \<times> small_result list" where
  "cut_small results seen [] = ([], results)"
| "cut_small results seen (r # rs) =
     (if r_Total r < CENTROID_SIZE div 10 then (seen, drop (length seen) results)
      else cut_small results (seen @ [r]) rs)"

type_synonym small_sort = "(small_result \<Rightarrow> small_result \<Rightarrow> int) \<Rightarrow> small_result list \<Rightarrow> small_result list"

text \<open>The embeddings of an old centroid, batch by batch: \<open>centroid_id\<close> becomes the index of the nearest centroid.\<close>

fun all_updates :: "(nat \<times> Embedding) list \<Rightarrow> (id \<times> id list) list \<Rightarrow> (id \<times> id list) list" where
  "all_updates [] us = us"
| "all_updates ((centroidId, e) # rest) us = all_updates rest (add_update centroidId (embedding_ID e) us)"

fun drop_batches :: "order \<Rightarrow> u8 list list \<Rightarrow> Embedding list list \<Rightarrow> Embedding list \<Rightarrow> Embedding list outcome" where
  "drop_batches order centroids [] tbl = Done tbl"
| "drop_batches order centroids (b # bs) tbl =
     (case NewMatrix (map embedding_Vector b) of
        Panic e \<Rightarrow> Panic e
      | Done dataMatrix \<Rightarrow>
          (case nearest centroids [dataMatrix] of
             Panic e \<Rightarrow> Panic e
           | Done centroidIds \<Rightarrow>
               drop_batches order centroids bs (fold update_where (order (all_updates (zip centroidIds b) [])) tbl)))"

fun drop_all :: "order \<Rightarrow> u8 list list \<Rightarrow> small_result list \<Rightarrow> Embedding list \<Rightarrow> Embedding list outcome" where
  "drop_all order centroids [] tbl = Done tbl"
| "drop_all order centroids (old # olds) tbl =
     (case drop_batches order centroids
             (chunks BATCH_SIZE_DATABASE (filter (\<lambda>e. embedding_CentroidID e = r_ID old) tbl)) tbl of
        Panic e \<Rightarrow> Panic e | Done tbl' \<Rightarrow> drop_all order centroids olds tbl')"

definition dropSmallCentroids ::
    "order \<Rightarrow> small_sort \<Rightarrow> small_result list \<Rightarrow> Embedding list \<Rightarrow> Embedding list outcome" where
  "dropSmallCentroids order SortFunc results tbl =
     (if length results \<le> 1 then Done tbl
      else let ordered = SortFunc by_total results;
               (oldCentroids, kept) = cut_small ordered [] (butlast ordered);
               centroids = map r_Vector kept
           in case NewMatrix centroids of
                Panic e \<Rightarrow> Panic e | Done _ \<Rightarrow> drop_all order centroids oldCentroids tbl)"

section \<open>Recentering\<close>

definition add64 :: "fl list \<Rightarrow> fl list \<Rightarrow> fl list" where
  "add64 sumv vec = map2 (fl_add F64) sumv vec @ drop (length vec) sumv"

fun sum_vectors :: "fl list \<Rightarrow> nat \<Rightarrow> u8 list list \<Rightarrow> (fl list \<times> nat) outcome" where
  "sum_vectors dataSum cnt [] = Done (dataSum, cnt)"
| "sum_vectors dataSum cnt (bs # rest) =
     (case DequantizeVector F64 bs of
        Panic e \<Rightarrow> Panic e
      | Done vec \<Rightarrow>
          (if length dataSum < length vec then Panic ''index out of range''
           else sum_vectors (add64 dataSum vec) (Suc cnt) rest))"

definition recenterDbCentroid :: "(fl \<Rightarrow> u8) \<Rightarrow> Centroid \<Rightarrow> Embedding list \<Rightarrow> Centroid outcome" where
  "recenterDbCentroid imp centroid tbl =
     (case DequantizeVector F64 (centroid_Vector centroid) of
        Panic e \<Rightarrow> Panic e
      | Done old \<Rightarrow>
          (case sum_vectors (replicate (length old) (Fin 0)) 0
                  (map embedding_Vector (filter (\<lambda>e. embedding_CentroidID e = centroid_ID centroid) tbl)) of
             Panic e \<Rightarrow> Panic e
           | Done (dataSum, cnt) \<Rightarrow>
               Done (centroid\<lparr>centroid_Vector :=
                 QuantizeVector imp F64 (map (\<lambda>v. fl_div F64 v (mk F64 (of_nat cnt))) dataSum)\<rparr>)))"

section \<open>Updates of one batch\<close>

definition assigned :: "(id \<times> id list) list \<Rightarrow> id \<Rightarrow> id \<Rightarrow> bool" where
  "assigned us x c \<longleftrightarrow> (\<exists>es. (c, es) \<in> set us \<and> x \<in> set es)"

lemma assigned_Nil [simp]: "\<not> assigned [] x c"
  by (simp add: assigned_def)

lemma assigned_Cons [simp]: "assigned ((c, es) # us) x c' \<longleftrightarrow> (c' = c \<and> x \<in> set es) \<or> assigned us x c'"
  by (auto simp: assigned_def)

lemma assigned_add: "assigned (add_update c e us) x c' \<longleftrightarrow> assigned us x c' \<or> (x = e \<and> c' = c)"
  by (induction c e us rule: add_update.induct) auto

lemma assigned_group:
  "assigned (group_updates ids ps us) x c \<longleftrightarrow>
     assigned us x c \<or> (\<exists>(k, e) \<in> set ps. embedding_ID e = x \<and> ids ! k = c \<and> embedding_CentroidID e \<noteq> c)"
  by (induction ids ps us rule: group_updates.induct) (auto simp: assigned_add)

lemma fold_update_where:
  "fold update_where us tbl = map (\<lambda>e. fold (\<lambda>u e. if embedding_ID e \<in> set (snd u) then e\<lparr>embedding_CentroidID := fst u\<rparr> else e) us e) tbl"
  by (induction us arbitrary: tbl) (simp_all add: update_where_def)

lemma fold_update_row:
  assumes "\<forall>c. assigned us (embedding_ID e) c \<longrightarrow> c = t"
  shows "fold (\<lambda>u e. if embedding_ID e \<in> set (snd u) then e\<lparr>embedding_CentroidID := fst u\<rparr> else e) us e =
    (if \<exists>c. assigned us (embedding_ID e) c then e\<lparr>embedding_CentroidID := t\<rparr> else e)"
  using assms
proof (induction us arbitrary: e)
  case Nil
  then show ?case by (simp add: assigned_def)
next
  case (Cons u us)
  obtain c es where u: "u = (c, es)" by force
  have a: "assigned (u # us) x c' \<longleftrightarrow> assigned us x c' \<or> (c' = c \<and> x \<in> set es)" for x c'
    by (auto simp: u assigned_def)
  show ?case
  proof (cases "embedding_ID e \<in> set es")
    case True
    then have "c = t" using Cons.prems a by blast
    moreover have "\<forall>c'. assigned us (embedding_ID (e\<lparr>embedding_CentroidID := c\<rparr>)) c' \<longrightarrow> c' = t" using Cons.prems a by simp
    ultimately show ?thesis using Cons.IH [of "e\<lparr>embedding_CentroidID := c\<rparr>"] True a u by auto
  next
    case False
    then show ?thesis using Cons.IH [of e] Cons.prems a u by auto
  qed
qed

text \<open>The row of an embedding whose vector is nearest to the \<open>k\<close>-th new centroid.\<close>

definition moved :: "u8 list list \<Rightarrow> id list \<Rightarrow> Embedding \<Rightarrow> Embedding" where
  "moved centroids ids e = e\<lparr>embedding_CentroidID := ids ! nearest_index centroids (embedding_Vector e)\<rparr>"

lemma moved_same [simp]: "embedding_ID (moved cs ids e) = embedding_ID e" "embedding_Vector (moved cs ids e) = embedding_Vector e"
  by (simp_all add: moved_def)

lemma distinct_ids_eq: "distinct (map embedding_ID tbl) \<Longrightarrow> a \<in> set tbl \<Longrightarrow> b \<in> set tbl \<Longrightarrow> embedding_ID a = embedding_ID b \<Longrightarrow> a = b"
  by (simp add: distinct_map inj_on_def)

lemma nearest_matrix:
  assumes "good_data w cs" and "good_data w vs" and "NewMatrix vs = Done m"
  shows "nearest cs [m] = Done (map (nearest_index cs) vs)"
proof -
  have v: "vs \<noteq> []" "\<forall>b \<in> set vs. length b = w" using assms(2) by (simp_all add: good_data_def)
  then have "chunks (length vs) vs = [vs]" by (simp add: chunks.simps [of "length vs" vs])
  then have "chunkData vs (length vs) = Done [m]" using assms(3) by (simp add: chunkData_def)
  then show ?thesis using nearest_eq [OF assms(1) v(2)] v(1) by simp
qed

lemma move_batch_eq:
  assumes cs: "good_data w cs" and b: "good_data w (map embedding_Vector b)"
    and order: "\<forall>us. mset (order us) = mset us"
    and same: "\<forall>e \<in> set tbl. embedding_ID e \<in> embedding_ID ` set b \<longrightarrow> e \<in> set b" and ids: "distinct (map embedding_ID b)"
  shows "move_batch order cs ids b tbl =
    Done (map (\<lambda>e. if embedding_ID e \<in> embedding_ID ` set b then moved cs ids e else e) tbl)"
proof -
  obtain m where m: "NewMatrix (map embedding_Vector b) = Done m" using NewMatrix_good [OF b] by blast
  let ?idx = "map (\<lambda>e. nearest_index cs (embedding_Vector e)) b"
  have n: "nearest cs [m] = Done ?idx" using nearest_matrix [OF cs b m] by (simp add: comp_def)
  let ?us = "order (group_updates ids (zip ?idx b) [])"
  have z: "zip ?idx b = map (\<lambda>e. (nearest_index cs (embedding_Vector e), e)) b" by (induction b) simp_all
  have "set ?us = set (group_updates ids (zip ?idx b) [])" using order by (metis set_mset_mset)
  then have "assigned ?us x c \<longleftrightarrow> assigned (group_updates ids (zip ?idx b) []) x c" for x c by (simp add: assigned_def)
  then have a: "assigned ?us x c \<longleftrightarrow> (\<exists>e \<in> set b. embedding_ID e = x \<and> ids ! nearest_index cs (embedding_Vector e) = c
      \<and> embedding_CentroidID e \<noteq> c)" for x c
    by (simp add: assigned_group z)
  have row: "fold (\<lambda>u e. if embedding_ID e \<in> set (snd u) then e\<lparr>embedding_CentroidID := fst u\<rparr> else e) ?us e =
      (if embedding_ID e \<in> embedding_ID ` set b then moved cs ids e else e)" if e: "e \<in> set tbl" for e
  proof (cases "embedding_ID e \<in> embedding_ID ` set b")
    case True
    then have "e \<in> set b" using same e by blast
    then have a': "assigned ?us (embedding_ID e) c \<longleftrightarrow>
        ids ! nearest_index cs (embedding_Vector e) = c \<and> embedding_CentroidID e \<noteq> c" for c
      unfolding a using distinct_ids_eq [OF ids] by metis
    then have f: "\<forall>c. assigned ?us (embedding_ID e) c \<longrightarrow> c = ids ! nearest_index cs (embedding_Vector e)" by simp
    show ?thesis unfolding fold_update_row [OF f] using True by (auto simp: a' moved_def)
  next
    case False
    then have f: "\<forall>c. \<not> assigned ?us (embedding_ID e) c" unfolding a by (metis imageI)
    then show ?thesis using False fold_update_row [of ?us e 0] by simp
  qed
  have "fold update_where ?us tbl = map (\<lambda>e. if embedding_ID e \<in> embedding_ID ` set b then moved cs ids e else e) tbl"
    unfolding fold_update_where by (rule map_cong [OF refl]) (rule row)
  then show ?thesis by (simp add: move_batch_def m n)
qed

lemma move_batches_eq:
  assumes cs: "good_data w cs" and b: "\<forall>b \<in> set bs. good_data w (map embedding_Vector b)"
    and order: "\<forall>us. mset (order us) = mset us"
    and same: "\<forall>e \<in> set tbl. embedding_ID e \<in> embedding_ID ` set (concat bs) \<longrightarrow> e \<in> set (concat bs)"
    and ids: "distinct (map embedding_ID (concat bs))"
  shows "move_batches order cs ids bs tbl =
    Done (map (\<lambda>e. if embedding_ID e \<in> embedding_ID ` set (concat bs) then moved cs ids e else e) tbl)"
  using b same ids
proof (induction bs arbitrary: tbl)
  case (Cons b bs)
  let ?tbl = "map (\<lambda>e. if embedding_ID e \<in> embedding_ID ` set b then moved cs ids e else e) tbl"
  have dis: "embedding_ID ` set b \<inter> embedding_ID ` set (concat bs) = {}" using Cons.prems(3) by auto
  have sb: "\<forall>e \<in> set tbl. embedding_ID e \<in> embedding_ID ` set b \<longrightarrow> e \<in> set b"
  proof (intro ballI impI)
    fix e assume e: "e \<in> set tbl" "embedding_ID e \<in> embedding_ID ` set b"
    then have "e \<in> set (concat (b # bs))" using Cons.prems(2) by auto
    moreover have "e \<notin> set (concat bs)" using e(2) dis by blast
    ultimately show "e \<in> set b" by simp
  qed
  have st: "\<forall>e \<in> set ?tbl. embedding_ID e \<in> embedding_ID ` set (concat bs) \<longrightarrow> e \<in> set (concat bs)"
  proof (intro ballI impI)
    fix e' assume e': "e' \<in> set ?tbl" "embedding_ID e' \<in> embedding_ID ` set (concat bs)"
    then obtain e where e: "e \<in> set tbl" "e' = (if embedding_ID e \<in> embedding_ID ` set b then moved cs ids e else e)"
      unfolding set_map by blast
    then have i: "embedding_ID e \<in> embedding_ID ` set (concat bs)" using e'(2) by (simp split: if_splits)
    then have nb: "embedding_ID e \<notin> embedding_ID ` set b" using dis by blast
    moreover have "e \<in> set (concat (b # bs))" using Cons.prems(2) e(1) i by auto
    ultimately show "e' \<in> set (concat bs)" using e(2) by auto
  qed
  have mb: "move_batch order cs ids b tbl = Done ?tbl"
    using Cons.prems sb by (intro move_batch_eq [OF cs _ order]) auto
  have "move_batches order cs ids bs ?tbl =
      Done (map (\<lambda>e. if embedding_ID e \<in> embedding_ID ` set (concat bs) then moved cs ids e else e) ?tbl)"
    using Cons.prems st by (intro Cons.IH) auto
  moreover have "map (\<lambda>e. if embedding_ID e \<in> embedding_ID ` set (concat bs) then moved cs ids e else e) ?tbl =
      map (\<lambda>e. if embedding_ID e \<in> embedding_ID ` set (concat (b # bs)) then moved cs ids e else e) tbl"
    using dis by (auto simp: image_iff)
  ultimately show ?case using mb by simp
qed simp


section \<open>Properties\<close>

lemma set_vectors_length: "length (set_vectors c ds cs) = max (length ds) (length cs)"
  by (induction c ds cs rule: set_vectors.induct) simp_all

lemma set_vectors_nth: "i < length cs \<Longrightarrow> centroid_Vector (set_vectors c ds cs ! i) = cs ! i"
  by (induction c ds cs arbitrary: i rule: set_vectors.induct) (auto simp: nth_Cons')

lemma set_vectors_rest: "length cs \<le> i \<Longrightarrow> i < length ds \<Longrightarrow> set_vectors c ds cs ! i = ds ! i"
  by (induction c ds cs arbitrary: i rule: set_vectors.induct) (auto simp: nth_Cons')

lemma save_centroids_length [simp]: "length (save_centroids fresh n ds) = length ds"
  by (induction fresh n ds rule: save_centroids.induct) simp_all

lemma save_centroids_vector: "i < length ds \<Longrightarrow> centroid_Vector (save_centroids fresh n ds ! i) = centroid_Vector (ds ! i)"
  by (induction fresh n ds arbitrary: i rule: save_centroids.induct) (auto simp: nth_Cons')

lemma saved_vector:
  "i < length cs \<Longrightarrow> centroid_Vector (save_centroids fresh n (set_vectors c ds cs) ! i) = cs ! i"
  by (simp add: save_centroids_vector set_vectors_length set_vectors_nth)

lemma reassign_eq:
  assumes cs: "good_data w cs" and v: "\<forall>e \<in> set tbl. in_category e \<longrightarrow> length (embedding_Vector e) = w"
    and ids: "distinct (map embedding_ID tbl)" and order: "\<forall>us. mset (order us) = mset us"
  shows "reassign order in_category cs ds tbl = Done (map (\<lambda>e. if in_category e then moved cs (map centroid_ID ds) e else e) tbl)"
proof -
  let ?rows = "filter in_category tbl"
  let ?bs = "chunks BATCH_SIZE_DATABASE ?rows"
  have n: "0 < BATCH_SIZE_DATABASE" by (simp add: BATCH_SIZE_DATABASE_def)
  have c: "concat ?bs = ?rows" by (rule chunks_concat [OF n])
  have b: "\<forall>b \<in> set ?bs. good_data w (map embedding_Vector b)"
  proof
    fix b assume "b \<in> set ?bs"
    then have "b \<noteq> []" "set b \<subseteq> set ?rows" using chunks_not_empty chunks_parts [OF n] by blast+
    then show "good_data w (map embedding_Vector b)" using cs v by (auto simp: good_data_def)
  qed
  have d: "distinct (map embedding_ID ?rows)" using ids by (rule distinct_map_filter)
  have same: "embedding_ID e \<in> embedding_ID ` set ?rows \<longleftrightarrow> in_category e" if "e \<in> set tbl" for e
    using that distinct_ids_eq [OF ids] by auto
  have "move_batches order cs (map centroid_ID ds) ?bs tbl = Done (map (\<lambda>e. if embedding_ID e \<in> embedding_ID ` set (concat ?bs)
      then moved cs (map centroid_ID ds) e else e) tbl)"
    using same by (intro move_batches_eq [OF cs b order]) (auto simp: c d)
  also have "map (\<lambda>e. if embedding_ID e \<in> embedding_ID ` set (concat ?bs) then moved cs (map centroid_ID ds) e else e) tbl =
      map (\<lambda>e. if in_category e then moved cs (map centroid_ID ds) e else e) tbl"
    unfolding c using same by (intro map_cong [OF refl]) simp
  finally show ?thesis by (simp add: reassign_def)
qed

lemma refresh_rows_eq:
  assumes "good_data w cs" and "\<forall>e \<in> set tbl. in_category e \<longrightarrow> length (embedding_Vector e) = w"
    and "distinct (map embedding_ID tbl)" and "\<forall>us. mset (order us) = mset us"
  shows "\<exists>saved. refresh_rows fresh order c in_category cs ds tbl =
      Done (saved, map (\<lambda>e. if in_category e then moved cs (map centroid_ID saved) e else e) tbl)
    \<and> length saved = max (length ds) (length cs) \<and> map centroid_Vector (take (length cs) saved) = cs"
proof -
  let ?s = "save_centroids fresh 0 (set_vectors c ds cs)"
  have "map centroid_Vector (take (length cs) ?s) = cs"
    by (rule nth_equalityI) (simp_all add: set_vectors_length saved_vector)
  then show ?thesis using reassign_eq [OF assms, of ?s]
    by (intro exI [of _ ?s]) (simp add: refresh_rows_def set_vectors_length Let_def)
qed

text \<open>
  after the refresh of the rows there is a centroid row for every new centroid, in order and with its vector, and every embedding of the
  category points to the row of the new centroid nearest to it, whatever the order in which the updates of a batch
  reach the database; no other embedding changes.
\<close>

theorem embeddings_follow_new_centroids:
  assumes "good_data w cs" and "\<forall>e \<in> set tbl. in_category e \<longrightarrow> length (embedding_Vector e) = w"
    and "distinct (map embedding_ID tbl)" and "\<forall>us. mset (order us) = mset us"
  shows "\<exists>saved. refresh_rows fresh order c in_category cs ds tbl =
      Done (saved, map (\<lambda>e. if in_category e
        then e\<lparr>embedding_CentroidID := centroid_ID (saved ! nearest_index cs (embedding_Vector e))\<rparr> else e) tbl)
    \<and> length saved = max (length ds) (length cs) \<and> map centroid_Vector (take (length cs) saved) = cs"
proof -
  obtain saved where s: "refresh_rows fresh order c in_category cs ds tbl =
      Done (saved, map (\<lambda>e. if in_category e then moved cs (map centroid_ID saved) e else e) tbl)"
      "length saved = max (length ds) (length cs)" "map centroid_Vector (take (length cs) saved) = cs"
    using refresh_rows_eq [OF assms] by blast
  have "nearest_index cs v < length saved" for v
    using nearest_index_less [of cs v] assms(1) s(2) by (auto simp: good_data_def)
  then have "moved cs (map centroid_ID saved) e =
      e\<lparr>embedding_CentroidID := centroid_ID (saved ! nearest_index cs (embedding_Vector e))\<rparr>" for e
    by (simp add: moved_def)
  then show ?thesis using s by auto
qed

definition refresh_example :: "Embedding list" where
  "refresh_example =
     [\<lparr>embedding_ID = 1, embedding_Vector = replicate 9 3, embedding_DocumentID = 1, embedding_CentroidID = 7\<rparr>,
      \<lparr>embedding_ID = 2, embedding_Vector = replicate 9 4, embedding_DocumentID = 2, embedding_CentroidID = 8\<rparr>]"

theorem embeddings_follow_new_centroids_witness:
  "\<exists>saved tbl. refresh_rows Suc rev 5 (\<lambda>e. embedding_DocumentID e = 1) [replicate 9 1, replicate 9 2] [] refresh_example =
      Done (saved, tbl) \<and> map centroid_Vector saved = [replicate 9 1, replicate 9 2]"
proof -
  have g: "good_data 9 [replicate 9 1, replicate 9 2]" by (simp add: good_data_def)
  have "\<forall>e \<in> set refresh_example. embedding_DocumentID e = 1 \<longrightarrow> length (embedding_Vector e) = 9"
      "distinct (map embedding_ID refresh_example)"
    by (simp_all add: refresh_example_def)
  from embeddings_follow_new_centroids [OF g this, of rev Suc 5 "[]"] show ?thesis by auto
qed

section \<open>Small and surplus centroids\<close>

lemma go_ordering_by_total: "go_ordering by_total"
  unfolding go_ordering_def by_total_def by auto

lemma cut_small_none:
  assumes "sorted_wrt (\<lambda>a b. by_total a b \<le> 0) (seen @ rs)" and "\<forall>r \<in> set seen. \<not> r_Total r < CENTROID_SIZE div 10"
  shows "cut_small results seen rs = ([], results)"
  using assms
proof (induction rs arbitrary: seen)
  case (Cons r rs)
  show ?case
  proof (cases "r_Total r < CENTROID_SIZE div 10")
    case True
    have "\<forall>s \<in> set seen. by_total s r \<le> 0" using Cons.prems(1) by (simp add: sorted_wrt_append)
    then have "\<forall>s \<in> set seen. r_Total s \<le> r_Total r" by (auto simp: by_total_def split: if_splits)
    then have "seen = []" using Cons.prems(2) True by (cases seen) auto
    then show ?thesis using True by simp
  next
    case False
    then show ?thesis using Cons.IH [of "seen @ [r]"] Cons.prems by simp
  qed
qed simp

lemma cut_small_sorted:
  assumes "sorting S"
  shows "cut_small (S by_total results) [] (butlast (S by_total results)) = ([], S by_total results)"
    and "mset (S by_total results) = mset results"
proof -
  have s: "sorted_wrt (\<lambda>a b. by_total a b \<le> 0) (S by_total results)" "mset (S by_total results) = mset results"
    using assms go_ordering_by_total by (simp_all add: sorting_def)
  have "sorted_wrt (\<lambda>a b. by_total a b \<le> 0) (butlast (S by_total results))"
    using s(1) by (metis append_butlast_last_id butlast.simps(1) sorted_wrt_append)
  then show "cut_small (S by_total results) [] (butlast (S by_total results)) = ([], S by_total results)"
    by (intro cut_small_none) simp_all
  show "mset (S by_total results) = mset results" by (rule s(2))
qed

text \<open>
  dropping small centroids never drops one: the rows are sorted by size before the loop looks for the first small one,
  and the old ones are those before it, so there is never any. The embeddings stay as they are.
\<close>

theorem small_centroids_stay:
  assumes "sorting S" and "good_data w (map r_Vector results)"
  shows "dropSmallCentroids order S results tbl = Done tbl"
proof -
  note c = cut_small_sorted [OF assms(1), of results]
  have "set (S by_total results) = set results" using c(2) by (metis set_mset_mset)
  moreover from this have "S by_total results \<noteq> []" using assms(2) by (auto simp: good_data_def)
  ultimately have "good_data w (map r_Vector (S by_total results))" using assms(2) by (auto simp: good_data_def)
  then obtain m where "NewMatrix (map r_Vector (S by_total results)) = Done m" using NewMatrix_good by blast
  then show ?thesis using c(1) by (simp add: dropSmallCentroids_def Let_def)
qed

theorem small_centroids_stay_witness:
  "dropSmallCentroids rev insertionSort
     [\<lparr>r_ID = 1, r_Vector = replicate 9 1, r_Total = 900\<rparr>, \<lparr>r_ID = 2, r_Vector = replicate 9 2, r_Total = 3\<rparr>] refresh_example
   = Done refresh_example"
  by (rule small_centroids_stay [OF insertionSort_sorting, of 9]) (simp add: good_data_def)

lemma rangeFloat_NaN: "rangeFloat (replicate n NaN) = (Fin 0, Fin 0)"
proof -
  have "rangeFloat_from a b (replicate n NaN) = (a, b)" for a b
    by (induction n) (simp_all add: fl_less_def)
  then show ?thesis by (simp add: rangeFloat_def)
qed

lemma zero_header:
  "DequantizeVector F64 (PutUint32 (Float32bits (Fin 0)) @ PutUint32 (Float32bits (Fin 0)) @ bs) =
    Done (map (\<lambda>q. Dequantize F64 q (Fin 0) (Fin 0)) bs)"
proof -
  let ?z = "PutUint32 (Float32bits (Fin 0))"
  have "drop 4 (?z @ ?z @ bs) = ?z @ bs" "drop 8 (?z @ ?z @ bs) = bs" by simp_all
  moreover have "fl_conv F64 (Float32frombits (Float32bits (Fin 0))) = Fin 0"
    unfolding Float32frombits_bits [OF representable_0] by (rule fl_conv_Fin [OF representable_0])
  ultimately show ?thesis by (simp add: DequantizeVector_def Let_def del: fl_conv.simps)
qed

lemma QuantizeVector_NaN:
  "DequantizeVector F64 (QuantizeVector imp F64 (replicate n NaN)) = Done (replicate n (Fin 0))"
proof -
  have "fl_conv F32 (Fin 0) = Fin 0" by (rule fl_conv_Fin [OF representable_0])
  then have "QuantizeVector imp F64 (replicate n NaN) = PutUint32 (Float32bits (Fin 0)) @ PutUint32 (Float32bits (Fin 0)) @
      replicate n (Quantize imp F64 NaN (Fin 0) (Fin 0))"
    by (simp only: QuantizeVector_def rangeFloat_NaN prod.case Let_def map_replicate)
  then show ?thesis by (simp add: zero_header map_replicate Dequantize_zero)
qed

lemma recenter_without_embeddings:
  assumes "8 \<le> length (centroid_Vector d)" and "\<forall>e \<in> set tbl. embedding_CentroidID e \<noteq> centroid_ID d"
  shows "\<exists>c. recenterDbCentroid imp d tbl = Done c
    \<and> DequantizeVector F64 (centroid_Vector c) = Done (replicate (length (centroid_Vector d) - 8) (Fin 0))"
proof -
  obtain ws where w: "DequantizeVector F64 (centroid_Vector d) = Done ws" "length ws = length (centroid_Vector d) - 8"
    using DequantizeVector_long [OF assms(1)] by blast
  have "filter (\<lambda>e. embedding_CentroidID e = centroid_ID d) tbl = []" using assms(2) by (simp add: filter_empty_conv)
  moreover have "fl_div F64 (Fin 0) (mk F64 0) = NaN" by (simp add: fl_div_def)
  ultimately show ?thesis using w by (simp add: recenterDbCentroid_def map_replicate QuantizeVector_NaN)
qed

text \<open>
  C31: a centroid row that got no new vector, because the new centroids are fewer than the rows, is ruined by the refresh: all
  embeddings move to the others, its mean is then \<open>0/0\<close>, and the vector stored for it reads back as the zero vector.
\<close>

theorem surplus_centroid_zeroed:
  assumes "good_data w cs" and "\<forall>e \<in> set tbl. in_category e \<longrightarrow> length (embedding_Vector e) = w"
    and "distinct (map embedding_ID tbl)" and "\<forall>us. mset (order us) = mset us"
    and "refresh_rows fresh order c in_category cs ds tbl = Done (saved, tbl')"
    and "length cs \<le> i" and "i < length saved" and "distinct (map centroid_ID saved)"
    and "8 \<le> length (centroid_Vector (saved ! i))"
    and "\<forall>e \<in> set tbl. \<not> in_category e \<longrightarrow> embedding_CentroidID e \<noteq> centroid_ID (saved ! i)"
  shows "\<exists>d. recenterDbCentroid imp (saved ! i) tbl' = Done d
    \<and> DequantizeVector F64 (centroid_Vector d) = Done (replicate (length (centroid_Vector (saved ! i)) - 8) (Fin 0))"
proof -
  have tbl': "tbl' = map (\<lambda>e. if in_category e then moved cs (map centroid_ID saved) e else e) tbl"
    using refresh_rows_eq [OF assms(1-4), of fresh c ds] assms(5) by auto
  have n: "nearest_index cs v < length cs" for v using nearest_index_less assms(1) by (auto simp: good_data_def)
  have "map centroid_ID saved ! nearest_index cs v \<noteq> centroid_ID (saved ! i)" for v
    using nth_eq_iff_index_eq [OF assms(8), of "nearest_index cs v" i] n [of v] assms(6,7) by simp
  then have "\<forall>e \<in> set tbl'. embedding_CentroidID e \<noteq> centroid_ID (saved ! i)"
    using assms(10) by (auto simp: tbl' moved_def)
  then show ?thesis by (rule recenter_without_embeddings [OF assms(9)])
qed

theorem surplus_centroid_zeroed_witness:
  "\<exists>saved tbl' d. refresh_rows Suc id 5 (\<lambda>_. True) [replicate 9 3]
        [\<lparr>centroid_ID = 7, centroid_Vector = replicate 9 1, centroid_CategoryID = 5\<rparr>,
         \<lparr>centroid_ID = 8, centroid_Vector = replicate 9 2, centroid_CategoryID = 5\<rparr>] refresh_example = Done (saved, tbl')
    \<and> map centroid_ID saved = [7, 8] \<and> tbl' = map (\<lambda>e. e\<lparr>embedding_CentroidID := 7\<rparr>) refresh_example
    \<and> recenterDbCentroid (\<lambda>_. 0) (saved ! 1) tbl' = Done d \<and> DequantizeVector F64 (centroid_Vector d) = Done [Fin 0]"
proof -
  let ?ds = "[\<lparr>centroid_ID = 7, centroid_Vector = replicate 9 1, centroid_CategoryID = 5\<rparr>,
    \<lparr>centroid_ID = 8, centroid_Vector = replicate 9 2, centroid_CategoryID = 5\<rparr>]"
  let ?saved = "[\<lparr>centroid_ID = 7, centroid_Vector = replicate 9 3, centroid_CategoryID = 5\<rparr>,
    \<lparr>centroid_ID = 8, centroid_Vector = replicate 9 2, centroid_CategoryID = 5\<rparr>]"
  have g: "good_data 9 [replicate 9 3]" by (simp add: good_data_def)
  have e: "\<forall>e \<in> set refresh_example. True \<longrightarrow> length (embedding_Vector e) = 9" "distinct (map embedding_ID refresh_example)"
    by (simp_all add: refresh_example_def)
  obtain saved where r: "refresh_rows Suc id 5 (\<lambda>_. True) [replicate 9 3] ?ds refresh_example =
      Done (saved, map (\<lambda>e. if True then moved [replicate 9 3] (map centroid_ID saved) e else e) refresh_example)"
    using refresh_rows_eq [OF g e, of id Suc 5 ?ds] by auto
  then have saved: "saved = ?saved" by (auto simp: refresh_rows_def Let_def split: outcome.splits)
  have "nearest_index [replicate 9 3] v = 0" for v using nearest_index_less [of "[replicate 9 3]" v] by simp
  then have m: "map (moved [replicate 9 3] [7, 8]) refresh_example = map (\<lambda>e. e\<lparr>embedding_CentroidID := 7\<rparr>) refresh_example"
    by (simp add: moved_def)
  from surplus_centroid_zeroed [OF g e _ r, of 1 "\<lambda>_. 0"] show ?thesis using r by (simp add: m saved)
qed

end
