(* ===== verification/Ranking.thy ===== *)
theory Ranking
  imports Cosine GoSort Model
begin

text \<open>
  The part of \<open>Search\<close> in \<open>server/search.go\<close> that does not touch the database: the clamps on the request, the centroids
  nearest to the query, and the list of hits that is extended, sorted, freed of duplicates and cut for every batch of embeddings.
  The specification is the list of best documents of all embeddings at once (\<open>top_hits\<close>), which does not know of batches.
\<close>

section \<open>The request\<close>

definition MaxInt :: int where "MaxInt = 2 ^ 63 - 1"

definition uint64_add :: "nat \<Rightarrow> nat \<Rightarrow> nat" where
  "uint64_add a b = (a + b) mod 2 ^ 64"

definition clamp_count :: "nat \<Rightarrow> nat" where
  "clamp_count n = max 1 (min n 20)"

definition clamp_centroids :: "int \<Rightarrow> int" where
  "clamp_centroids n = (if n = 0 then 1 else if n < 0 then MaxInt else n)"

section \<open>Nearest centroids\<close>

text \<open>
  The similarities of the query with a matrix built from stored vectors; the query is cloned, so it stays as it is.
\<close>

definition similarities :: "vectorContainer \<Rightarrow> u8 list list \<Rightarrow> fl list outcome" where
  "similarities target ms =
     (case NewMatrix ms of
        Panic e \<Rightarrow> Panic e
      | Done m \<Rightarrow>
          (case VectorCosineSimilarity target m of
             Panic e \<Rightarrow> Panic e | Done (sims, _, _) \<Rightarrow> Done sims))"

type_synonym 'k ranked = "('k \<times> fl) list"
type_synonym 'k ranking = "('k \<times> fl \<Rightarrow> 'k \<times> fl \<Rightarrow> int) \<Rightarrow> 'k ranked \<Rightarrow> 'k ranked"

definition nearest_centroids ::
    "Centroid ranking \<Rightarrow> vectorContainer \<Rightarrow> Centroid list \<Rightarrow> int \<Rightarrow> id list outcome" where
  "nearest_centroids SortFunc target centroids k =
     (case similarities target (map centroid_Vector centroids) of
        Panic e \<Rightarrow> Panic e
      | Done sims \<Rightarrow>
          (let closest = SortFunc (desc snd) (zip centroids sims)
           in Done (map (\<lambda>c. centroid_ID (fst c)) (take (nat (min k (int (length closest)))) closest))))"

section \<open>Hits\<close>

text \<open>A hit is the identifier of a document and a similarity. The first of several hits of one document is kept.\<close>

fun unique_hits :: "id set \<Rightarrow> id ranked \<Rightarrow> id ranked" where
  "unique_hits seen [] = []"
| "unique_hits seen (h # hs) =
     (if fst h \<in> seen then unique_hits seen hs else h # unique_hits (insert (fst h) seen) hs)"

definition add_hits :: "id ranking \<Rightarrow> nat \<Rightarrow> id ranked \<Rightarrow> id ranked \<Rightarrow> id ranked" where
  "add_hits SortFunc limit hits new = take limit (unique_hits {} (SortFunc (desc snd) (hits @ new)))"

definition rank_batch ::
    "id ranking \<Rightarrow> vectorContainer \<Rightarrow> nat \<Rightarrow> id ranked \<Rightarrow> Embedding list \<Rightarrow> id ranked outcome" where
  "rank_batch SortFunc target limit hits batch =
     (case similarities target (map embedding_Vector batch) of
        Panic e \<Rightarrow> Panic e
      | Done sims \<Rightarrow> Done (add_hits SortFunc limit hits (zip (map embedding_DocumentID batch) sims)))"

fun rank_batches ::
    "id ranking \<Rightarrow> vectorContainer \<Rightarrow> nat \<Rightarrow> id ranked \<Rightarrow> Embedding list list \<Rightarrow> id ranked outcome" where
  "rank_batches SortFunc target limit hits [] = Done hits"
| "rank_batches SortFunc target limit hits (b # bs) =
     (case rank_batch SortFunc target limit hits b of
        Panic e \<Rightarrow> Panic e | Done hits' \<Rightarrow> rank_batches SortFunc target limit hits' bs)"

section \<open>The page\<close>

text \<open>
  The loop that fills \<open>res.Documents\<close>, an array of \<open>n\<close> entries: hits before \<open>offset\<close> are skipped; writing
  past the end panics.
\<close>

fun fill_page :: "nat \<Rightarrow> nat \<Rightarrow> nat \<Rightarrow> id ranked \<Rightarrow> id ranked \<Rightarrow> id ranked outcome" where
  "fill_page n offset idx added [] = Done added"
| "fill_page n offset idx added (h # hs) =
     (if idx < offset then fill_page n offset (Suc idx) added hs
      else if n \<le> length added then Panic ''index out of range''
      else fill_page n offset (Suc idx) (added @ [h]) hs)"

section \<open>The best documents\<close>

definition top_hits :: "nat \<Rightarrow> id ranked \<Rightarrow> id ranked \<Rightarrow> bool" where
  "top_hits limit cands hits \<longleftrightarrow>
     sorted_wrt (\<lambda>a b. rank_le (snd b) (snd a)) hits
   \<and> distinct (map fst hits)
   \<and> length hits = min limit (card (fst ` set cands))
   \<and> (\<forall>h \<in> set hits. h \<in> set cands \<and> (\<forall>c \<in> set cands. fst c = fst h \<longrightarrow> rank_le (snd c) (snd h)))
   \<and> (\<forall>c \<in> set cands. fst c \<notin> fst ` set hits \<longrightarrow> (\<forall>h \<in> set hits. rank_le (snd c) (snd h)))"

lemma top_hits_start: "top_hits limit [] []"
  by (simp add: top_hits_def)

lemma unique_hits_keys: "fst ` set (unique_hits seen hs) = fst ` set hs - seen"
  by (induction seen hs rule: unique_hits.induct) auto

lemma unique_hits_subset: "set (unique_hits seen hs) \<subseteq> set hs"
  by (induction seen hs rule: unique_hits.induct) auto

lemma unique_hits_distinct: "distinct (map fst (unique_hits seen hs))"
proof (induction seen hs rule: unique_hits.induct)
  case (2 seen h hs)
  have "fst h \<notin> fst ` set (unique_hits (insert (fst h) seen) hs)" by (simp add: unique_hits_keys)
  then show ?case using 2 by simp
qed simp

lemma unique_hits_sorted: "sorted_wrt P hs \<Longrightarrow> sorted_wrt P (unique_hits seen hs)"
proof (induction seen hs rule: unique_hits.induct)
  case (2 seen h hs)
  then show ?case using unique_hits_subset [of "insert (fst h) seen" hs] by auto
qed simp

lemma unique_hits_best:
  assumes "sorted_wrt (\<lambda>a b. rank_le (snd b) (snd a)) hs" and "h \<in> set (unique_hits seen hs)" and "c \<in> set hs" and "fst c = fst h"
  shows "rank_le (snd c) (snd h)"
  using assms
proof (induction seen hs rule: unique_hits.induct)
  case (2 seen g hs)
  show ?case
  proof (cases "fst g \<in> seen")
    case True
    then have "h \<in> set (unique_hits seen hs)" using "2.prems"(2) by simp
    moreover from this have "fst h \<notin> seen" using unique_hits_keys [of seen hs] by auto
    then have "c \<noteq> g" using True "2.prems"(4) by auto
    ultimately show ?thesis using 2 True by simp
  next
    case False
    show ?thesis
    proof (cases "h = g")
      case True
      then show ?thesis using "2.prems"(1,3) by auto
    next
      case ne: False
      then have h: "h \<in> set (unique_hits (insert (fst g) seen) hs)" using "2.prems"(2) False by simp
      then have "fst h \<noteq> fst g" using unique_hits_keys [of "insert (fst g) seen" hs] by auto
      then have "c \<noteq> g" using "2.prems"(4) by auto
      then show ?thesis using 2 False h by simp
    qed
  qed
qed simp

lemma card_keys: "distinct (map fst hits) \<Longrightarrow> card (fst ` set hits) = length hits"
  by (metis distinct_card length_map list.set_map)

text \<open>A full list of sorted, unique and complete hits, cut.\<close>

lemma top_hits_cut:
  assumes s: "sorted_wrt (\<lambda>a b. rank_le (snd b) (snd a)) U" and d: "distinct (map fst U)"
    and k: "fst ` set U = fst ` set cands" and sub: "set U \<subseteq> set cands"
    and best: "\<And>h c. h \<in> set U \<Longrightarrow> c \<in> set cands \<Longrightarrow> fst c = fst h \<Longrightarrow> rank_le (snd c) (snd h)"
  shows "top_hits limit cands (take limit U)"
  unfolding top_hits_def
proof (intro conjI ballI impI)
  show "sorted_wrt (\<lambda>a b. rank_le (snd b) (snd a)) (take limit U)" using s by (rule sorted_wrt_take)
  show "distinct (map fst (take limit U))" using d by (simp add: take_map [symmetric])
  show "length (take limit U) = min limit (card (fst ` set cands))" using card_keys [OF d] k by simp
next
  fix h c assume h: "h \<in> set (take limit U)"
  then have "h \<in> set U" by (rule in_set_takeD)
  then show "h \<in> set cands" and "c \<in> set cands \<Longrightarrow> fst c = fst h \<Longrightarrow> rank_le (snd c) (snd h)" using sub best by auto
next
  fix c h assume c: "c \<in> set cands" "fst c \<notin> fst ` set (take limit U)" and h: "h \<in> set (take limit U)"
  obtain u where u: "u \<in> set U" "fst u = fst c" using k c(1) by (metis imageE imageI)
  then have "u \<notin> set (take limit U)" using c(2) by (metis imageI)
  moreover have "u \<in> set (take limit U) \<union> set (drop limit U)" using u(1) by (metis append_take_drop_id set_append)
  ultimately have "u \<in> set (drop limit U)" by simp
  then have "rank_le (snd u) (snd h)" using s h by (metis append_take_drop_id sorted_wrt_append)
  moreover have "rank_le (snd c) (snd u)" using best u c(1) by simp
  ultimately show "rank_le (snd c) (snd h)" by (rule rank_le_trans [rotated])
qed

text \<open>A hit whose document is not among those kept so far pushes one of them out of a full list.\<close>

lemma pushed_out:
  assumes "distinct (map fst acc)" and "length acc = limit" and "distinct (map fst hits)" and "length hits \<le> limit"
    and "h \<in> set hits" and "fst h \<notin> fst ` set acc"
  shows "\<exists>a \<in> set acc. fst a \<notin> fst ` set hits"
proof (rule ccontr)
  assume "\<not> ?thesis"
  then have "insert (fst h) (fst ` set acc) \<subseteq> fst ` set hits" using assms(5) by auto
  then have "card (insert (fst h) (fst ` set acc)) \<le> card (fst ` set hits)" by (intro card_mono) simp_all
  moreover have "card (insert (fst h) (fst ` set acc)) = Suc (length acc)" "card (fst ` set hits) = length hits"
    using assms(6) card_keys [OF assms(1)] card_keys [OF assms(3)] by simp_all
  ultimately show False using assms(2,4) by simp
qed

lemma top_hits_step:
  assumes acc: "top_hits limit A acc" and S: "sorting SortFunc"
  shows "top_hits limit (A @ B) (add_hits SortFunc limit acc B)"
proof -
  let ?C = "acc @ B"
  let ?L = "SortFunc (desc snd) ?C"
  let ?U = "unique_hits {} ?L"
  let ?H = "take limit ?U"
  have sorted: "sorted_wrt (\<lambda>a b. rank_le (snd b) (snd a)) ?L" and m: "mset ?L = mset ?C"
    using S go_ordering_desc [of snd] unfolding sorting_def by (auto simp: desc_le)
  from m have L: "set ?L = set ?C" by (metis set_mset_mset)
  have T: "top_hits limit ?C ?H"
  proof (rule top_hits_cut)
    show "sorted_wrt (\<lambda>a b. rank_le (snd b) (snd a)) ?U" using sorted by (rule unique_hits_sorted)
    show "distinct (map fst ?U)" by (rule unique_hits_distinct)
    show "fst ` set ?U = fst ` set ?C" using L by (simp add: unique_hits_keys)
    show "set ?U \<subseteq> set ?C" using L unique_hits_subset by blast
    show "rank_le (snd c) (snd h)" if "h \<in> set ?U" "c \<in> set ?C" "fst c = fst h" for h c
      using unique_hits_best [OF sorted that(1)] that L by simp
  qed
  have accA: "set acc \<subseteq> set A" using acc by (auto simp: top_hits_def)
  have full: "length acc = limit" if "fst c \<notin> fst ` set acc" "c \<in> set A" for c
  proof -
    have "fst ` set acc \<subset> fst ` set A" using accA that by auto
    then have "card (fst ` set acc) < card (fst ` set A)" by (intro psubset_card_mono) simp_all
    then show ?thesis using acc card_keys [of acc] by (simp add: top_hits_def)
  qed
  have dom: "rank_le (snd c) (snd h)" if c: "c \<in> set A" "fst c = fst h \<or> fst c \<notin> fst ` set ?H" and h: "h \<in> set ?H" for c h
  proof (cases "fst c \<in> fst ` set acc")
    case True
    then obtain a where a: "a \<in> set acc" "fst a = fst c" by (metis imageE)
    then have "rank_le (snd c) (snd a)" using acc c(1) by (simp add: top_hits_def)
    moreover have "rank_le (snd a) (snd h)"
    proof (cases "fst c = fst h")
      case True
      then show ?thesis using T h a by (simp add: top_hits_def)
    next
      case False
      then have "fst a \<notin> fst ` set ?H" using c(2) a(2) by simp
      then show ?thesis using T h a(1) by (simp add: top_hits_def)
    qed
    ultimately show ?thesis by (rule rank_le_trans)
  next
    case False
    then have l: "length acc = limit" using full c(1) by blast
    have ge: "rank_le (snd c) (snd a)" if "a \<in> set acc" for a
      using acc False c(1) that by (simp add: top_hits_def)
    show ?thesis
    proof (cases "fst h \<in> fst ` set acc")
      case True
      then obtain a where a: "a \<in> set acc" "fst a = fst h" by (metis imageE)
      then have "rank_le (snd a) (snd h)" using T h by (simp add: top_hits_def)
      then show ?thesis using ge [OF a(1)] rank_le_trans by blast
    next
      case nh: False
      have "distinct (map fst acc)" "distinct (map fst ?H)" "length ?H \<le> limit" using acc T by (simp_all add: top_hits_def)
      then obtain a where a: "a \<in> set acc" "fst a \<notin> fst ` set ?H" using pushed_out l h nh by blast
      then have "rank_le (snd a) (snd h)" using T h by (simp add: top_hits_def)
      then show ?thesis using ge [OF a(1)] rank_le_trans by blast
    qed
  qed
  have len: "min limit (card (fst ` set ?C)) = min limit (card (fst ` set (A @ B)))"
  proof (cases "fst ` set acc = fst ` set A")
    case True
    then show ?thesis by (simp add: image_Un)
  next
    case False
    then obtain c where "c \<in> set A" "fst c \<notin> fst ` set acc" using accA by auto
    then have "limit = card (fst ` set acc)" using full card_keys acc by (metis top_hits_def)
    moreover have "card (fst ` set acc) \<le> card (fst ` set ?C)" "card (fst ` set acc) \<le> card (fst ` set (A @ B))"
      using accA by (auto intro!: card_mono)
    ultimately show ?thesis by simp
  qed
  show ?thesis
    unfolding top_hits_def add_hits_def
  proof (intro conjI ballI impI)
    show "sorted_wrt (\<lambda>a b. rank_le (snd b) (snd a)) ?H" "distinct (map fst ?H)" using T by (simp_all add: top_hits_def)
    show "length ?H = min limit (card (fst ` set (A @ B)))" using T len by (simp add: top_hits_def)
  next
    fix h assume h: "h \<in> set ?H"
    then show "h \<in> set (A @ B)" using T accA by (auto simp: top_hits_def)
    fix c assume c: "c \<in> set (A @ B)" "fst c = fst h"
    show "rank_le (snd c) (snd h)"
    proof (cases "c \<in> set A")
      case True
      then show ?thesis using dom c(2) h by simp
    next
      case False
      then show ?thesis using T c h by (simp add: top_hits_def)
    qed
  next
    fix c h assume c: "c \<in> set (A @ B)" "fst c \<notin> fst ` set ?H" and h: "h \<in> set ?H"
    show "rank_le (snd c) (snd h)"
    proof (cases "c \<in> set A")
      case True
      then show ?thesis using dom c(2) h by simp
    next
      case False
      then show ?thesis using T c h by (simp add: top_hits_def)
    qed
  qed
qed

section \<open>All batches\<close>

definition candidates :: "u8 list \<Rightarrow> Embedding list \<Rightarrow> id ranked" where
  "candidates q es = map (\<lambda>e. (embedding_DocumentID e, similarity q (embedding_Vector e))) es"

lemma similarities_eq:
  assumes "NewVector q = Done target" and "ms \<noteq> []" and "\<forall>b \<in> set ms. length b = length q"
  shows "similarities target ms = Done (map (similarity q) ms)"
proof -
  have "8 < length q" using assms(1) by (auto simp: NewVector_def Let_def split: if_splits)
  moreover have "length (hd ms) = length q" using assms(2,3) by (simp add: hd_in_set)
  ultimately obtain m where m: "NewMatrix ms = Done m" using NewMatrix_Done [OF assms(2)] assms(3) by force
  then show ?thesis using VectorCosine_eq [OF assms(1) m assms(3)] by (auto simp: similarities_def)
qed

lemma rank_batch_eq:
  assumes "NewVector q = Done target" and "b \<noteq> []" and "\<forall>e \<in> set b. length (embedding_Vector e) = length q"
  shows "rank_batch SortFunc target limit hits b = Done (add_hits SortFunc limit hits (candidates q b))"
proof -
  have "similarities target (map embedding_Vector b) = Done (map (similarity q) (map embedding_Vector b))"
    using assms by (intro similarities_eq) auto
  moreover have "zip (map embedding_DocumentID b) (map (similarity q) (map embedding_Vector b)) = candidates q b"
    by (simp add: candidates_def comp_def zip_map_map zip_same_conv_map)
  ultimately show ?thesis by (simp add: rank_batch_def)
qed

lemma rank_batches_top:
  assumes "NewVector q = Done target" and "sorting SortFunc"
    and "\<forall>b \<in> set bs. b \<noteq> [] \<and> (\<forall>e \<in> set b. length (embedding_Vector e) = length q)"
    and "top_hits limit A hits"
  shows "\<exists>hits'. rank_batches SortFunc target limit hits bs = Done hits' \<and> top_hits limit (A @ candidates q (concat bs)) hits'"
  using assms(3,4)
proof (induction bs arbitrary: A hits)
  case Nil
  then show ?case by (simp add: candidates_def)
next
  case (Cons b bs)
  have b: "b \<noteq> []" "\<forall>e \<in> set b. length (embedding_Vector e) = length q" using Cons.prems(1) by simp_all
  have "top_hits limit (A @ candidates q b) (add_hits SortFunc limit hits (candidates q b))"
    using Cons.prems(2) assms(2) by (rule top_hits_step)
  moreover have "\<forall>b \<in> set bs. b \<noteq> [] \<and> (\<forall>e \<in> set b. length (embedding_Vector e) = length q)" using Cons.prems(1) by simp
  ultimately obtain hits' where "rank_batches SortFunc target limit (add_hits SortFunc limit hits (candidates q b)) bs = Done hits'"
      "top_hits limit ((A @ candidates q b) @ candidates q (concat bs)) hits'" using Cons.IH by blast
  then show ?case using rank_batch_eq [OF assms(1) b] by (simp add: candidates_def)
qed

text \<open>The page holds the hits from \<open>offset\<close> on; it has room for them when there are at most \<open>n + offset\<close> hits.\<close>

lemma fill_page_take: "offset \<le> idx \<Longrightarrow> length added + length hits \<le> n \<Longrightarrow> fill_page n offset idx added hits = Done (added @ hits)"
  by (induction hits arbitrary: idx added) simp_all

lemma fill_page_eq:
  "idx \<le> offset \<Longrightarrow> length hits \<le> n + (offset - idx) \<Longrightarrow> fill_page n offset idx [] hits = Done (drop (offset - idx) hits)"
proof (induction hits arbitrary: idx)
  case (Cons h hs)
  show ?case
  proof (cases "idx < offset")
    case True
    then have "offset - idx = Suc (offset - Suc idx)" by simp
    then show ?thesis using Cons True by simp
  next
    case False
    then show ?thesis using fill_page_take [of offset idx "[]" "h # hs" n] Cons.prems by simp
  qed
qed simp

end
