(* ===== verification/Store.thy ===== *)
theory Store
  imports Cache
begin

text \<open>
  The database behind the server. The SQL engine and gorm are not part of the source, so the queries the source issues are the
  fields of a record of functions on an abstract state, and every handler has this record as an argument. What the
  handlers rely on is \<open>lawful\<close>: a query either fails and changes nothing, or has its documented effect on the tables, with the
  constraints and cascades of the tags in \<open>database/model.go\<close>. PostgreSQL enforces them; SQLite does so only after \<open>PRAGMA foreign_keys = ON\<close>, which
  the source never issues, so a server on SQLite (\<open>config_database.go\<close>, the sample configuration) is outside these laws. The in-memory store at the end obeys the laws whatever failures its script
  holds; the witnesses run on it.
\<close>

section \<open>Tables\<close>

record tables =
  t_owners :: "Owner list"
  t_categories :: "Category list"
  t_centroids :: "Centroid list"
  t_documents :: "Document list"
  t_embeddings :: "Embedding list"
  t_next :: id

text \<open>Identifiers are drawn from sequences that never go back; \<open>t_next\<close> is above all that were given out.\<close>

definition no_tables :: tables where
  "no_tables = \<lparr>t_owners = [], t_categories = [], t_centroids = [], t_documents = [], t_embeddings = [], t_next = 1\<rparr>"

definition owner_ids :: "tables \<Rightarrow> id set" where "owner_ids T = owner_ID ` set (t_owners T)"
definition category_ids :: "tables \<Rightarrow> id set" where "category_ids T = category_ID ` set (t_categories T)"
definition centroid_ids :: "tables \<Rightarrow> id set" where "centroid_ids T = centroid_ID ` set (t_centroids T)"
definition document_ids :: "tables \<Rightarrow> id set" where "document_ids T = document_ID ` set (t_documents T)"

lemmas id_sets = owner_ids_def category_ids_def centroid_ids_def document_ids_def

text \<open>
  The tags of the model: primary keys, unique indexes and foreign keys. The last conjunct is not a constraint of the schema but what the
  handlers have to keep: a document and the centroids of its embeddings belong to the same category.
\<close>

definition keys_ok :: "tables \<Rightarrow> bool" where
  "keys_ok T \<longleftrightarrow> distinct (map owner_ID (t_owners T)) \<and> distinct (map category_ID (t_categories T))
   \<and> distinct (map centroid_ID (t_centroids T)) \<and> distinct (map document_ID (t_documents T))
   \<and> distinct (map embedding_ID (t_embeddings T))
   \<and> (\<forall>i \<in> owner_ids T \<union> category_ids T \<union> centroid_ids T \<union> document_ids T \<union> embedding_ID ` set (t_embeddings T). i < t_next T)"

definition indexes_ok :: "tables \<Rightarrow> bool" where
  "indexes_ok T \<longleftrightarrow> distinct (map owner_Name (t_owners T))
   \<and> distinct (map (\<lambda>c. (category_OwnerID c, category_Name c)) (t_categories T))"

definition references_ok :: "tables \<Rightarrow> bool" where
  "references_ok T \<longleftrightarrow> category_OwnerID ` set (t_categories T) \<subseteq> owner_ids T
   \<and> centroid_CategoryID ` set (t_centroids T) \<subseteq> category_ids T
   \<and> document_CategoryID ` set (t_documents T) \<subseteq> category_ids T
   \<and> embedding_DocumentID ` set (t_embeddings T) \<subseteq> document_ids T
   \<and> embedding_CentroidID ` set (t_embeddings T) \<subseteq> centroid_ids T"

definition same_category :: "tables \<Rightarrow> bool" where
  "same_category T \<longleftrightarrow> (\<forall>e \<in> set (t_embeddings T). \<forall>d \<in> set (t_documents T). \<forall>c \<in> set (t_centroids T).
     embedding_DocumentID e = document_ID d \<longrightarrow> embedding_CentroidID e = centroid_ID c \<longrightarrow>
       document_CategoryID d = centroid_CategoryID c)"

definition tables_ok :: "tables \<Rightarrow> bool" where
  "tables_ok T \<longleftrightarrow> keys_ok T \<and> indexes_ok T \<and> references_ok T \<and> same_category T"

text \<open>\<open>onDelete:CASCADE\<close>\<close>

definition drop_documents :: "(Document \<Rightarrow> bool) \<Rightarrow> tables \<Rightarrow> tables" where
  "drop_documents P T =
     (let gone = document_ID ` set (filter P (t_documents T))
      in T\<lparr>t_documents := filter (\<lambda>d. \<not> P d) (t_documents T),
           t_embeddings := filter (\<lambda>e. embedding_DocumentID e \<notin> gone) (t_embeddings T)\<rparr>)"

definition drop_centroids :: "(Centroid \<Rightarrow> bool) \<Rightarrow> tables \<Rightarrow> tables" where
  "drop_centroids P T =
     (let gone = centroid_ID ` set (filter P (t_centroids T))
      in T\<lparr>t_centroids := filter (\<lambda>c. \<not> P c) (t_centroids T),
           t_embeddings := filter (\<lambda>e. embedding_CentroidID e \<notin> gone) (t_embeddings T)\<rparr>)"

definition drop_categories :: "(Category \<Rightarrow> bool) \<Rightarrow> tables \<Rightarrow> tables" where
  "drop_categories P T =
     (let gone = category_ID ` set (filter P (t_categories T))
      in drop_centroids (\<lambda>c. centroid_CategoryID c \<in> gone) (drop_documents (\<lambda>d. document_CategoryID d \<in> gone)
           (T\<lparr>t_categories := filter (\<lambda>c. \<not> P c) (t_categories T)\<rparr>)))"

definition drop_owners :: "(Owner \<Rightarrow> bool) \<Rightarrow> tables \<Rightarrow> tables" where
  "drop_owners P T =
     (let gone = owner_ID ` set (filter P (t_owners T))
      in drop_categories (\<lambda>c. category_OwnerID c \<in> gone) (T\<lparr>t_owners := filter (\<lambda>w. \<not> P w) (t_owners T)\<rparr>))"

section \<open>Queries\<close>

text \<open>
  The queries of the server, in the order the handlers use them. \<open>find_embeddings\<close> is \<open>FindInBatches\<close>: the
  batches it delivers, and the error it ends with, if any.
\<close>

record 'd store =
  take_owner :: "gotext \<Rightarrow> 'd \<Rightarrow> (error + Owner) \<times> 'd"
  create_owner :: "gotext \<Rightarrow> 'd \<Rightarrow> (error + Owner) \<times> 'd"
  take_category :: "gotext \<Rightarrow> id \<Rightarrow> 'd \<Rightarrow> (error + Category) \<times> 'd"
  create_category :: "gotext \<Rightarrow> id \<Rightarrow> 'd \<Rightarrow> (error + Category) \<times> 'd"
  find_centroids :: "id \<Rightarrow> 'd \<Rightarrow> (error + Centroid list) \<times> 'd"
  create_centroid :: "u8 list \<Rightarrow> id \<Rightarrow> 'd \<Rightarrow> (error + Centroid) \<times> 'd"
  create_documents :: "Document list \<Rightarrow> 'd \<Rightarrow> (error + Document list) \<times> 'd"
  create_embeddings :: "Embedding list \<Rightarrow> 'd \<Rightarrow> (error + Embedding list) \<times> 'd"
  find_embeddings :: "id list \<Rightarrow> 'd \<Rightarrow> (Embedding list list \<times> error option) \<times> 'd"
  find_documents :: "id list \<Rightarrow> 'd \<Rightarrow> (error + Document list) \<times> 'd"
  find_category_names :: "id \<Rightarrow> 'd \<Rightarrow> (error + gotext list) \<times> 'd"
  delete_owner :: "gotext \<Rightarrow> 'd \<Rightarrow> (error + unit) \<times> 'd"
  delete_category :: "id \<Rightarrow> gotext \<Rightarrow> 'd \<Rightarrow> (error + unit) \<times> 'd"
  delete_document :: "id \<Rightarrow> id \<Rightarrow> 'd \<Rightarrow> (error + unit) \<times> 'd"

text \<open>A query that reads: no change; on success the answer is right for the tables, and \<open>RecordNotFound\<close> is true.\<close>

definition reads :: "('d \<Rightarrow> tables) \<Rightarrow> ('d \<Rightarrow> (error + 'r) \<times> 'd) \<Rightarrow> (tables \<Rightarrow> 'r \<Rightarrow> bool) \<Rightarrow> (tables \<Rightarrow> bool) \<Rightarrow> bool" where
  "reads tbl q ok missing \<longleftrightarrow>
     (\<forall>d. tbl (snd (q d)) = tbl d
        \<and> (case fst (q d) of Inr r \<Rightarrow> ok (tbl d) r | Inl e \<Rightarrow> errors_Is e RecordNotFound \<longrightarrow> missing (tbl d)))"

text \<open>
  A statement that writes: it fails and changes nothing, or has the effect. Only the queries for a single row report a missing record.
\<close>

definition writes :: "('d \<Rightarrow> tables) \<Rightarrow> ('d \<Rightarrow> (error + 'r) \<times> 'd) \<Rightarrow> (tables \<Rightarrow> 'r \<Rightarrow> tables \<Rightarrow> bool) \<Rightarrow> bool" where
  "writes tbl q effect \<longleftrightarrow>
     (\<forall>d. case fst (q d) of Inr r \<Rightarrow> effect (tbl d) r (tbl (snd (q d)))
       | Inl e \<Rightarrow> tbl (snd (q d)) = tbl d \<and> \<not> errors_Is e RecordNotFound)"

definition owner_created :: "gotext \<Rightarrow> tables \<Rightarrow> Owner \<Rightarrow> tables \<Rightarrow> bool" where
  "owner_created n T r T' \<longleftrightarrow> owner_Name r = n \<and> n \<notin> owner_Name ` set (t_owners T)
   \<and> t_next T \<le> owner_ID r \<and> owner_ID r < t_next T' \<and> T' = T\<lparr>t_owners := t_owners T @ [r], t_next := t_next T'\<rparr>"

definition category_created :: "gotext \<Rightarrow> id \<Rightarrow> tables \<Rightarrow> Category \<Rightarrow> tables \<Rightarrow> bool" where
  "category_created n i T r T' \<longleftrightarrow> category_Name r = n \<and> category_OwnerID r = i \<and> i \<in> owner_ids T
   \<and> (i, n) \<notin> (\<lambda>c. (category_OwnerID c, category_Name c)) ` set (t_categories T)
   \<and> t_next T \<le> category_ID r \<and> category_ID r < t_next T' \<and> T' = T\<lparr>t_categories := t_categories T @ [r], t_next := t_next T'\<rparr>"

definition centroid_created :: "u8 list \<Rightarrow> id \<Rightarrow> tables \<Rightarrow> Centroid \<Rightarrow> tables \<Rightarrow> bool" where
  "centroid_created v i T r T' \<longleftrightarrow> centroid_Vector r = v \<and> centroid_CategoryID r = i \<and> i \<in> category_ids T
   \<and> t_next T \<le> centroid_ID r \<and> centroid_ID r < t_next T' \<and> T' = T\<lparr>t_centroids := t_centroids T @ [r], t_next := t_next T'\<rparr>"

definition documents_created :: "Document list \<Rightarrow> tables \<Rightarrow> Document list \<Rightarrow> tables \<Rightarrow> bool" where
  "documents_created new T rs T' \<longleftrightarrow> map (\<lambda>d. d\<lparr>document_ID := 0\<rparr>) rs = map (\<lambda>d. d\<lparr>document_ID := 0\<rparr>) new
   \<and> distinct (map document_ID rs) \<and> (\<forall>d \<in> set rs. t_next T \<le> document_ID d \<and> document_ID d < t_next T') \<and> t_next T \<le> t_next T'
   \<and> document_CategoryID ` set new \<subseteq> category_ids T
   \<and> T' = T\<lparr>t_documents := t_documents T @ rs, t_next := t_next T'\<rparr>"

definition embeddings_created :: "Embedding list \<Rightarrow> tables \<Rightarrow> Embedding list \<Rightarrow> tables \<Rightarrow> bool" where
  "embeddings_created new T rs T' \<longleftrightarrow> map (\<lambda>e. e\<lparr>embedding_ID := 0\<rparr>) rs = map (\<lambda>e. e\<lparr>embedding_ID := 0\<rparr>) new
   \<and> distinct (map embedding_ID rs) \<and> (\<forall>e \<in> set rs. t_next T \<le> embedding_ID e \<and> embedding_ID e < t_next T') \<and> t_next T \<le> t_next T'
   \<and> embedding_DocumentID ` set new \<subseteq> document_ids T \<and> embedding_CentroidID ` set new \<subseteq> centroid_ids T
   \<and> T' = T\<lparr>t_embeddings := t_embeddings T @ rs, t_next := t_next T'\<rparr>"

text \<open>Batches of the rows in order, all of them unless the query ends with an error.\<close>

definition batches_of :: "id list \<Rightarrow> tables \<Rightarrow> Embedding list list \<Rightarrow> error option \<Rightarrow> bool" where
  "batches_of cs T bs err \<longleftrightarrow>
     (\<exists>rest. concat bs @ rest = filter (\<lambda>e. embedding_CentroidID e \<in> set cs) (t_embeddings T) \<and> (err = None \<longrightarrow> rest = []))
   \<and> (\<forall>b \<in> set bs. b \<noteq> [] \<and> length b \<le> BATCH_SIZE_DATABASE)"

definition lawful_reads :: "('d \<Rightarrow> tables) \<Rightarrow> 'd store \<Rightarrow> bool" where
  "lawful_reads tbl D \<longleftrightarrow>
     (\<forall>n. reads tbl (take_owner D n) (\<lambda>T r. r \<in> set (t_owners T) \<and> owner_Name r = n)
        (\<lambda>T. n \<notin> owner_Name ` set (t_owners T)))
   \<and> (\<forall>n i. reads tbl (take_category D n i) (\<lambda>T r. r \<in> set (t_categories T) \<and> category_Name r = n \<and> category_OwnerID r = i)
        (\<lambda>T. (i, n) \<notin> (\<lambda>c. (category_OwnerID c, category_Name c)) ` set (t_categories T)))
   \<and> (\<forall>i. reads tbl (find_centroids D i) (\<lambda>T r. r = filter (\<lambda>c. centroid_CategoryID c = i) (t_centroids T)) (\<lambda>_. False))
   \<and> (\<forall>cs d. tbl (snd (find_embeddings D cs d)) = tbl d
        \<and> batches_of cs (tbl d) (fst (fst (find_embeddings D cs d))) (snd (fst (find_embeddings D cs d))))
   \<and> (\<forall>ids. reads tbl (find_documents D ids)
        (\<lambda>T r. set r \<subseteq> set (t_documents T) \<and> {d \<in> set (t_documents T). document_ID d \<in> set ids} \<subseteq> set r) (\<lambda>_. False))
   \<and> (\<forall>i. reads tbl (find_category_names D i)
        (\<lambda>T r. r = map category_Name (filter (\<lambda>c. category_OwnerID c = i) (t_categories T))) (\<lambda>_. False))"

definition lawful_writes :: "('d \<Rightarrow> tables) \<Rightarrow> 'd store \<Rightarrow> bool" where
  "lawful_writes tbl D \<longleftrightarrow>
     (\<forall>n. writes tbl (create_owner D n) (owner_created n))
   \<and> (\<forall>n i. writes tbl (create_category D n i) (category_created n i))
   \<and> (\<forall>v i. writes tbl (create_centroid D v i) (centroid_created v i))
   \<and> (\<forall>new. writes tbl (create_documents D new) (documents_created new))
   \<and> (\<forall>new. writes tbl (create_embeddings D new) (embeddings_created new))
   \<and> (\<forall>n. writes tbl (delete_owner D n) (\<lambda>T _ T'. T' = drop_owners (\<lambda>w. owner_Name w = n) T))
   \<and> (\<forall>i n. writes tbl (delete_category D i n)
        (\<lambda>T _ T'. T' = drop_categories (\<lambda>c. category_OwnerID c = i \<and> category_Name c = n) T))
   \<and> (\<forall>i k. writes tbl (delete_document D i k)
        (\<lambda>T _ T'. T' = drop_documents (\<lambda>d. document_CategoryID d = i \<and> document_ID d = k) T))"

definition lawful :: "('d \<Rightarrow> tables) \<Rightarrow> 'd store \<Rightarrow> bool" where
  "lawful tbl D \<longleftrightarrow> lawful_reads tbl D \<and> lawful_writes tbl D"

section \<open>A store in memory\<close>

text \<open>
  A store that executes every query on lists. Its script says for the coming queries whether they fail, and how (never with \<open>RecordNotFound\<close>, which
  is an answer and no failure); after its end none fails. A new row gets the number after the largest.
\<close>

record memory =
  mem :: tables
  script :: "error option list"

definition faulty :: "(tables \<Rightarrow> (error + 'r) \<times> tables) \<Rightarrow> memory \<Rightarrow> (error + 'r) \<times> memory" where
  "faulty q d =
     (case script d of
        Some e # rest \<Rightarrow> (Inl (filter (\<lambda>l. l \<noteq> RecordNotFound) e), d\<lparr>script := rest\<rparr>)
      | _ \<Rightarrow> (let (r, T) = q (mem d) in (r, \<lparr>mem = T, script = tl (script d)\<rparr>)))"

definition take_first :: "('a \<Rightarrow> bool) \<Rightarrow> 'a list \<Rightarrow> error + 'a" where
  "take_first P xs = (case List.find P xs of Some x \<Rightarrow> Inr x | None \<Rightarrow> Inl [RecordNotFound])"

definition constraint_error :: error where
  "constraint_error = [Msg ''constraint failed'']"

fun number_documents :: "id \<Rightarrow> Document list \<Rightarrow> Document list" where
  "number_documents i [] = []"
| "number_documents i (d # ds) = d\<lparr>document_ID := i\<rparr> # number_documents (Suc i) ds"

fun number_embeddings :: "id \<Rightarrow> Embedding list \<Rightarrow> Embedding list" where
  "number_embeddings i [] = []"
| "number_embeddings i (e # es) = e\<lparr>embedding_ID := i\<rparr> # number_embeddings (Suc i) es"

function in_batches :: "'a list \<Rightarrow> 'a list list" where
  "in_batches xs = (if xs = [] then [] else take BATCH_SIZE_DATABASE xs # in_batches (drop BATCH_SIZE_DATABASE xs))"
  by pat_completeness auto
termination
  by (relation "measure length") (auto simp: BATCH_SIZE_DATABASE_def)

declare in_batches.simps [simp del]

definition memory_store :: "memory store" where
  "memory_store = \<lparr>
     take_owner = \<lambda>n. faulty (\<lambda>T. (take_first (\<lambda>w. owner_Name w = n) (t_owners T), T)),
     create_owner = \<lambda>n. faulty (\<lambda>T.
       if n \<in> owner_Name ` set (t_owners T) then (Inl constraint_error, T)
       else let r = \<lparr>owner_ID = t_next T, owner_Name = n\<rparr>
            in (Inr r, T\<lparr>t_owners := t_owners T @ [r], t_next := Suc (t_next T)\<rparr>)),
     take_category = \<lambda>n i. faulty (\<lambda>T. (take_first (\<lambda>c. category_Name c = n \<and> category_OwnerID c = i) (t_categories T), T)),
     create_category = \<lambda>n i. faulty (\<lambda>T.
       if i \<notin> owner_ids T \<or> (i, n) \<in> (\<lambda>c. (category_OwnerID c, category_Name c)) ` set (t_categories T)
       then (Inl constraint_error, T)
       else let r = \<lparr>category_ID = t_next T, category_Name = n, category_OwnerID = i\<rparr>
            in (Inr r, T\<lparr>t_categories := t_categories T @ [r], t_next := Suc (t_next T)\<rparr>)),
     find_centroids = \<lambda>i. faulty (\<lambda>T. (Inr (filter (\<lambda>c. centroid_CategoryID c = i) (t_centroids T)), T)),
     create_centroid = \<lambda>v i. faulty (\<lambda>T.
       if i \<notin> category_ids T then (Inl constraint_error, T)
       else let r = \<lparr>centroid_ID = t_next T, centroid_Vector = v, centroid_CategoryID = i\<rparr>
            in (Inr r, T\<lparr>t_centroids := t_centroids T @ [r], t_next := Suc (t_next T)\<rparr>)),
     create_documents = \<lambda>new. faulty (\<lambda>T.
       if document_CategoryID ` set new \<subseteq> category_ids T
       then let rs = number_documents (t_next T) new
            in (Inr rs, T\<lparr>t_documents := t_documents T @ rs, t_next := t_next T + length rs\<rparr>)
       else (Inl constraint_error, T)),
     create_embeddings = \<lambda>new. faulty (\<lambda>T.
       if embedding_DocumentID ` set new \<subseteq> document_ids T \<and> embedding_CentroidID ` set new \<subseteq> centroid_ids T
       then let rs = number_embeddings (t_next T) new
            in (Inr rs, T\<lparr>t_embeddings := t_embeddings T @ rs, t_next := t_next T + length rs\<rparr>)
       else (Inl constraint_error, T)),
     find_embeddings = \<lambda>cs d.
       (case faulty (\<lambda>T. (Inr (filter (\<lambda>e. embedding_CentroidID e \<in> set cs) (t_embeddings T)), T)) d of
          (Inl e, d') \<Rightarrow> (([], Some e), d')
        | (Inr es, d') \<Rightarrow> ((in_batches es, None), d')),
     find_documents = \<lambda>ids. faulty (\<lambda>T. (Inr (filter (\<lambda>d. document_ID d \<in> set ids) (t_documents T)), T)),
     find_category_names = \<lambda>i. faulty (\<lambda>T. (Inr (map category_Name (filter (\<lambda>c. category_OwnerID c = i) (t_categories T))), T)),
     delete_owner = \<lambda>n. faulty (\<lambda>T. (Inr (), drop_owners (\<lambda>w. owner_Name w = n) T)),
     delete_category = \<lambda>i n. faulty (\<lambda>T. (Inr (), drop_categories (\<lambda>c. category_OwnerID c = i \<and> category_Name c = n) T)),
     delete_document = \<lambda>i k. faulty (\<lambda>T. (Inr (), drop_documents (\<lambda>d. document_CategoryID d = i \<and> document_ID d = k) T))\<rparr>"

lemma reads_faulty:
  assumes "\<And>T. snd (q T) = T"
    and "\<And>T. case fst (q T) of Inr r \<Rightarrow> ok T r | Inl e \<Rightarrow> errors_Is e RecordNotFound \<longrightarrow> missing T"
  shows "reads mem (faulty q) ok missing"
  unfolding reads_def
proof
  fix d
  show "mem (snd (faulty q d)) = mem d \<and> (case fst (faulty q d) of Inr r \<Rightarrow> ok (mem d) r
      | Inl e \<Rightarrow> errors_Is e RecordNotFound \<longrightarrow> missing (mem d))"
    using assms(1) [of "mem d"] assms(2) [of "mem d"]
    by (cases "q (mem d)") (auto simp: faulty_def errors_Is_def split: list.splits option.splits)
qed

lemma writes_faulty:
  assumes "\<And>T. case fst (q T) of Inr r \<Rightarrow> eff T r (snd (q T)) | Inl e \<Rightarrow> snd (q T) = T \<and> \<not> errors_Is e RecordNotFound"
  shows "writes mem (faulty q) eff"
  unfolding writes_def
proof
  fix d
  show "case fst (faulty q d) of Inr r \<Rightarrow> eff (mem d) r (mem (snd (faulty q d)))
      | Inl e \<Rightarrow> mem (snd (faulty q d)) = mem d \<and> \<not> errors_Is e RecordNotFound"
    using assms [of "mem d"]
    by (cases "q (mem d)"; cases "fst (q (mem d))") (auto simp: faulty_def errors_Is_def split: list.splits option.splits)
qed

lemma take_first_Inr: "take_first P xs = Inr r \<Longrightarrow> r \<in> set xs \<and> P r"
  by (auto simp: take_first_def find_Some_iff split: option.splits)

lemma take_first_Inl: "take_first P xs = Inl e \<Longrightarrow> x \<in> set xs \<Longrightarrow> \<not> P x"
  by (auto simp: take_first_def find_None_iff split: option.splits)

lemma number_documents_same: "map (\<lambda>d. d\<lparr>document_ID := 0\<rparr>) (number_documents i ds) = map (\<lambda>d. d\<lparr>document_ID := 0\<rparr>) ds"
  by (induction i ds rule: number_documents.induct) simp_all

lemma number_documents_ids: "map document_ID (number_documents i ds) = [i..<i + length ds]"
  by (induction i ds rule: number_documents.induct) (simp_all add: upt_rec)

lemma number_embeddings_same: "map (\<lambda>e. e\<lparr>embedding_ID := 0\<rparr>) (number_embeddings i es) = map (\<lambda>e. e\<lparr>embedding_ID := 0\<rparr>) es"
  by (induction i es rule: number_embeddings.induct) simp_all

lemma number_embeddings_ids: "map embedding_ID (number_embeddings i es) = [i..<i + length es]"
  by (induction i es rule: number_embeddings.induct) (simp_all add: upt_rec)

lemma documents_numbered:
  assumes "document_CategoryID ` set new \<subseteq> category_ids T" and "rs = number_documents (t_next T) new"
  shows "documents_created new T rs (T\<lparr>t_documents := t_documents T @ rs, t_next := t_next T + length rs\<rparr>)"
proof -
  have i: "map document_ID rs = [t_next T..<t_next T + length new]" using assms by (simp add: number_documents_ids)
  then have "distinct (map document_ID rs)" and l: "length rs = length new" by (simp, metis diff_add_inverse length_map length_upt)
  moreover have "document_ID ` set rs = {t_next T..<t_next T + length new}" using i by (metis list.set_map set_upt)
  then have "t_next T \<le> document_ID d \<and> document_ID d < t_next T + length rs" if "d \<in> set rs" for d
    using that l by (metis atLeastLessThan_iff imageI)
  ultimately show ?thesis using assms by (simp add: documents_created_def number_documents_same)
qed

lemma embeddings_numbered:
  assumes "embedding_DocumentID ` set new \<subseteq> document_ids T" and "embedding_CentroidID ` set new \<subseteq> centroid_ids T" and "rs = number_embeddings (t_next T) new"
  shows "embeddings_created new T rs (T\<lparr>t_embeddings := t_embeddings T @ rs, t_next := t_next T + length rs\<rparr>)"
proof -
  have i: "map embedding_ID rs = [t_next T..<t_next T + length new]" using assms by (simp add: number_embeddings_ids)
  then have "distinct (map embedding_ID rs)" and l: "length rs = length new" by (simp, metis diff_add_inverse length_map length_upt)
  moreover have "embedding_ID ` set rs = {t_next T..<t_next T + length new}" using i by (metis list.set_map set_upt)
  then have "t_next T \<le> embedding_ID d \<and> embedding_ID d < t_next T + length rs" if "d \<in> set rs" for d
    using that l by (metis atLeastLessThan_iff imageI)
  ultimately show ?thesis using assms by (simp add: embeddings_created_def number_embeddings_same)
qed

lemma in_batches_ok: "concat (in_batches xs) = xs \<and> (\<forall>b \<in> set (in_batches xs). b \<noteq> [] \<and> length b \<le> BATCH_SIZE_DATABASE)"
proof (induction xs rule: in_batches.induct)
  case (1 xs)
  show ?case
  proof (cases "xs = []")
    case False
    then have "in_batches xs = take BATCH_SIZE_DATABASE xs # in_batches (drop BATCH_SIZE_DATABASE xs)"
      by (subst in_batches.simps) simp
    then show ?thesis using 1 False by (auto simp: BATCH_SIZE_DATABASE_def)
  qed (simp add: in_batches.simps)
qed

lemma memory_reads: "lawful_reads mem memory_store"
  unfolding lawful_reads_def
proof (intro conjI allI)
  fix n i cs ids and d :: memory
  show "reads mem (take_owner memory_store n) (\<lambda>T r. r \<in> set (t_owners T) \<and> owner_Name r = n)
      (\<lambda>T. n \<notin> owner_Name ` set (t_owners T))"
    unfolding memory_store_def store.simps
    by (rule reads_faulty) (auto split: sum.splits dest: take_first_Inr take_first_Inl)
  show "reads mem (take_category memory_store n i) (\<lambda>T r. r \<in> set (t_categories T) \<and> category_Name r = n \<and> category_OwnerID r = i)
      (\<lambda>T. (i, n) \<notin> (\<lambda>c. (category_OwnerID c, category_Name c)) ` set (t_categories T))"
    unfolding memory_store_def store.simps
    by (rule reads_faulty) (auto split: sum.splits dest: take_first_Inr take_first_Inl)
  show "reads mem (find_centroids memory_store i) (\<lambda>T r. r = filter (\<lambda>c. centroid_CategoryID c = i) (t_centroids T)) (\<lambda>_. False)"
    unfolding memory_store_def store.simps by (rule reads_faulty) simp_all
  show "reads mem (find_documents memory_store ids) (\<lambda>T r. set r \<subseteq> set (t_documents T)
      \<and> {d \<in> set (t_documents T). document_ID d \<in> set ids} \<subseteq> set r) (\<lambda>_. False)"
    unfolding memory_store_def store.simps by (rule reads_faulty) auto
  show "reads mem (find_category_names memory_store i)
      (\<lambda>T r. r = map category_Name (filter (\<lambda>c. category_OwnerID c = i) (t_categories T))) (\<lambda>_. False)"
    unfolding memory_store_def store.simps by (rule reads_faulty) simp_all
  let ?q = "\<lambda>T. (Inr (filter (\<lambda>e. embedding_CentroidID e \<in> set cs) (t_embeddings T)), T)"
  have "reads mem (faulty ?q) (\<lambda>T r. r = filter (\<lambda>e. embedding_CentroidID e \<in> set cs) (t_embeddings T)) (\<lambda>_. False)"
    by (rule reads_faulty) simp_all
  then have "mem (snd (faulty ?q d)) = mem d" "\<And>es. fst (faulty ?q d) = Inr es \<Longrightarrow>
      es = filter (\<lambda>e. embedding_CentroidID e \<in> set cs) (t_embeddings (mem d))"
    by (auto simp: reads_def split: sum.splits)
  then show "mem (snd (find_embeddings memory_store cs d)) = mem d"
      "batches_of cs (mem d) (fst (fst (find_embeddings memory_store cs d))) (snd (fst (find_embeddings memory_store cs d)))"
    unfolding memory_store_def store.simps
    by (auto simp: batches_of_def in_batches_ok split: prod.splits sum.splits)
qed

lemma owner_numbered:
  "n \<notin> owner_Name ` set (t_owners T) \<Longrightarrow> r = \<lparr>owner_ID = t_next T, owner_Name = n\<rparr> \<Longrightarrow>
    owner_created n T r (T\<lparr>t_owners := t_owners T @ [r], t_next := Suc (t_next T)\<rparr>)"
  by (simp add: owner_created_def)

lemma category_numbered:
  "i \<in> owner_ids T \<Longrightarrow> (i, n) \<notin> (\<lambda>c. (category_OwnerID c, category_Name c)) ` set (t_categories T) \<Longrightarrow>
    r = \<lparr>category_ID = t_next T, category_Name = n, category_OwnerID = i\<rparr> \<Longrightarrow>
    category_created n i T r (T\<lparr>t_categories := t_categories T @ [r], t_next := Suc (t_next T)\<rparr>)"
  by (simp add: category_created_def)

lemma centroid_numbered:
  "i \<in> category_ids T \<Longrightarrow>
    r = \<lparr>centroid_ID = t_next T, centroid_Vector = v, centroid_CategoryID = i\<rparr> \<Longrightarrow>
    centroid_created v i T r (T\<lparr>t_centroids := t_centroids T @ [r], t_next := Suc (t_next T)\<rparr>)"
  by (simp add: centroid_created_def)

lemmas numbered = owner_numbered category_numbered centroid_numbered documents_numbered embeddings_numbered

lemma memory_writes: "lawful_writes mem memory_store"
  unfolding lawful_writes_def memory_store_def store.simps
  by (intro conjI allI; rule writes_faulty) (auto simp: Let_def constraint_error_def errors_Is_def intro: numbered)

lemma memory_lawful: "lawful mem memory_store"
  using memory_reads memory_writes by (simp add: lawful_def)

section \<open>Handlers\<close>

text \<open>
  A handler runs on the cache and the database and ends with a result, an error or a panic. The two ways the handlers treat the error
  of a query: a cancelled or timed-out query is passed on as it is, any other error is joined with a message; where a
  missing record is no error, it ends the handler with a value.
\<close>

type_synonym ('s, 'a) action = "'s \<Rightarrow> (error + 'a) outcome \<times> 's"

definition succeed :: "'a \<Rightarrow> ('s, 'a) action" where
  "succeed x s = (Done (Inr x), s)"

definition fail_with :: "error \<Rightarrow> ('s, 'a) action" where
  "fail_with e s = (Done (Inl e), s)"

definition joined :: "string \<Rightarrow> error \<Rightarrow> error" where
  "joined msg e = (if is_canceled e then e else errors_Join (errors_New msg) e)"

definition sure :: "'r outcome \<Rightarrow> ('r \<Rightarrow> ('s, 'a) action) \<Rightarrow> ('s, 'a) action" where
  "sure r k s = (case r of Panic p \<Rightarrow> (Panic p, s) | Done x \<Rightarrow> k x s)"

definition on_ok :: "string \<Rightarrow> ('s \<Rightarrow> (error + 'r) \<times> 's) \<Rightarrow> ('r \<Rightarrow> ('s, 'a) action) \<Rightarrow> ('s, 'a) action" where
  "on_ok msg q k s =
     (case q s of (Inr r, s') \<Rightarrow> k r s' | (Inl e, s') \<Rightarrow> fail_with (joined msg e) s')"

definition on_found :: "string \<Rightarrow> 'a \<Rightarrow> ('s \<Rightarrow> (error + 'r) \<times> 's) \<Rightarrow> ('r \<Rightarrow> ('s, 'a) action) \<Rightarrow> ('s, 'a) action" where
  "on_found msg missing q k s =
     (case q s of
        (Inr r, s') \<Rightarrow> k r s'
      | (Inl e, s') \<Rightarrow>
          if \<not> is_canceled e \<and> errors_Is e RecordNotFound then succeed missing s' else fail_with (joined msg e) s')"

type_synonym 'd server = "Cache \<times> 'd"

definition on_db :: "('d \<Rightarrow> 'r \<times> 'd) \<Rightarrow> 'd server \<Rightarrow> 'r \<times> 'd server" where
  "on_db q s = (let (r, d) = q (snd s) in (r, (fst s, d)))"

text \<open>The clock is read twice by each of the at most three fetches of a handler.\<close>

type_synonym clock = "nat \<Rightarrow> time"

definition fetch_owner :: "clock \<Rightarrow> gotext \<Rightarrow> ('d \<Rightarrow> (error + Owner) \<times> 'd) \<Rightarrow> 'd server \<Rightarrow> (error + Owner) \<times> 'd server" where
  "fetch_owner clk n q s = (let (r, c, d) = FetchOwner n (clk 0) (clk 1) q (fst s) (snd s) in (r, (c, d)))"

definition fetch_category ::
    "clock \<Rightarrow> gotext \<Rightarrow> id \<Rightarrow> ('d \<Rightarrow> (error + Category) \<times> 'd) \<Rightarrow> 'd server \<Rightarrow> (error + Category) \<times> 'd server" where
  "fetch_category clk n i q s = (let (r, c, d) = FetchCategory n i (clk 2) (clk 3) q (fst s) (snd s) in (r, (c, d)))"

definition fetch_centroids ::
    "clock \<Rightarrow> id \<Rightarrow> ('d \<Rightarrow> (error + Centroid list) \<times> 'd) \<Rightarrow> 'd server \<Rightarrow> (error + Centroid list) \<times> 'd server" where
  "fetch_centroids clk i q s = (let (r, c, d) = FetchCentroids i (clk 4) (clk 5) q (fst s) (snd s) in (r, (c, d)))"

text \<open>The handlers unfold into their branches.\<close>

lemmas handler_defs = succeed_def fail_with_def sure_def on_ok_def on_found_def on_db_def

section \<open>Reading through the cache\<close>

text \<open>What the live entries of the cache say is what the tables say.\<close>

definition owners_fresh :: "time \<Rightarrow> Cache \<Rightarrow> tables \<Rightarrow> bool" where
  "owners_fresh now c T \<longleftrightarrow>
     (\<forall>n r. lookup (ownerKey n) now (owner c) = Some r \<longrightarrow> r \<in> set (t_owners T) \<and> owner_Name r = n)"

definition categories_fresh :: "time \<Rightarrow> Cache \<Rightarrow> tables \<Rightarrow> bool" where
  "categories_fresh now c T \<longleftrightarrow>
     (\<forall>n i r. lookup (categoryKey n i) now (category c) = Some r \<longrightarrow>
        r \<in> set (t_categories T) \<and> category_Name r = n \<and> category_OwnerID r = i)"

definition centroids_fresh :: "time \<Rightarrow> Cache \<Rightarrow> tables \<Rightarrow> bool" where
  "centroids_fresh now c T \<longleftrightarrow>
     (\<forall>i r. lookup (centroidsKey i) now (centroids c) = Some r \<longrightarrow>
        r = filter (\<lambda>x. centroid_CategoryID x = i) (t_centroids T))"

definition cache_fresh :: "clock \<Rightarrow> Cache \<Rightarrow> tables \<Rightarrow> bool" where
  "cache_fresh clk c T \<longleftrightarrow> owners_fresh (clk 0) c T \<and> categories_fresh (clk 2) c T \<and> centroids_fresh (clk 4) c T"

lemma NewCache_fresh [simp]: "cache_fresh clk NewCache T"
  by (simp add: cache_fresh_def owners_fresh_def categories_fresh_def centroids_fresh_def NewCache_def lookup_def)

lemma fetch_through_reads:
  assumes "reads tbl q ok missing" and "\<And>v. lookup key now t = Some v \<Longrightarrow> ok (tbl s) v"
    and "fetch_through key now later q t s = (r, t', s')"
  shows "tbl s' = tbl s \<and> (case r of Inr v \<Rightarrow> ok (tbl s) v | Inl e \<Rightarrow> errors_Is e RecordNotFound \<longrightarrow> missing (tbl s))"
proof (cases "lookup key now t")
  case None
  have "tbl (snd (q s)) = tbl s" "case fst (q s) of Inr v \<Rightarrow> ok (tbl s) v | Inl e \<Rightarrow> errors_Is e RecordNotFound \<longrightarrow> missing (tbl s)"
    using assms(1) by (simp_all add: reads_def)
  then show ?thesis using assms(3) None by (auto simp: fetch_through_def split: prod.splits sum.splits)
next
  case (Some v)
  then show ?thesis using assms(2,3) by (auto simp: fetch_through_def)
qed

lemma fetch_owner_reads:
  assumes "lawful_reads tbl D" and "owners_fresh (clk 0) (fst s) (tbl (snd s))"
    and "fetch_owner clk n (take_owner D n) s = (r, s')"
  shows "tbl (snd s') = tbl (snd s) \<and> category (fst s') = category (fst s) \<and> centroids (fst s') = centroids (fst s)
    \<and> (case r of Inr v \<Rightarrow> v \<in> set (t_owners (tbl (snd s))) \<and> owner_Name v = n
       | Inl e \<Rightarrow> errors_Is e RecordNotFound \<longrightarrow> n \<notin> owner_Name ` set (t_owners (tbl (snd s))))"
proof -
  obtain t' d' where f: "fetch_through (ownerKey n) (clk 0) (clk 1) (take_owner D n) (owner (fst s)) (snd s) = (r, t', d')"
      "s' = (fst s\<lparr>owner := t'\<rparr>, d')"
    using assms(3) by (auto simp: fetch_owner_def FetchOwner_def Let_def split: prod.splits)
  have q: "reads tbl (take_owner D n) (\<lambda>T r. r \<in> set (t_owners T) \<and> owner_Name r = n) (\<lambda>T. n \<notin> owner_Name ` set (t_owners T))"
    using assms(1) by (simp add: lawful_reads_def)
  from fetch_through_reads [OF q _ f(1)] show ?thesis using assms(2) f(2) by (simp add: owners_fresh_def)
qed

lemma fetch_category_reads:
  assumes "lawful_reads tbl D" and "categories_fresh (clk 2) (fst s) (tbl (snd s))"
    and "fetch_category clk n i (take_category D n i) s = (r, s')"
  shows "tbl (snd s') = tbl (snd s) \<and> centroids (fst s') = centroids (fst s)
    \<and> (case r of Inr v \<Rightarrow> v \<in> set (t_categories (tbl (snd s))) \<and> category_Name v = n \<and> category_OwnerID v = i
       | Inl e \<Rightarrow> errors_Is e RecordNotFound \<longrightarrow>
           (i, n) \<notin> (\<lambda>c. (category_OwnerID c, category_Name c)) ` set (t_categories (tbl (snd s))))"
proof -
  obtain t' d' where f: "fetch_through (categoryKey n i) (clk 2) (clk 3) (take_category D n i) (category (fst s)) (snd s) = (r, t', d')"
      "s' = (fst s\<lparr>category := t'\<rparr>, d')"
    using assms(3) by (auto simp: fetch_category_def FetchCategory_def Let_def split: prod.splits)
  have q: "reads tbl (take_category D n i) (\<lambda>T r. r \<in> set (t_categories T) \<and> category_Name r = n \<and> category_OwnerID r = i)
      (\<lambda>T. (i, n) \<notin> (\<lambda>c. (category_OwnerID c, category_Name c)) ` set (t_categories T))"
    using assms(1) by (simp add: lawful_reads_def)
  from fetch_through_reads [OF q _ f(1)] show ?thesis using assms(2) f(2) by (simp add: categories_fresh_def)
qed

lemma fetch_centroids_reads:
  assumes "lawful_reads tbl D" and "centroids_fresh (clk 4) (fst s) (tbl (snd s))"
    and "fetch_centroids clk i (find_centroids D i) s = (r, s')"
  shows "tbl (snd s') = tbl (snd s)
    \<and> (case r of Inr v \<Rightarrow> v = filter (\<lambda>c. centroid_CategoryID c = i) (t_centroids (tbl (snd s)))
       | Inl e \<Rightarrow> \<not> errors_Is e RecordNotFound)"
proof -
  obtain t' d' where f: "fetch_through (centroidsKey i) (clk 4) (clk 5) (find_centroids D i) (centroids (fst s)) (snd s) = (r, t', d')"
      "s' = (fst s\<lparr>centroids := t'\<rparr>, d')"
    using assms(3) by (auto simp: fetch_centroids_def FetchCentroids_def Let_def split: prod.splits)
  have q: "reads tbl (find_centroids D i) (\<lambda>T r. r = filter (\<lambda>c. centroid_CategoryID c = i) (t_centroids T)) (\<lambda>_. False)"
    using assms(1) by (simp add: lawful_reads_def)
  from fetch_through_reads [OF q _ f(1)] show ?thesis using assms(2) f(2) by (auto simp: centroids_fresh_def split: sum.splits)
qed

section \<open>A store that does not fail\<close>

text \<open>
  While \<open>I\<close> holds of the database, which its reading queries keep, they answer: with rows or with \<open>RecordNotFound\<close>.
\<close>

definition steady_query :: "('d \<Rightarrow> bool) \<Rightarrow> ('d \<Rightarrow> (error + 'r) \<times> 'd) \<Rightarrow> bool" where
  "steady_query I q \<longleftrightarrow> (\<forall>d. I d \<longrightarrow> I (snd (q d)) \<and>
     (case fst (q d) of Inr r \<Rightarrow> True | Inl e \<Rightarrow> \<not> is_canceled e \<and> errors_Is e RecordNotFound))"

definition steady :: "('d \<Rightarrow> bool) \<Rightarrow> 'd store \<Rightarrow> bool" where
  "steady I D \<longleftrightarrow> (\<forall>n. steady_query I (take_owner D n)) \<and> (\<forall>n i. steady_query I (take_category D n i))
   \<and> (\<forall>i. steady_query I (find_centroids D i)) \<and> (\<forall>ids. steady_query I (find_documents D ids)) \<and> (\<forall>i. steady_query I (find_category_names D i))
   \<and> (\<forall>ids d. I d \<longrightarrow> I (snd (find_embeddings D ids d)) \<and> snd (fst (find_embeddings D ids d)) = None)"

lemma fetch_through_answers:
  assumes "steady_query I q" and "I s" and "fetch_through key now later q t s = (r, t', s')"
  shows "I s' \<and> (case r of Inr v \<Rightarrow> True | Inl e \<Rightarrow> \<not> is_canceled e \<and> errors_Is e RecordNotFound)"
proof -
  have "I (snd (q s))" "case fst (q s) of Inr r \<Rightarrow> True | Inl e \<Rightarrow> \<not> is_canceled e \<and> errors_Is e RecordNotFound"
    using assms(1,2) by (simp_all add: steady_query_def)
  then show ?thesis using assms(2,3)
    by (cases "lookup key now t"; cases "q s"; cases "fst (q s)") (auto simp: fetch_through_def)
qed

lemma fetch_owner_answers:
  "steady_query I q \<Longrightarrow> I (snd s) \<Longrightarrow> fetch_owner clk n q s = (r, s') \<Longrightarrow>
    I (snd s') \<and> (case r of Inr v \<Rightarrow> True | Inl e \<Rightarrow> \<not> is_canceled e \<and> errors_Is e RecordNotFound)"
  by (auto simp: fetch_owner_def FetchOwner_def Let_def split: prod.splits dest: fetch_through_answers)

lemma fetch_category_answers:
  "steady_query I q \<Longrightarrow> I (snd s) \<Longrightarrow> fetch_category clk n i q s = (r, s') \<Longrightarrow>
    I (snd s') \<and> (case r of Inr v \<Rightarrow> True | Inl e \<Rightarrow> \<not> is_canceled e \<and> errors_Is e RecordNotFound)"
  by (auto simp: fetch_category_def FetchCategory_def Let_def split: prod.splits dest: fetch_through_answers)

lemma fetch_centroids_answers:
  "steady_query I q \<Longrightarrow> I (snd s) \<Longrightarrow> fetch_centroids clk i q s = (r, s') \<Longrightarrow>
    I (snd s') \<and> (case r of Inr v \<Rightarrow> True | Inl e \<Rightarrow> \<not> is_canceled e \<and> errors_Is e RecordNotFound)"
  by (auto simp: fetch_centroids_def FetchCentroids_def Let_def split: prod.splits dest: fetch_through_answers)

lemma faulty_answers:
  assumes "\<And>T. case fst (q T) of Inr r \<Rightarrow> True | Inl e \<Rightarrow> e = [RecordNotFound]"
  shows "steady_query (\<lambda>d. script d = []) (faulty q)"
  unfolding steady_query_def
proof (intro allI impI)
  fix d :: memory assume "script d = []"
  then have "faulty q d = (fst (q (mem d)), \<lparr>mem = snd (q (mem d)), script = []\<rparr>)"
    by (simp add: faulty_def case_prod_beta)
  then show "script (snd (faulty q d)) = [] \<and> (case fst (faulty q d) of Inr r \<Rightarrow> True
      | Inl e \<Rightarrow> \<not> is_canceled e \<and> errors_Is e RecordNotFound)"
    using assms [of "mem d"] by (cases "fst (q (mem d))") (simp_all add: is_canceled_def errors_Is_def)
qed

lemma memory_steady: "steady (\<lambda>d. script d = []) memory_store"
  unfolding steady_def memory_store_def store.simps
proof (intro conjI allI impI)
  fix ids and d :: memory assume "script d = []"
  then have "faulty (\<lambda>T. (Inr (f T), T)) d = (Inr (f (mem d)), \<lparr>mem = mem d, script = []\<rparr>)" for f :: "tables \<Rightarrow> Embedding list"
    by (simp add: faulty_def)
  then show "script (snd (case faulty (\<lambda>T. (Inr (filter (\<lambda>e. embedding_CentroidID e \<in> set ids) (t_embeddings T)), T)) d of
          (Inl e, d') \<Rightarrow> (([], Some e), d') | (Inr es, d') \<Rightarrow> ((in_batches es, None), d'))) = []"
    and "snd (fst (case faulty (\<lambda>T. (Inr (filter (\<lambda>e. embedding_CentroidID e \<in> set ids) (t_embeddings T)), T)) d of
          (Inl e, d') \<Rightarrow> (([], Some e), d') | (Inr es, d') \<Rightarrow> ((in_batches es, None), d'))) = None" by simp_all
qed (rule faulty_answers, simp add: take_first_def split: option.splits)+

end
