(* ===== verification/Search.thy ===== *)
theory Search
  imports Ranking Store
begin

text \<open>
  \<open>Search\<close> in \<open>server/search.go\<close> on the database and the cache. Arguments besides the queries: the two sorts, the largest capacity the run
  time can allocate, what the embedding service answers, and the clock. \<open>return owner, db.Take(&owner).Error\<close> is read as the
  compiler translates it: the call first, then the variable.
\<close>

section \<open>The handler\<close>

record SearchRequest =
  q_Owner :: gotext
  q_Category :: gotext
  q_Text :: gotext
  q_Count :: nat
  q_Offset :: nat
  q_Centroids :: int

record DocumentSearch =
  hit_Name :: gotext
  hit_ExternalID :: gotext
  hit_Document :: anyval
  hit_DocumentID :: id
  hit_Similarity :: fl

text \<open>A Go slice of hits needs a capacity the run time can allocate. The sum of the three numbers wraps.\<close>

definition make_hits :: "nat \<Rightarrow> nat \<Rightarrow> nat \<Rightarrow> unit outcome" where
  "make_hits largest cnt offset =
     (if largest < uint64_add (uint64_add cnt offset) BATCH_SIZE_DATABASE then Panic ''makeslice: cap out of range''
      else Done ())"

text \<open>The rows found for the hits; a document that is gone leaves an empty one.\<close>

definition document_of :: "Document list \<Rightarrow> id \<times> fl \<Rightarrow> DocumentSearch" where
  "document_of documents h =
     (case List.find (\<lambda>d. document_ID d = fst h) (rev documents) of
        Some d \<Rightarrow> \<lparr>hit_Name = document_Name d, hit_ExternalID = document_ExternalID d,
                  hit_Document = (case document_Document d of Some v \<Rightarrow> v | None \<Rightarrow> Nil_any),
                  hit_DocumentID = fst h, hit_Similarity = snd h\<rparr>
      | None \<Rightarrow> \<lparr>hit_Name = [], hit_ExternalID = [], hit_Document = Nil_any,
                hit_DocumentID = fst h, hit_Similarity = snd h\<rparr>)"

text \<open>From the centroids on: the embeddings of the nearest ones, their documents, the page.\<close>

definition search_centroids ::
    "'d store \<Rightarrow> Centroid ranking \<Rightarrow> id ranking \<Rightarrow> nat \<Rightarrow> vectorContainer \<Rightarrow> nat \<Rightarrow> nat \<Rightarrow> int \<Rightarrow> Centroid list \<Rightarrow>
      ('d server, DocumentSearch list) action" where
  "search_centroids D S1 S2 largest target cnt offset k cs =
     sure (nearest_centroids S1 target cs k) (\<lambda>ids.
     sure (make_hits largest cnt offset) (\<lambda>_. \<lambda>s.
       let ((batches, err), s') = on_db (find_embeddings D ids) s
       in sure (rank_batches S2 target (uint64_add cnt offset) [] batches) (\<lambda>hits.
            case err of
              Some e \<Rightarrow> fail_with (joined ''database document embedding batch retrieval failed'' e)
            | None \<Rightarrow>
                on_ok ''database document retrieval failed'' (on_db (find_documents D (map fst hits))) (\<lambda>documents.
                sure (fill_page cnt offset 0 [] hits) (\<lambda>page.
                succeed (map (document_of documents) page)))) s'))"

definition Search ::
    "'d store \<Rightarrow> Centroid ranking \<Rightarrow> id ranking \<Rightarrow> nat \<Rightarrow> (gotext list \<Rightarrow> error + u8 list list) \<Rightarrow> clock \<Rightarrow> SearchRequest \<Rightarrow>
      ('d server, DocumentSearch list) action" where
  "Search D S1 S2 largest ai_embed clk req =
     (case ai_embed [runes ''search_query: '' @ q_Text req] of
        Inl e \<Rightarrow> fail_with (joined ''failed to embed search query'' e)
      | Inr [] \<Rightarrow> fail_with (errors_New ''embedding returned empty response'')
      | Inr (q # _) \<Rightarrow>
          sure (NewVector q) (\<lambda>target.
          on_found ''failed to get owner'' []
            (fetch_owner clk (q_Owner req) (take_owner D (q_Owner req))) (\<lambda>owner.
          on_found ''failed to get category'' []
            (fetch_category clk (q_Category req) (owner_ID owner) (take_category D (q_Category req) (owner_ID owner))) (\<lambda>category.
          on_ok ''failed to get centroids''
            (fetch_centroids clk (category_ID category) (find_centroids D (category_ID category))) (\<lambda>centroids.
          if centroids = [] then succeed []
          else search_centroids D S1 S2 largest target (clamp_count (q_Count req)) (q_Offset req)
                 (clamp_centroids (q_Centroids req)) centroids)))))"

section \<open>What is searched\<close>

lemma rank_le_desc: "sorted_wrt (\<lambda>a b. desc snd a b \<le> 0) xs \<longleftrightarrow> sorted_wrt (\<lambda>a b. rank_le (snd b) (snd a)) xs"
  by (simp add: desc_le)

text \<open>The centroids searched: \<open>k\<close> of the category (or all, when there are fewer), and no other is nearer.\<close>

definition searched :: "u8 list \<Rightarrow> int \<Rightarrow> Centroid list \<Rightarrow> id list \<Rightarrow> bool" where
  "searched q k cs ids \<longleftrightarrow> (\<exists>near far. mset (near @ far) = mset cs \<and> ids = map centroid_ID near
     \<and> length near = nat (min k (int (length cs)))
     \<and> (\<forall>a \<in> set near. \<forall>b \<in> set far. rank_le (similarity q (centroid_Vector b)) (similarity q (centroid_Vector a))))"

lemma nearest_centroids_searched:
  assumes q: "NewVector q = Done target" and S: "sorting S1" and cs: "cs \<noteq> []" "\<forall>c \<in> set cs. length (centroid_Vector c) = length q"
  shows "\<exists>ids. nearest_centroids S1 target cs k = Done ids \<and> searched q k cs ids"
proof -
  let ?p = "zip cs (map (similarity q) (map centroid_Vector cs))"
  let ?L = "S1 (desc snd) ?p"
  let ?n = "nat (min k (int (length ?L)))"
  have s: "sorted_wrt (\<lambda>a b. rank_le (snd b) (snd a)) ?L" and m: "mset ?L = mset ?p"
    using S go_ordering_desc [of snd] unfolding sorting_def by (auto simp: rank_le_desc)
  have sims: "similarities target (map centroid_Vector cs) = Done (map (similarity q) (map centroid_Vector cs))"
    using cs by (intro similarities_eq [OF q]) auto
  have "\<forall>x \<in> set ?p. snd x = similarity q (centroid_Vector (fst x))" by (auto simp: in_set_zip)
  then have v: "\<forall>x \<in> set ?L. snd x = similarity q (centroid_Vector (fst x))" using m by (metis set_mset_mset)
  let ?near = "map fst (take ?n ?L)" and ?far = "map fst (drop ?n ?L)"
  have "mset (?near @ ?far) = mset (map fst ?L)" by (simp flip: map_append)
  also have "\<dots> = mset (map fst ?p)" using m by (metis mset_map)
  finally have "mset (?near @ ?far) = mset cs" by simp
  moreover have l: "length ?L = length cs" using m by (metis length_map length_zip min.idem size_mset)
  then have "length ?near = nat (min k (int (length cs)))" by auto
  moreover have "rank_le (snd b) (snd a)" if "a \<in> set (take ?n ?L)" "b \<in> set (drop ?n ?L)" for a b
    using s that by (metis append_take_drop_id sorted_wrt_append)
  then have far: "rank_le (snd b) (snd a)" if "a \<in> set (take ?n ?L)" "b \<in> set (drop ?n ?L)" for a b using that by blast
  have "rank_le (similarity q (centroid_Vector b)) (similarity q (centroid_Vector a))"
    if ab: "a \<in> set ?near" "b \<in> set ?far" for a b
  proof -
    obtain x y where x: "x \<in> set (take ?n ?L)" "a = fst x" and y: "y \<in> set (drop ?n ?L)" "b = fst y"
      using ab unfolding set_map by blast
    have "snd x = similarity q (centroid_Vector a)" "snd y = similarity q (centroid_Vector b)"
      using v x y in_set_takeD [OF x(1)] in_set_dropD [OF y(1)] by simp_all
    then show ?thesis using far [OF x(1) y(1)] by simp
  qed
  ultimately have "searched q k cs (map centroid_ID ?near)" unfolding searched_def by blast
  then show ?thesis by (simp add: nearest_centroids_def sims Let_def comp_def)
qed

section \<open>The answer\<close>

definition hit_pairs :: "DocumentSearch list \<Rightarrow> id ranked" where
  "hit_pairs page = map (\<lambda>h. (hit_DocumentID h, hit_Similarity h)) page"

text \<open>The fields of a hit are those of the row of its document.\<close>

definition rows_shown :: "tables \<Rightarrow> DocumentSearch list \<Rightarrow> bool" where
  "rows_shown T page \<longleftrightarrow> (\<forall>h \<in> set page. \<forall>d \<in> set (t_documents T). document_ID d = hit_DocumentID h \<longrightarrow>
     hit_Name h = document_Name d \<and> hit_ExternalID h = document_ExternalID d
     \<and> hit_Document h = (case document_Document d of Some v \<Rightarrow> v | None \<Rightarrow> Nil_any))"

definition embeddings_of :: "tables \<Rightarrow> id list \<Rightarrow> Embedding list" where
  "embeddings_of T ids = filter (\<lambda>e. embedding_CentroidID e \<in> set ids) (t_embeddings T)"

definition centroids_of :: "tables \<Rightarrow> id \<Rightarrow> Centroid list" where
  "centroids_of T i = filter (\<lambda>c. centroid_CategoryID c = i) (t_centroids T)"

text \<open>All stored vectors have the length of the query.\<close>

definition same_length :: "u8 list \<Rightarrow> tables \<Rightarrow> bool" where
  "same_length q T \<longleftrightarrow> (\<forall>c \<in> set (t_centroids T). length (centroid_Vector c) = length q)
     \<and> (\<forall>e \<in> set (t_embeddings T). length (embedding_Vector e) = length q)"

lemma uint64_add_le: "uint64_add a b \<le> a + b"
  by (simp add: uint64_add_def)

lemma hit_pairs_document_of: "hit_pairs (map (document_of ds) hs) = hs"
  by (induction hs) (auto simp: hit_pairs_def document_of_def split: option.splits)

lemma document_of_row:
  assumes "distinct (map document_ID (t_documents T))" and "set ds \<subseteq> set (t_documents T)"
    and "{d \<in> set (t_documents T). document_ID d \<in> set (map fst hits)} \<subseteq> set ds" and "set page \<subseteq> set hits"
  shows "rows_shown T (map (document_of ds) page)"
  unfolding rows_shown_def
proof (intro ballI impI)
  fix x d assume x: "x \<in> set (map (document_of ds) page)" and d: "d \<in> set (t_documents T)" "document_ID d = hit_DocumentID x"
  then obtain h where h: "h \<in> set page" "x = document_of ds h" by auto
  then have i: "hit_DocumentID x = fst h" by (auto simp: document_of_def split: option.splits)
  have "d \<in> set ds" using assms(3,4) h(1) d i by auto
  then obtain d' where f: "List.find (\<lambda>d. document_ID d = fst h) (rev ds) = Some d'"
    using d(2) i by (cases "List.find (\<lambda>d. document_ID d = fst h) (rev ds)") (auto simp: find_None_iff)
  then obtain i where "i < length (rev ds)" "d' = rev ds ! i" "document_ID d' = fst h"
    unfolding find_Some_iff by blast
  then have "d' \<in> set (rev ds)" "document_ID d' = fst h" using nth_mem by metis+
  then have "d' \<in> set (t_documents T)" "document_ID d' = document_ID d" using assms(2) d(2) i by auto
  then have "d' = d" using assms(1) d(1) by (simp add: distinct_map inj_on_def)
  then show "hit_Name x = document_Name d \<and> hit_ExternalID x = document_ExternalID d
      \<and> hit_Document x = (case document_Document d of Some v \<Rightarrow> v | None \<Rightarrow> Nil_any)"
    using h(2) f by (simp add: document_of_def)
qed

definition page_ok :: "u8 list \<Rightarrow> tables \<Rightarrow> nat \<Rightarrow> nat \<Rightarrow> int \<Rightarrow> Centroid list \<Rightarrow> DocumentSearch list \<Rightarrow> bool" where
  "page_ok q T cnt offset k cs page \<longleftrightarrow> (\<exists>ids hits. searched q k cs ids
     \<and> top_hits (uint64_add cnt offset) (candidates q (embeddings_of T ids)) hits
     \<and> hit_pairs page = drop offset hits \<and> rows_shown T page)"

lemma search_centroids_page:
  assumes q: "NewVector q = Done target" and S: "sorting S1" "sorting S2" and D: "lawful_reads tbl D"
    and cs: "cs \<noteq> []" "\<forall>c \<in> set cs. length (centroid_Vector c) = length q"
    and T: "same_length q (tbl (snd s))" "distinct (map document_ID (t_documents (tbl (snd s))))"
    and run: "search_centroids D S1 S2 largest target cnt offset k cs s = (r, s')"
    and cap: "uint64_add (uint64_add cnt offset) BATCH_SIZE_DATABASE \<le> largest"
  shows "tbl (snd s') = tbl (snd s) \<and> (\<exists>v. r = Done v \<and> (\<forall>page. v = Inr page \<longrightarrow> page_ok q (tbl (snd s)) cnt offset k cs page))"
proof -
  let ?T = "tbl (snd s)"
  obtain ids where ids: "nearest_centroids S1 target cs k = Done ids" "searched q k cs ids"
    using nearest_centroids_searched [OF q S(1) cs] by blast
  obtain bs err d where f: "find_embeddings D ids (snd s) = ((bs, err), d)" by (metis surj_pair)
  have "tbl (snd (find_embeddings D ids (snd s))) = ?T"
      "batches_of ids ?T (fst (fst (find_embeddings D ids (snd s)))) (snd (fst (find_embeddings D ids (snd s))))"
    using D unfolding lawful_reads_def by blast+
  then have d: "tbl d = ?T" and "batches_of ids ?T bs err" by (simp_all add: f)
  then obtain rest where b: "concat bs @ rest = embeddings_of ?T ids" "err = None \<longrightarrow> rest = []" "\<forall>b \<in> set bs. b \<noteq> []"
    by (auto simp: batches_of_def embeddings_of_def)
  have "set (concat bs) \<subseteq> set (t_embeddings ?T)" using b(1) by (metis embeddings_of_def filter_is_subset le_sup_iff set_append)
  then have len: "\<forall>b \<in> set bs. b \<noteq> [] \<and> (\<forall>e \<in> set b. length (embedding_Vector e) = length q)"
    using b(3) T(1) by (auto simp: same_length_def)
  let ?lim = "uint64_add cnt offset"
  obtain hits where hits: "rank_batches S2 target ?lim [] bs = Done hits" "top_hits ?lim (candidates q (concat bs)) hits"
    using rank_batches_top [OF q S(2) len top_hits_start] by auto
  obtain r2 d2 where f2: "find_documents D (map fst hits) d = (r2, d2)" by fastforce
  have "reads tbl (find_documents D (map fst hits)) (\<lambda>T r. set r \<subseteq> set (t_documents T)
      \<and> {x \<in> set (t_documents T). document_ID x \<in> set (map fst hits)} \<subseteq> set r) (\<lambda>_. False)"
    using D unfolding lawful_reads_def by blast
  then have "tbl (snd (find_documents D (map fst hits) d)) = tbl d"
      "case fst (find_documents D (map fst hits) d) of Inr r \<Rightarrow> set r \<subseteq> set (t_documents (tbl d))
        \<and> {x \<in> set (t_documents (tbl d)). document_ID x \<in> set (map fst hits)} \<subseteq> set r | Inl e \<Rightarrow> errors_Is e RecordNotFound \<longrightarrow> False"
    unfolding reads_def by blast+
  then have d2: "tbl d2 = ?T" "case r2 of Inr r \<Rightarrow> set r \<subseteq> set (t_documents ?T)
      \<and> {x \<in> set (t_documents ?T). document_ID x \<in> set (map fst hits)} \<subseteq> set r | Inl e \<Rightarrow> True"
    by (auto simp: f2 d split: sum.splits)
  have "length hits \<le> ?lim" using hits(2) by (simp add: top_hits_def)
  then have "length hits \<le> cnt + offset" using uint64_add_le order_trans by blast
  then have p: "fill_page cnt offset 0 [] hits = Done (drop offset hits)" using fill_page_eq [of 0 offset hits cnt] by simp
  note eqs = search_centroids_def sure_def make_hits_def ids(1) on_db_def f hits(1) Let_def fail_with_def on_ok_def f2 p succeed_def
  show ?thesis
  proof (cases "\<exists>ds. err = None \<and> r2 = Inr ds")
    case True
    then obtain ds where e: "err = None" "r2 = Inr ds" by blast
    then have "rows_shown ?T (map (document_of ds) (drop offset hits))"
      using d2(2) by (intro document_of_row [OF T(2), of _ hits]) (simp_all add: set_drop_subset)
    moreover have "concat bs = embeddings_of ?T ids" using b e(1) by simp
    ultimately have "page_ok q ?T cnt offset k cs (map (document_of ds) (drop offset hits))"
      using ids(2) hits(2) unfolding page_ok_def hit_pairs_document_of by metis
    then show ?thesis using run cap e d2(1) by (auto simp: eqs)
  next
    case False
    then show ?thesis using run cap d d2(1) by (cases err; cases r2) (auto simp: eqs)
  qed
qed

section \<open>The whole handler\<close>

text \<open>The owner and the category named by the request.\<close>

definition named :: "tables \<Rightarrow> gotext \<Rightarrow> gotext \<Rightarrow> Category \<Rightarrow> bool" where
  "named T wn cn c \<longleftrightarrow> c \<in> set (t_categories T) \<and> category_Name c = cn
     \<and> (\<exists>w \<in> set (t_owners T). owner_Name w = wn \<and> category_OwnerID c = owner_ID w)"

definition search_answer :: "u8 list \<Rightarrow> tables \<Rightarrow> SearchRequest \<Rightarrow> DocumentSearch list \<Rightarrow> bool" where
  "search_answer q T req page \<longleftrightarrow>
     (if \<exists>c. named T (q_Owner req) (q_Category req) c \<and> centroids_of T (category_ID c) \<noteq> []
      then \<exists>c. named T (q_Owner req) (q_Category req) c
        \<and> page_ok q T (clamp_count (q_Count req)) (q_Offset req) (clamp_centroids (q_Centroids req)) (centroids_of T (category_ID c)) page
      else page = [])"

lemma named_unique: "indexes_ok T \<Longrightarrow> named T wn cn c \<Longrightarrow> named T wn cn c' \<Longrightarrow> c = c'"
  unfolding named_def indexes_ok_def distinct_map inj_on_def by (metis (no_types, lifting))

lemma Search_answer:
  assumes q: "ai_embed [runes ''search_query: '' @ q_Text req] = Inr (q # rest)" "8 < length q"
    and S: "sorting S1" "sorting S2" and D: "lawful_reads tbl D" and fresh: "cache_fresh clk (fst s) (tbl (snd s))"
    and T: "tables_ok (tbl (snd s))" "same_length q (tbl (snd s))"
    and cap: "uint64_add (uint64_add (clamp_count (q_Count req)) (q_Offset req)) BATCH_SIZE_DATABASE \<le> largest"
    and run: "Search D S1 S2 largest ai_embed clk req s = (r, s')"
  shows "tbl (snd s') = tbl (snd s) \<and> (\<exists>v. r = Done v \<and> (\<forall>page. v = Inr page \<longrightarrow> search_answer q (tbl (snd s)) req page))"
proof -
  let ?T = "tbl (snd s)"
  obtain target where t: "NewVector q = Done target"
    using q(2) vector_of_Done [of q] by (auto simp: NewVector_def)
  obtain r1 s1 where f1: "fetch_owner clk (q_Owner req) (take_owner D (q_Owner req)) s = (r1, s1)" by (metis surj_pair)
  have 1: "tbl (snd s1) = ?T" "category (fst s1) = category (fst s)" "centroids (fst s1) = centroids (fst s)"
      "case r1 of Inr v \<Rightarrow> v \<in> set (t_owners ?T) \<and> owner_Name v = q_Owner req
       | Inl e \<Rightarrow> errors_Is e RecordNotFound \<longrightarrow> q_Owner req \<notin> owner_Name ` set (t_owners ?T)"
    using fetch_owner_reads [OF D _ f1] fresh by (simp_all add: cache_fresh_def)
  show ?thesis
  proof (cases r1)
    case (Inl e)
    have "\<not> named ?T (q_Owner req) cn c" if "errors_Is e RecordNotFound" for cn c
      using 1(4) Inl that by (auto simp: named_def image_iff)
    then show ?thesis using run 1(1) Inl
      by (auto simp: Search_def q t f1 sure_def on_found_def succeed_def fail_with_def search_answer_def split: if_splits)
  next
    case (Inr w)
    have w: "w \<in> set (t_owners ?T)" "owner_Name w = q_Owner req" using 1(4) Inr by simp_all
    obtain r2 s2 where f2: "fetch_category clk (q_Category req) (owner_ID w) (take_category D (q_Category req) (owner_ID w)) s1 = (r2, s2)"
      by (metis surj_pair)
    have 2: "tbl (snd s2) = ?T" "centroids (fst s2) = centroids (fst s)"
        "case r2 of Inr v \<Rightarrow> v \<in> set (t_categories ?T) \<and> category_Name v = q_Category req \<and> category_OwnerID v = owner_ID w
         | Inl e \<Rightarrow> errors_Is e RecordNotFound \<longrightarrow>
             (owner_ID w, q_Category req) \<notin> (\<lambda>c. (category_OwnerID c, category_Name c)) ` set (t_categories ?T)"
      using fetch_category_reads [OF D _ f2, unfolded 1(1-3)] fresh 1(2) by (simp_all add: cache_fresh_def categories_fresh_def)
    have same_owner: "w' = w" if "w' \<in> set (t_owners ?T)" "owner_Name w' = q_Owner req" for w'
      using T(1) w that by (auto simp: tables_ok_def indexes_ok_def distinct_map inj_on_def)
    show ?thesis
    proof (cases r2)
      case (Inl e)
      have "\<not> named ?T (q_Owner req) (q_Category req) c" if "errors_Is e RecordNotFound" for c
        using 2(3) Inl that same_owner by (auto simp: named_def image_iff)
      then show ?thesis using run 2(1) Inl \<open>r1 = Inr w\<close>
        by (auto simp: Search_def q t f1 f2 sure_def on_found_def succeed_def fail_with_def search_answer_def split: if_splits)
    next
      case (Inr c)
      have c: "named ?T (q_Owner req) (q_Category req) c" using 2(3) Inr w by (auto simp: named_def)
      obtain r3 s3 where f3: "fetch_centroids clk (category_ID c) (find_centroids D (category_ID c)) s2 = (r3, s3)" by (metis surj_pair)
      have 3: "tbl (snd s3) = ?T" "case r3 of Inr v \<Rightarrow> v = centroids_of ?T (category_ID c) | Inl e \<Rightarrow> True"
        using fetch_centroids_reads [OF D _ f3, unfolded 2(1-2)] fresh 2(2)
        by (auto simp: cache_fresh_def centroids_fresh_def centroids_of_def split: sum.splits)
      note eqs = Search_def q t f1 f2 f3 \<open>r1 = Inr w\<close> \<open>r2 = Inr c\<close> sure_def on_found_def on_ok_def succeed_def fail_with_def
      have only: "c' = c" if "named ?T (q_Owner req) (q_Category req) c'" for c'
        using named_unique [OF _ that c] T(1) by (simp add: tables_ok_def)
      show ?thesis
      proof (cases r3)
        case (Inl e)
        then show ?thesis using run 3(1) by (auto simp: eqs)
      next
        case (Inr cs)
        then have cs: "cs = centroids_of ?T (category_ID c)" using 3(2) by simp
        show ?thesis
        proof (cases "cs = []")
          case True
          then have "search_answer q ?T req []" using cs only by (auto simp: search_answer_def)
          then show ?thesis using run 3(1) Inr True by (auto simp: eqs)
        next
          case False
          have v: "\<forall>x \<in> set cs. length (centroid_Vector x) = length q"
            using T(2) by (auto simp: cs centroids_of_def same_length_def)
          have run3: "search_centroids D S1 S2 largest target (clamp_count (q_Count req)) (q_Offset req)
              (clamp_centroids (q_Centroids req)) cs s3 = (r, s')" using run False Inr by (simp add: eqs)
          have T3: "same_length q (tbl (snd s3))" "distinct (map document_ID (t_documents (tbl (snd s3))))"
            using T 3(1) by (simp_all add: tables_ok_def keys_ok_def)
          have "tbl (snd s') = ?T \<and> (\<exists>v. r = Done v \<and> (\<forall>page. v = Inr page \<longrightarrow>
              page_ok q ?T (clamp_count (q_Count req)) (q_Offset req) (clamp_centroids (q_Centroids req)) cs page))"
            by (rule search_centroids_page [where tbl = tbl, OF t S D False v T3 run3 cap, unfolded 3(1)])
          moreover have "search_answer q ?T req page" if "page_ok q ?T (clamp_count (q_Count req)) (q_Offset req)
              (clamp_centroids (q_Centroids req)) cs page" for page
          proof -
            have ex: "\<exists>c. named ?T (q_Owner req) (q_Category req) c \<and> centroids_of ?T (category_ID c) \<noteq> []" using c cs False by blast
            show ?thesis unfolding search_answer_def if_P [OF ex] using c that unfolding cs by blast
          qed
          ultimately show ?thesis by blast
        qed
      qed
    qed
  qed
qed

section \<open>Properties\<close>

text \<open>
  C1: Search answers what the tables say, for every lawful and consistent database, every pair of sorts and every failure of a query: it changes no
  row, it does not panic, and if it succeeds the page is empty when the owner, the category or its centroids do not exist, and otherwise
  the part from \<open>offset\<close> on of the best documents among the embeddings of the nearest centroids: sorted, each document once with its best
  similarity, nothing better left out, with the fields of their rows. Four things are taken for granted: the text could be embedded, the
  cache agrees with the tables wherever its entries have not expired (an older cache answers what the tables said before), the vector of the query is longer than
  its header and as long as every stored centroid and embedding (another width panics), and the capacity asked for its list can be allocated.
\<close>

theorem search_refines_tables:
  assumes "ai_embed [runes ''search_query: '' @ q_Text req] = Inr (q # rest)" and "8 < length q"
    and "sorting S1" and "sorting S2" and "lawful_reads tbl D" and "cache_fresh clk (fst s) (tbl (snd s))"
    and "tables_ok (tbl (snd s))" and "same_length q (tbl (snd s))"
    and "uint64_add (uint64_add (clamp_count (q_Count req)) (q_Offset req)) BATCH_SIZE_DATABASE \<le> largest"
    and "Search D S1 S2 largest ai_embed clk req s = (r, s')"
  shows "tbl (snd s') = tbl (snd s) \<and> (\<exists>v. r = Done v \<and> (\<forall>page. v = Inr page \<longrightarrow> search_answer q (tbl (snd s)) req page))"
  using assms by (rule Search_answer)

definition search_tables :: tables where
  "search_tables = \<lparr>t_owners = [\<lparr>owner_ID = 1, owner_Name = [97]\<rparr>],
     t_categories = [\<lparr>category_ID = 1, category_Name = [98], category_OwnerID = 1\<rparr>],
     t_centroids = [\<lparr>centroid_ID = 1, centroid_Vector = [0, 0, 0, 0, 0, 0, 128, 63, 255], centroid_CategoryID = 1\<rparr>],
     t_documents = [\<lparr>document_ID = 1, document_Name = [99], document_ExternalID = [], document_Document = None, document_CategoryID = 1\<rparr>],
     t_embeddings = [\<lparr>embedding_ID = 1, embedding_Vector = [0, 0, 0, 0, 0, 0, 128, 63, 255], embedding_DocumentID = 1, embedding_CentroidID = 1\<rparr>], t_next = 2\<rparr>"

definition search_request :: SearchRequest where
  "search_request = \<lparr>q_Owner = [97], q_Category = [98], q_Text = [], q_Count = 3, q_Offset = 0, q_Centroids = -1\<rparr>"

lemma search_tables_ok: "tables_ok search_tables \<and> same_length ([0, 0, 0, 0, 0, 0, 128, 63, 255]) search_tables"
  by (simp add: search_tables_def tables_ok_def keys_ok_def indexes_ok_def references_ok_def same_category_def same_length_def id_sets)

abbreviation search_run :: "(error + DocumentSearch list) outcome \<times> memory server" where
  "search_run \<equiv> Search memory_store insertionSort insertionSort 5000 (\<lambda>_. Inr [[0, 0, 0, 0, 0, 0, 128, 63, 255]]) (\<lambda>_. 0) search_request
     (NewCache, \<lparr>mem = search_tables, script = []\<rparr>)"

lemma search_request_fits: "uint64_add (uint64_add (clamp_count (q_Count search_request)) (q_Offset search_request)) BATCH_SIZE_DATABASE \<le> 5000"
  by (simp add: search_request_def clamp_count_def uint64_add_def BATCH_SIZE_DATABASE_def)

theorem search_refines_tables_witness:
  "mem (snd (snd search_run)) = search_tables \<and> (\<exists>v. fst search_run = Done v)"
proof -
  let ?s = "(NewCache, \<lparr>mem = search_tables, script = []\<rparr>) :: memory server"
  have e: "(\<lambda>_. Inr [[0, 0, 0, 0, 0, 0, 128, 63, 255]] :: error + u8 list list) [runes ''search_query: '' @ q_Text search_request] = Inr ([0, 0, 0, 0, 0, 0, 128, 63, 255] # [])" by simp
  have l: "8 < length [0, 0, 0, 0, 0, 0, 128, 63, 255 :: u8]" by simp
  have f: "cache_fresh (\<lambda>_. 0) (fst ?s) (mem (snd ?s))" by simp
  have t: "tables_ok (mem (snd ?s))" "same_length ([0, 0, 0, 0, 0, 0, 128, 63, 255]) (mem (snd ?s))" using search_tables_ok by simp_all
  have r: "search_run = (fst search_run, snd search_run)" by simp
  from search_refines_tables [OF e l insertionSort_sorting insertionSort_sorting memory_reads f t search_request_fits r]
  show ?thesis by auto
qed

section \<open>Searching everything\<close>

text \<open>The embeddings of the documents of a category.\<close>

definition category_embeddings :: "tables \<Rightarrow> id \<Rightarrow> Embedding list" where
  "category_embeddings T i =
     filter (\<lambda>e. \<exists>d \<in> set (t_documents T). document_ID d = embedding_DocumentID e \<and> document_CategoryID d = i) (t_embeddings T)"

lemma searched_all:
  assumes "searched q MaxInt cs ids" and "int (length cs) \<le> MaxInt"
  shows "set ids = centroid_ID ` set cs"
proof -
  obtain near far where s: "mset (near @ far) = mset cs" "ids = map centroid_ID near" "length near = nat (min MaxInt (int (length cs)))"
    using assms(1) by (auto simp: searched_def)
  then have l: "length near = length cs" using assms(2) by simp
  have "length near + length far = length cs" using arg_cong [OF s(1), of size] by simp
  then have "far = []" using l by simp
  then have "set near = set cs" using s(1) by (metis append_Nil2 set_mset_mset)
  then show ?thesis using s(2) by simp
qed

lemma embeddings_of_category:
  assumes "tables_ok T"
  shows "embeddings_of T (map centroid_ID (centroids_of T i)) = category_embeddings T i"
  unfolding embeddings_of_def category_embeddings_def
proof (rule filter_cong [OF refl])
  fix e assume e: "e \<in> set (t_embeddings T)"
  have ref: "references_ok T" and same: "same_category T" and keys: "keys_ok T" using assms by (simp_all add: tables_ok_def)
  obtain d where d: "d \<in> set (t_documents T)" "document_ID d = embedding_DocumentID e"
  proof -
    have "embedding_DocumentID e \<in> document_ids T" using ref e by (auto simp: references_ok_def)
    then show ?thesis using that by (auto simp: document_ids_def)
  qed
  obtain c where c: "c \<in> set (t_centroids T)" "centroid_ID c = embedding_CentroidID e"
  proof -
    have "embedding_CentroidID e \<in> centroid_ids T" using ref e by (auto simp: references_ok_def)
    then show ?thesis using that by (auto simp: centroid_ids_def)
  qed
  have dc: "document_CategoryID d = centroid_CategoryID c" using same e d c unfolding same_category_def by metis
  have ud: "d' = d" if "d' \<in> set (t_documents T)" "document_ID d' = embedding_DocumentID e" for d'
    using keys that d by (simp add: keys_ok_def distinct_map inj_on_def)
  have uc: "c' = c" if "c' \<in> set (t_centroids T)" "centroid_ID c' = embedding_CentroidID e" for c'
    using keys that c by (simp add: keys_ok_def distinct_map inj_on_def)
  have "embedding_CentroidID e \<in> set (map centroid_ID (centroids_of T i)) \<longleftrightarrow> centroid_CategoryID c = i"
  proof -
    have "embedding_CentroidID e \<in> set (map centroid_ID (centroids_of T i)) \<longleftrightarrow>
        (\<exists>x \<in> set (t_centroids T). centroid_CategoryID x = i \<and> centroid_ID x = embedding_CentroidID e)"
      by (auto simp: centroids_of_def image_iff)
    then show ?thesis using c uc by metis
  qed
  moreover have "(\<exists>d \<in> set (t_documents T). document_ID d = embedding_DocumentID e \<and> document_CategoryID d = i)
      \<longleftrightarrow> document_CategoryID d = i" using d ud by blast
  ultimately show "embedding_CentroidID e \<in> set (map centroid_ID (centroids_of T i)) \<longleftrightarrow>
      (\<exists>d \<in> set (t_documents T). document_ID d = embedding_DocumentID e \<and> document_CategoryID d = i)" using dc by simp
qed

text \<open>While no query fails, a search that has its embedding and its memory succeeds.\<close>

lemma search_centroids_succeeds:
  assumes q: "NewVector q = Done target" and S: "sorting S1" "sorting S2" and D: "lawful_reads tbl D" "steady I D"
    and cs: "cs \<noteq> []" "\<forall>c \<in> set cs. length (centroid_Vector c) = length q"
    and T: "same_length q (tbl (snd s))" "distinct (map document_ID (t_documents (tbl (snd s))))"
    and cap: "uint64_add (uint64_add cnt offset) BATCH_SIZE_DATABASE \<le> largest" and I: "I (snd s)"
  shows "\<exists>page. fst (search_centroids D S1 S2 largest target cnt offset k cs s) = Done (Inr page)"
proof -
  obtain ids where ids: "nearest_centroids S1 target cs k = Done ids"
    using nearest_centroids_searched [OF q S(1) cs] by blast
  obtain bs d where f: "find_embeddings D ids (snd s) = ((bs, None), d)" "I d"
    using D(2) I unfolding steady_def by (metis prod.collapse)
  obtain v where v: "fst (search_centroids D S1 S2 largest target cnt offset k cs s) = Done v"
    using search_centroids_page [OF q S D(1) cs T _ cap, of k "fst (search_centroids D S1 S2 largest target cnt offset k cs s)"
        "snd (search_centroids D S1 S2 largest target cnt offset k cs s)"] by auto
  obtain hits where hits: "rank_batches S2 target (uint64_add cnt offset) [] bs = Done hits"
    using v by (cases "rank_batches S2 target (uint64_add cnt offset) [] bs")
      (simp_all add: search_centroids_def sure_def ids make_hits_def on_db_def f Let_def split: if_splits)
  have "steady_query I (find_documents D (map fst hits))" using D(2) by (simp add: steady_def)
  moreover have "reads tbl (find_documents D (map fst hits)) (\<lambda>T r. set r \<subseteq> set (t_documents T)
      \<and> {x \<in> set (t_documents T). document_ID x \<in> set (map fst hits)} \<subseteq> set r) (\<lambda>_. False)"
    using D(1) unfolding lawful_reads_def by blast
  ultimately obtain ds d' where "find_documents D (map fst hits) d = (Inr ds, d')"
    using f(2) unfolding steady_query_def reads_def
    by (cases "find_documents D (map fst hits) d"; cases "fst (find_documents D (map fst hits) d)") (fastforce split: sum.splits)+
  then show ?thesis using v hits
    by (cases "fill_page cnt offset 0 [] hits")
      (auto simp: search_centroids_def sure_def ids make_hits_def on_db_def f Let_def on_ok_def succeed_def split: if_splits)
qed

lemma Search_succeeds:
  assumes q: "ai_embed [runes ''search_query: '' @ q_Text req] = Inr (q # rest)" "8 < length q"
    and S: "sorting S1" "sorting S2" and D: "lawful_reads tbl D" "steady I D" and fresh: "cache_fresh clk (fst s) (tbl (snd s))"
    and T: "tables_ok (tbl (snd s))" "same_length q (tbl (snd s))"
    and cap: "uint64_add (uint64_add (clamp_count (q_Count req)) (q_Offset req)) BATCH_SIZE_DATABASE \<le> largest"
    and I: "I (snd s)"
  shows "\<exists>page. fst (Search D S1 S2 largest ai_embed clk req s) = Done (Inr page)"
proof -
  let ?T = "tbl (snd s)"
  obtain target where t: "NewVector q = Done target" using q(2) vector_of_Done [of q] by (auto simp: NewVector_def)
  obtain r1 s1 where f1: "fetch_owner clk (q_Owner req) (take_owner D (q_Owner req)) s = (r1, s1)" by (metis surj_pair)
  have a1: "I (snd s1) \<and> (case r1 of Inr v \<Rightarrow> True | Inl e \<Rightarrow> \<not> is_canceled e \<and> errors_Is e RecordNotFound)"
    using D(2) I by (intro fetch_owner_answers [OF _ _ f1]) (simp_all add: steady_def)
  have 1: "tbl (snd s1) = ?T" "category (fst s1) = category (fst s)" "centroids (fst s1) = centroids (fst s)"
    using fetch_owner_reads [OF D(1) _ f1] fresh by (simp_all add: cache_fresh_def)
  show ?thesis
  proof (cases r1)
    case (Inl e)
    then show ?thesis using a1 by (simp add: Search_def q t f1 sure_def on_found_def succeed_def)
  next
    case (Inr w)
    obtain r2 s2 where f2: "fetch_category clk (q_Category req) (owner_ID w) (take_category D (q_Category req) (owner_ID w)) s1 = (r2, s2)"
      by (metis surj_pair)
    have a2: "I (snd s2) \<and> (case r2 of Inr v \<Rightarrow> True | Inl e \<Rightarrow> \<not> is_canceled e \<and> errors_Is e RecordNotFound)"
      using D(2) a1 by (intro fetch_category_answers [OF _ _ f2]) (simp_all add: steady_def)
    have 2: "tbl (snd s2) = ?T" "centroids (fst s2) = centroids (fst s)"
      using fetch_category_reads [OF D(1) _ f2, unfolded 1(1-3)] fresh 1(2) by (simp_all add: cache_fresh_def categories_fresh_def)
    show ?thesis
    proof (cases r2)
      case (Inl e)
      then show ?thesis using a2 \<open>r1 = Inr w\<close> by (simp add: Search_def q t f1 f2 sure_def on_found_def succeed_def)
    next
      case (Inr c)
      obtain r3 s3 where f3: "fetch_centroids clk (category_ID c) (find_centroids D (category_ID c)) s2 = (r3, s3)" by (metis surj_pair)
      have a3: "I (snd s3) \<and> (case r3 of Inr v \<Rightarrow> True | Inl e \<Rightarrow> \<not> is_canceled e \<and> errors_Is e RecordNotFound)"
        using D(2) a2 by (intro fetch_centroids_answers [OF _ _ f3]) (simp_all add: steady_def)
      have 3: "tbl (snd s3) = ?T" "case r3 of Inr v \<Rightarrow> v = centroids_of ?T (category_ID c) | Inl e \<Rightarrow> \<not> errors_Is e RecordNotFound"
      proof -
        have fr: "centroids_fresh (clk 4) (fst s2) ?T" using fresh 2(2) by (simp add: cache_fresh_def centroids_fresh_def)
        from fetch_centroids_reads [OF D(1) _ f3, unfolded 2(1), OF fr]
        show "tbl (snd s3) = ?T" "case r3 of Inr v \<Rightarrow> v = centroids_of ?T (category_ID c) | Inl e \<Rightarrow> \<not> errors_Is e RecordNotFound"
          unfolding centroids_of_def by blast+
      qed
      then obtain cs where cs: "r3 = Inr cs" "cs = centroids_of ?T (category_ID c)" using a3 by (cases r3) auto
      note eqs = Search_def q t f1 f2 f3 \<open>r1 = Inr w\<close> \<open>r2 = Inr c\<close> cs(1) sure_def on_found_def on_ok_def succeed_def
      show ?thesis
      proof (cases "cs = []")
        case True
        then show ?thesis by (simp add: eqs)
      next
        case False
        have v: "\<forall>x \<in> set cs. length (centroid_Vector x) = length q"
          using T(2) by (auto simp: cs centroids_of_def same_length_def)
        have T3: "same_length q (tbl (snd s3))" "distinct (map document_ID (t_documents (tbl (snd s3))))"
          using T 3(1) by (simp_all add: tables_ok_def keys_ok_def)
        from a3 have "I (snd s3)" ..
        from search_centroids_succeeds [where I = I and s = s3, OF t S D False v T3 cap this] False show ?thesis by (simp add: eqs)
      qed
    qed
  qed
qed

lemma Search_exact:
  assumes "ai_embed [runes ''search_query: '' @ q_Text req] = Inr (q # rest)" and "8 < length q"
    and "sorting S1" and "sorting S2" and "lawful_reads tbl D" and "steady I D" and "cache_fresh clk (fst s) (tbl (snd s))"
    and "tables_ok (tbl (snd s))" and "same_length q (tbl (snd s))"
    and "uint64_add (uint64_add (clamp_count (q_Count req)) (q_Offset req)) BATCH_SIZE_DATABASE \<le> largest" and "I (snd s)"
    and "q_Centroids req < 0" and "int (length (t_centroids (tbl (snd s)))) \<le> MaxInt"
    and "named (tbl (snd s)) (q_Owner req) (q_Category req) c" and "centroids_of (tbl (snd s)) (category_ID c) \<noteq> []"
  shows "\<exists>page hits. fst (Search D S1 S2 largest ai_embed clk req s) = Done (Inr page)
    \<and> top_hits (uint64_add (clamp_count (q_Count req)) (q_Offset req))
        (candidates q (category_embeddings (tbl (snd s)) (category_ID c))) hits
    \<and> hit_pairs page = drop (q_Offset req) hits"
proof -
  let ?T = "tbl (snd s)"
  obtain page where p: "fst (Search D S1 S2 largest ai_embed clk req s) = Done (Inr page)"
    using Search_succeeds [where I = I and s = s and ai_embed = ai_embed and req = req, OF assms(1-11)] by blast
  then have "search_answer q ?T req page"
    using Search_answer [where ai_embed = ai_embed and req = req and s = s, OF assms(1-5) assms(7-10), of "Done (Inr page)" "snd (Search D S1 S2 largest ai_embed clk req s)"]
    by (metis outcome.inject(1) prod.collapse)
  moreover have ex: "\<exists>c. named ?T (q_Owner req) (q_Category req) c \<and> centroids_of ?T (category_ID c) \<noteq> []" using assms(14,15) by blast
  moreover have u: "c' = c" if "named ?T (q_Owner req) (q_Category req) c'" for c'
    using named_unique [OF _ that assms(14)] assms(8) by (simp add: tables_ok_def)
  moreover have "clamp_centroids (q_Centroids req) = MaxInt" using assms(12) by (simp add: clamp_centroids_def)
  ultimately obtain ids hits where h: "searched q MaxInt (centroids_of ?T (category_ID c)) ids"
      "top_hits (uint64_add (clamp_count (q_Count req)) (q_Offset req)) (candidates q (embeddings_of ?T ids)) hits"
      "hit_pairs page = drop (q_Offset req) hits"
    unfolding search_answer_def if_P [OF ex] page_ok_def by metis
  have "int (length (centroids_of ?T (category_ID c))) \<le> MaxInt"
    using assms(13) length_filter_le [of "\<lambda>x. centroid_CategoryID x = category_ID c" "t_centroids ?T"]
    unfolding centroids_of_def by linarith
  from searched_all [OF h(1) this] have "embeddings_of ?T ids = embeddings_of ?T (map centroid_ID (centroids_of ?T (category_ID c)))"
    by (simp add: embeddings_of_def)
  then show ?thesis using h p embeddings_of_category [OF assms(8)] by metis
qed

text \<open>
  C2: A search with a negative number of centroids is exact: in a category that exists and has at least one centroid, it succeeds, and its page is cut out
  of the best documents of the whole category, whatever centroids the embeddings are assigned to. It takes a consistent database none of whose
  queries fails, a cache that agrees with the tables wherever its entries have not expired (with an older list of centroids, or an empty one, parts of the category are
  not searched), an embedding of the text
  that is longer than its header and as long as every stored vector, and the capacity of the list.
\<close>

theorem search_all_centroids_exact:
  assumes "ai_embed [runes ''search_query: '' @ q_Text req] = Inr (q # rest)" and "8 < length q"
    and "sorting S1" and "sorting S2" and "lawful_reads tbl D" and "steady I D" and "cache_fresh clk (fst s) (tbl (snd s))"
    and "tables_ok (tbl (snd s))" and "same_length q (tbl (snd s))"
    and "uint64_add (uint64_add (clamp_count (q_Count req)) (q_Offset req)) BATCH_SIZE_DATABASE \<le> largest" and "I (snd s)"
    and "q_Centroids req < 0" and "int (length (t_centroids (tbl (snd s)))) \<le> MaxInt"
    and "named (tbl (snd s)) (q_Owner req) (q_Category req) c" and "centroids_of (tbl (snd s)) (category_ID c) \<noteq> []"
  shows "\<exists>page hits. fst (Search D S1 S2 largest ai_embed clk req s) = Done (Inr page)
    \<and> top_hits (uint64_add (clamp_count (q_Count req)) (q_Offset req))
        (candidates q (category_embeddings (tbl (snd s)) (category_ID c))) hits
    \<and> hit_pairs page = drop (q_Offset req) hits"
  using assms by (rule Search_exact)

theorem search_all_centroids_exact_witness:
  "\<exists>page hits. fst search_run = Done (Inr page) \<and> hit_pairs page = hits \<and> length hits = 1"
proof -
  let ?q = "[0, 0, 0, 0, 0, 0, 128, 63, 255] :: u8 list"
  let ?s = "(NewCache, \<lparr>mem = search_tables, script = []\<rparr>) :: memory server"
  let ?c = "\<lparr>category_ID = 1, category_Name = [98], category_OwnerID = 1\<rparr>"
  have e: "(\<lambda>_. Inr [?q] :: error + u8 list list) [runes ''search_query: '' @ q_Text search_request] = Inr (?q # [])" by simp
  have l: "8 < length ?q" by simp
  have f: "cache_fresh (\<lambda>_. 0) (fst ?s) (mem (snd ?s))" by simp
  have t: "tables_ok (mem (snd ?s))" "same_length ?q (mem (snd ?s))" using search_tables_ok by simp_all
  have i: "script (snd ?s) = []" "q_Centroids search_request < 0" "int (length (t_centroids (mem (snd ?s)))) \<le> MaxInt"
      "named (mem (snd ?s)) (q_Owner search_request) (q_Category search_request) ?c" "centroids_of (mem (snd ?s)) (category_ID ?c) \<noteq> []"
    by (simp_all add: search_request_def search_tables_def MaxInt_def named_def centroids_of_def)
  obtain page hits where "fst search_run = Done (Inr page)" "hit_pairs page = drop (q_Offset search_request) hits"
      "top_hits (uint64_add (clamp_count (q_Count search_request)) (q_Offset search_request))
        (candidates ?q (category_embeddings (mem (snd ?s)) (category_ID ?c))) hits"
    using search_all_centroids_exact [where I = "\<lambda>d. script d = []" and s = ?s, OF e l insertionSort_sorting insertionSort_sorting memory_reads memory_steady f t
        search_request_fits i] by blast
  moreover have "category_embeddings (mem (snd ?s)) (category_ID ?c) = t_embeddings search_tables"
    by (simp add: category_embeddings_def search_tables_def)
  ultimately show ?thesis
    by (simp add: top_hits_def candidates_def search_request_def search_tables_def clamp_count_def uint64_add_def)
qed

end
