(* ===== verification/Handlers.thy ===== *)
theory Handlers
  imports Store
begin

text \<open>
  What the handlers keep. A small logic for the combinators the handlers are written with, the writes of the
  database as steps that keep the tables consistent, and the fetches through the cache as steps that keep the centroids in the cache true to their
  categories. The database is a locale with the laws of \<open>Store\<close>; the store in memory is one.
\<close>

section \<open>Steps of a handler\<close>

text \<open>From \<open>P\<close> the query ends in \<open>Q\<close> of its result, or with an error in \<open>I\<close>; from \<open>P\<close> the handler ends in \<open>I\<close> in any case.\<close>

definition gives :: "('s \<Rightarrow> bool) \<Rightarrow> ('s \<Rightarrow> bool) \<Rightarrow> ('s \<Rightarrow> (error + 'r) \<times> 's) \<Rightarrow> ('r \<Rightarrow> 's \<Rightarrow> bool) \<Rightarrow> bool" where
  "gives I P q Q \<longleftrightarrow> (\<forall>s. P s \<longrightarrow> (case q s of (Inr r, s') \<Rightarrow> Q r s' | (Inl e, s') \<Rightarrow> I s'))"

definition keeps :: "('s \<Rightarrow> bool) \<Rightarrow> ('s \<Rightarrow> bool) \<Rightarrow> ('s, 'a) action \<Rightarrow> bool" where
  "keeps I P a \<longleftrightarrow> (\<forall>s. P s \<longrightarrow> I (snd (a s)))"

named_theorems keeping \<open>rules for the handlers' combinators\<close>

lemma keeps_succeed [keeping]: "(\<And>s. P s \<Longrightarrow> I s) \<Longrightarrow> keeps I P (succeed x)"
  by (simp add: keeps_def succeed_def)

lemma keeps_fail [keeping]: "(\<And>s. P s \<Longrightarrow> I s) \<Longrightarrow> keeps I P (fail_with e)"
  by (simp add: keeps_def fail_with_def)

lemma keeps_sure [keeping]:
  "(\<And>s. P s \<Longrightarrow> I s) \<Longrightarrow> (\<And>x. r = Done x \<Longrightarrow> keeps I P (k x)) \<Longrightarrow> keeps I P (sure r k)"
  by (cases r) (simp_all add: keeps_def sure_def)

lemma keeps_on_ok [keeping]:
  "gives I P q Q \<Longrightarrow> (\<And>r. keeps I (Q r) (k r)) \<Longrightarrow> keeps I P (on_ok msg q k)"
  unfolding keeps_def gives_def on_ok_def fail_with_def by (fastforce split: prod.splits sum.splits)

lemma keeps_on_found [keeping]:
  "gives I P q Q \<Longrightarrow> (\<And>r. keeps I (Q r) (k r)) \<Longrightarrow> keeps I P (on_found msg missing q k)"
  unfolding keeps_def gives_def on_found_def fail_with_def succeed_def by (fastforce split: prod.splits sum.splits)

lemma keeps_if [keeping]: "(b \<Longrightarrow> keeps I P x) \<Longrightarrow> (\<not> b \<Longrightarrow> keeps I P y) \<Longrightarrow> keeps I P (if b then x else y)"
  by simp

lemma gives_then:
  "gives I P q Q \<Longrightarrow> (\<And>r s. Q r s \<Longrightarrow> R r s) \<Longrightarrow> gives I P q R"
  unfolding gives_def by (fastforce split: prod.splits sum.splits)

section \<open>Centroids in the cache\<close>

text \<open>
  A centroid once read for the category \<open>i\<close>: it may be gone by now, but no row with its identifier is in another category, and
  none will be, since identifiers are not reused.
\<close>

definition known :: "id \<Rightarrow> Centroid \<Rightarrow> tables \<Rightarrow> bool" where
  "known i x T \<longleftrightarrow> centroid_CategoryID x = i \<and> centroid_ID x < t_next T
   \<and> (\<forall>y \<in> set (t_centroids T). centroid_ID y = centroid_ID x \<longrightarrow> centroid_CategoryID y = i)"

definition cached_ok :: "Cache \<Rightarrow> tables \<Rightarrow> bool" where
  "cached_ok c T \<longleftrightarrow> (\<forall>key it. centroids c key = Some it \<longrightarrow>
     (\<exists>i. key = centroidsKey i \<and> (\<forall>x \<in> set (item_value it). known i x T)))"

text \<open>
  How tables change over time, whoever changes them: new rows have new numbers, old ones keep what they refer to, and as long as a
  category exists it keeps its centroids.
\<close>

definition centroid_key :: "Centroid \<Rightarrow> id \<times> id" where "centroid_key x = (centroid_ID x, centroid_CategoryID x)"
definition document_key :: "Document \<Rightarrow> id \<times> id" where "document_key d = (document_ID d, document_CategoryID d)"
definition embedding_key :: "Embedding \<Rightarrow> id \<times> id" where "embedding_key e = (embedding_ID e, embedding_DocumentID e)"

definition rows_from :: "('r \<Rightarrow> id \<times> id) \<Rightarrow> id \<Rightarrow> 'r list \<Rightarrow> 'r list \<Rightarrow> bool" where
  "rows_from f n rs rs' \<longleftrightarrow> (\<forall>r \<in> set rs'. n \<le> fst (f r) \<or> f r \<in> f ` set rs)"

definition categories_stay :: "tables \<Rightarrow> tables \<Rightarrow> bool" where
  "categories_stay T T' \<longleftrightarrow> (\<forall>i \<in> category_ids T'. t_next T \<le> i \<or>
     i \<in> category_ids T \<and> (\<forall>k. (k, i) \<in> centroid_key ` set (t_centroids T) \<longrightarrow> (k, i) \<in> centroid_key ` set (t_centroids T')))"

definition evolves :: "tables \<Rightarrow> tables \<Rightarrow> bool" where
  "evolves T T' \<longleftrightarrow> t_next T \<le> t_next T' \<and> rows_from centroid_key (t_next T) (t_centroids T) (t_centroids T')
   \<and> rows_from document_key (t_next T) (t_documents T) (t_documents T')
   \<and> rows_from embedding_key (t_next T) (t_embeddings T) (t_embeddings T') \<and> categories_stay T T'"

lemma rows_from_same [simp]: "rows_from f n rs rs"
  by (simp add: rows_from_def)

lemma rows_from_append: "\<forall>r \<in> set new. n \<le> fst (f r) \<Longrightarrow> rows_from f n rs (rs @ new)"
  by (auto simp: rows_from_def)

lemma rows_from_filter [simp]: "rows_from f n rs (filter P rs)"
  by (simp add: rows_from_def)

lemma rows_from_trans: "rows_from f n rs rs' \<Longrightarrow> rows_from f n' rs' rs'' \<Longrightarrow> n \<le> n' \<Longrightarrow> rows_from f n rs rs''"
  unfolding rows_from_def by (smt (verit, ccfv_threshold) imageE order_trans)

lemma categories_stay_same:
  "t_categories T' = t_categories T \<Longrightarrow> centroid_key ` set (t_centroids T) \<subseteq> centroid_key ` set (t_centroids T') \<Longrightarrow> categories_stay T T'"
  by (auto simp: categories_stay_def category_ids_def)

lemma evolves_refl [simp]: "evolves T T"
  by (simp add: evolves_def categories_stay_same)

lemma evolves_trans:
  assumes "evolves T T'" and "evolves T' T''"
  shows "evolves T T''"
proof -
  have n: "t_next T \<le> t_next T'" using assms(1) by (simp add: evolves_def)
  then have "categories_stay T T''"
    using assms unfolding evolves_def categories_stay_def by (meson order_trans)
  then show ?thesis using assms rows_from_trans [OF _ _ n] unfolding evolves_def by (meson order_trans)
qed

lemma known_evolves:
  assumes "known i x T" and "evolves T T'"
  shows "known i x T'"
proof -
  have "centroid_CategoryID y = i" if y: "y \<in> set (t_centroids T')" "centroid_ID y = centroid_ID x" for y
  proof -
    have "centroid_ID y < t_next T" using assms(1) y(2) by (simp add: known_def)
    then have "centroid_key y \<in> centroid_key ` set (t_centroids T)"
      using assms(2) y(1) by (auto simp: evolves_def rows_from_def centroid_key_def)
    then show ?thesis using assms(1) y(2) by (auto simp: known_def centroid_key_def)
  qed
  then show ?thesis using assms by (simp add: known_def evolves_def)
qed

lemma cached_ok_evolves: "cached_ok c T \<Longrightarrow> evolves T T' \<Longrightarrow> cached_ok c T'"
  unfolding cached_ok_def by (metis known_evolves)

lemma cached_ok_other [simp]:
  "cached_ok (c\<lparr>owner := t\<rparr>) T = cached_ok c T" "cached_ok (c\<lparr>category := u\<rparr>) T = cached_ok c T"
  by (simp_all add: cached_ok_def)

lemma NewCache_ok [simp]: "cached_ok NewCache T"
  by (simp add: cached_ok_def NewCache_def)

lemma centroidsKey_inject [simp]: "centroidsKey i = centroidsKey j \<longleftrightarrow> i = j"
  by (simp add: centroidsKey_def)

lemma known_stored: "keys_ok T \<Longrightarrow> x \<in> set (t_centroids T) \<Longrightarrow> known (centroid_CategoryID x) x T"
  unfolding known_def keys_ok_def id_sets by (auto simp: distinct_map inj_on_def)

section \<open>Writes\<close>

text \<open>Every write of the database keeps consistent tables consistent, and they evolve.\<close>

definition advances :: "tables \<Rightarrow> tables \<Rightarrow> bool" where
  "advances T T' \<longleftrightarrow> (tables_ok T \<longrightarrow> tables_ok T' \<and> evolves T T')"

lemma advances_refl [simp]: "advances T T"
  by (simp add: advances_def)

lemma created_evolves:
  "categories_stay T (T\<lparr>t_owners := ws, t_next := k\<rparr>)"
  "t_next T \<le> category_ID c \<Longrightarrow> categories_stay T (T\<lparr>t_categories := t_categories T @ [c], t_next := k\<rparr>)"
  "categories_stay T (T\<lparr>t_centroids := t_centroids T @ xs, t_next := k\<rparr>)"
  "categories_stay T (T\<lparr>t_documents := ds, t_next := k\<rparr>)"
  "categories_stay T (T\<lparr>t_embeddings := es, t_next := k\<rparr>)"
  "t_next T \<le> centroid_ID x \<Longrightarrow> rows_from centroid_key (t_next T) xs (xs @ [x])"
  "\<forall>d \<in> set ds. t_next T \<le> document_ID d \<Longrightarrow> rows_from document_key (t_next T) ds' (ds' @ ds)"
  "\<forall>e \<in> set es. t_next T \<le> embedding_ID e \<Longrightarrow> rows_from embedding_key (t_next T) es' (es' @ es)"
  by (auto simp: categories_stay_def category_ids_def centroid_key_def document_key_def embedding_key_def intro!: rows_from_append)

text \<open>Rows with distinct numbers, all below the next one.\<close>

definition rows_numbered :: "('r \<Rightarrow> id) \<Rightarrow> 'r list \<Rightarrow> id \<Rightarrow> bool" where
  "rows_numbered f rs n \<longleftrightarrow> distinct (map f rs) \<and> (\<forall>r \<in> set rs. f r < n)"

lemma keys_ok_numbered:
  "keys_ok T \<longleftrightarrow> rows_numbered owner_ID (t_owners T) (t_next T) \<and> rows_numbered category_ID (t_categories T) (t_next T)
    \<and> rows_numbered centroid_ID (t_centroids T) (t_next T) \<and> rows_numbered document_ID (t_documents T) (t_next T)
    \<and> rows_numbered embedding_ID (t_embeddings T) (t_next T)"
  by (auto simp: keys_ok_def rows_numbered_def id_sets ball_Un)

lemma rows_numbered_mono: "rows_numbered f rs n \<Longrightarrow> n \<le> k \<Longrightarrow> rows_numbered f rs k"
  by (auto simp: rows_numbered_def)

lemma rows_numbered_append:
  "rows_numbered f rs n \<Longrightarrow> distinct (map f new) \<Longrightarrow> \<forall>r \<in> set new. n \<le> f r \<and> f r < k \<Longrightarrow> n \<le> k \<Longrightarrow> rows_numbered f (rs @ new) k"
  by (fastforce simp: rows_numbered_def)

lemma rows_numbered_filter: "rows_numbered f rs n \<Longrightarrow> rows_numbered f (filter P rs) n"
  by (simp add: rows_numbered_def distinct_map_filter)

lemma owner_created_advances:
  assumes "owner_created n T r T'"
  shows "advances T T'"
proof -
  obtain k where T': "T' = T\<lparr>t_owners := t_owners T @ [r], t_next := k\<rparr>" and k: "owner_ID r < k"
    using assms unfolding owner_created_def by blast
  have r: "owner_Name r = n" "n \<notin> owner_Name ` set (t_owners T)" "t_next T \<le> owner_ID r"
    using assms by (simp_all add: owner_created_def)
  have "keys_ok T \<Longrightarrow> keys_ok T'" using r k by (simp add: T' keys_ok_numbered rows_numbered_mono [where n = "t_next T" and k = k] rows_numbered_append [where n = "t_next T" and k = k])
  moreover have "indexes_ok T \<Longrightarrow> indexes_ok T'" using r by (simp add: T' indexes_ok_def)
  moreover have "references_ok T \<Longrightarrow> references_ok T'" by (auto simp: T' references_ok_def id_sets)
  moreover have "same_category T \<Longrightarrow> same_category T'" by (simp add: T' same_category_def)
  moreover have "evolves T T'" using r k by (simp add: T' evolves_def created_evolves)
  ultimately show ?thesis by (simp add: advances_def tables_ok_def)
qed

lemma category_created_advances:
  assumes "category_created n i T r T'"
  shows "advances T T'"
proof -
  obtain k where T': "T' = T\<lparr>t_categories := t_categories T @ [r], t_next := k\<rparr>" and k: "category_ID r < k"
    using assms unfolding category_created_def by blast
  have r: "category_Name r = n" "category_OwnerID r = i" "i \<in> owner_ids T" "t_next T \<le> category_ID r"
      "(i, n) \<notin> (\<lambda>c. (category_OwnerID c, category_Name c)) ` set (t_categories T)"
    using assms by (simp_all add: category_created_def)
  have "keys_ok T \<Longrightarrow> keys_ok T'" using r k by (simp add: T' keys_ok_numbered rows_numbered_mono [where n = "t_next T" and k = k] rows_numbered_append [where n = "t_next T" and k = k])
  moreover have "indexes_ok T \<Longrightarrow> indexes_ok T'" using r by (simp add: T' indexes_ok_def)
  moreover have "references_ok T \<Longrightarrow> references_ok T'" using r by (auto simp: T' references_ok_def id_sets)
  moreover have "same_category T \<Longrightarrow> same_category T'" by (simp add: T' same_category_def)
  moreover have "evolves T T'" using r k by (simp add: T' evolves_def created_evolves)
  ultimately show ?thesis by (simp add: advances_def tables_ok_def)
qed

lemma centroid_created_advances:
  assumes "centroid_created v i T r T'"
  shows "advances T T'"
proof -
  obtain k where T': "T' = T\<lparr>t_centroids := t_centroids T @ [r], t_next := k\<rparr>" and k: "centroid_ID r < k"
    using assms unfolding centroid_created_def by blast
  have r: "centroid_CategoryID r = i" "i \<in> category_ids T" "t_next T \<le> centroid_ID r"
    using assms by (simp_all add: centroid_created_def)
  have "keys_ok T \<Longrightarrow> keys_ok T'" using r k by (simp add: T' keys_ok_numbered rows_numbered_mono [where n = "t_next T" and k = k] rows_numbered_append [where n = "t_next T" and k = k])
  moreover have "indexes_ok T \<Longrightarrow> indexes_ok T'" by (simp add: T' indexes_ok_def)
  moreover have "references_ok T \<Longrightarrow> references_ok T'" using r by (auto simp: T' references_ok_def id_sets)
  moreover have "same_category T'" if "same_category T" "keys_ok T" "references_ok T"
  proof -
    have "centroid_ID r \<notin> centroid_ids T" using \<open>keys_ok T\<close> r(3) by (meson UnI1 UnI2 keys_ok_def leD)
    then have "embedding_CentroidID e \<noteq> centroid_ID r" if "e \<in> set (t_embeddings T)" for e
      using \<open>references_ok T\<close> that by (auto simp: references_ok_def)
    then show ?thesis using \<open>same_category T\<close> by (auto simp: T' same_category_def)
  qed
  moreover have "evolves T T'" using r k by (simp add: T' evolves_def created_evolves)
  ultimately show ?thesis by (simp add: advances_def tables_ok_def)
qed


lemma same_fields: "map z rs = map z new \<Longrightarrow> (\<And>x. g (z x) = g x) \<Longrightarrow> map g rs = map g new"
proof -
  assume m: "map z rs = map z new" and z: "\<And>x. g (z x) = g x"
  have "map g xs = map g (map z xs)" for xs using z by simp
  then show ?thesis using m by metis
qed

lemma documents_created_advances:
  assumes "documents_created new T rs T'"
  shows "advances T T'"
proof -
  obtain k where T': "T' = T\<lparr>t_documents := t_documents T @ rs, t_next := k\<rparr>"
      and k: "t_next T \<le> k" "\<forall>d \<in> set rs. t_next T \<le> document_ID d \<and> document_ID d < k"
    using assms unfolding documents_created_def by blast
  have r: "distinct (map document_ID rs)" "document_CategoryID ` set new \<subseteq> category_ids T"
      "map document_CategoryID rs = map document_CategoryID new"
    using assms by (auto simp: documents_created_def elim: same_fields)
  then have c: "document_CategoryID ` set rs \<subseteq> category_ids T" by (metis set_map)
  have "keys_ok T \<Longrightarrow> keys_ok T'"
    using r k by (simp add: T' keys_ok_numbered rows_numbered_mono [where n = "t_next T" and k = k] rows_numbered_append [where n = "t_next T" and k = k])
  moreover have "indexes_ok T \<Longrightarrow> indexes_ok T'" by (simp add: T' indexes_ok_def)
  moreover have "references_ok T \<Longrightarrow> references_ok T'" using c by (auto simp: T' references_ok_def id_sets)
  moreover have "same_category T'" if "same_category T" "keys_ok T" "references_ok T"
  proof -
    have "document_ID d \<notin> document_ids T" if "d \<in> set rs" for d
      using \<open>keys_ok T\<close> k(2) that by (meson UnI1 UnI2 keys_ok_def leD)
    then have "embedding_DocumentID e \<noteq> document_ID d" if "e \<in> set (t_embeddings T)" "d \<in> set rs" for e d
      using \<open>references_ok T\<close> that by (auto simp: references_ok_def)
    then show ?thesis using \<open>same_category T\<close> by (auto simp: T' same_category_def)
  qed
  moreover have "evolves T T'" using k by (auto simp: T' evolves_def intro!: created_evolves)
  ultimately show ?thesis by (simp add: advances_def tables_ok_def)
qed

text \<open>Embeddings keep the tables consistent when their documents and centroids belong to the same categories.\<close>

definition agree :: "tables \<Rightarrow> Embedding list \<Rightarrow> bool" where
  "agree T es \<longleftrightarrow> (\<forall>e \<in> set es. \<forall>d \<in> set (t_documents T). \<forall>c \<in> set (t_centroids T).
     embedding_DocumentID e = document_ID d \<longrightarrow> embedding_CentroidID e = centroid_ID c \<longrightarrow>
       document_CategoryID d = centroid_CategoryID c)"

lemma agree_map:
  "map (\<lambda>e. e\<lparr>embedding_ID := 0\<rparr>) rs = map (\<lambda>e. e\<lparr>embedding_ID := 0\<rparr>) new \<Longrightarrow> agree T new \<Longrightarrow> agree T rs"
proof -
  assume m: "map (\<lambda>e. e\<lparr>embedding_ID := 0\<rparr>) rs = map (\<lambda>e. e\<lparr>embedding_ID := 0\<rparr>) new" and a: "agree T new"
  let ?g = "\<lambda>e. (embedding_DocumentID e, embedding_CentroidID e)"
  have "map ?g rs = map ?g new" using m by (rule same_fields) simp
  then have "?g ` set rs = ?g ` set new" by (metis set_map)
  then have "\<exists>e' \<in> set new. ?g e = ?g e'" if "e \<in> set rs" for e using that by blast
  then show ?thesis using a unfolding agree_def by (metis prod.inject)
qed

lemma embeddings_created_advances:
  assumes "embeddings_created new T rs T'" and "agree T new"
  shows "advances T T'"
proof -
  obtain k where T': "T' = T\<lparr>t_embeddings := t_embeddings T @ rs, t_next := k\<rparr>"
      and k: "t_next T \<le> k" "\<forall>e \<in> set rs. t_next T \<le> embedding_ID e \<and> embedding_ID e < k"
    using assms unfolding embeddings_created_def by blast
  have r: "distinct (map embedding_ID rs)" "embedding_DocumentID ` set new \<subseteq> document_ids T" "embedding_CentroidID ` set new \<subseteq> centroid_ids T"
      "map embedding_DocumentID rs = map embedding_DocumentID new" "map embedding_CentroidID rs = map embedding_CentroidID new"
      "map (\<lambda>e. e\<lparr>embedding_ID := 0\<rparr>) rs = map (\<lambda>e. e\<lparr>embedding_ID := 0\<rparr>) new"
    using assms by (auto simp: embeddings_created_def elim: same_fields)
  then have c: "embedding_DocumentID ` set rs \<subseteq> document_ids T" "embedding_CentroidID ` set rs \<subseteq> centroid_ids T" by (metis set_map)+
  have "keys_ok T \<Longrightarrow> keys_ok T'"
    using r k by (simp add: T' keys_ok_numbered rows_numbered_mono [where n = "t_next T" and k = k] rows_numbered_append [where n = "t_next T" and k = k])
  moreover have "indexes_ok T \<Longrightarrow> indexes_ok T'" by (simp add: T' indexes_ok_def)
  moreover have "references_ok T \<Longrightarrow> references_ok T'" using c by (auto simp: T' references_ok_def id_sets)
  moreover have "same_category T \<Longrightarrow> same_category T'"
    using agree_map [OF r(6) assms(2)] by (auto simp: T' same_category_def agree_def)
  moreover have "evolves T T'" using k by (auto simp: T' evolves_def intro!: created_evolves)
  ultimately show ?thesis by (simp add: advances_def tables_ok_def)
qed

text \<open>The cascades: rows are taken out, and no row is left that refers to one that is gone.\<close>

definition part_of :: "tables \<Rightarrow> tables \<Rightarrow> bool" where
  "part_of T' T \<longleftrightarrow> (\<exists>Pw. t_owners T' = filter Pw (t_owners T)) \<and> (\<exists>Pc. t_categories T' = filter Pc (t_categories T))
   \<and> (\<exists>Pz. t_centroids T' = filter Pz (t_centroids T)) \<and> (\<exists>Pd. t_documents T' = filter Pd (t_documents T))
   \<and> (\<exists>Pe. t_embeddings T' = filter Pe (t_embeddings T)) \<and> t_next T' = t_next T"

lemma part_of_advances:
  assumes "part_of T' T" and "references_ok T \<Longrightarrow> references_ok T'" and "keys_ok T \<Longrightarrow> categories_stay T T'"
  shows "advances T T'"
proof -
  obtain Pw Pc Pz Pd Pe where f: "t_owners T' = filter Pw (t_owners T)" "t_categories T' = filter Pc (t_categories T)"
      "t_centroids T' = filter Pz (t_centroids T)" "t_documents T' = filter Pd (t_documents T)"
      "t_embeddings T' = filter Pe (t_embeddings T)" "t_next T' = t_next T"
    using assms(1) unfolding part_of_def by blast
  have "keys_ok T \<Longrightarrow> keys_ok T'" by (simp add: f keys_ok_numbered rows_numbered_filter)
  moreover have "indexes_ok T \<Longrightarrow> indexes_ok T'" by (simp add: f indexes_ok_def distinct_map_filter)
  moreover have "same_category T \<Longrightarrow> same_category T'" by (auto simp: f same_category_def)
  moreover have "keys_ok T \<Longrightarrow> evolves T T'" using assms(3) by (simp add: evolves_def f)
  ultimately show ?thesis using assms(2) by (auto simp: advances_def tables_ok_def)
qed

lemma ids_left: "i \<in> f ` set xs \<Longrightarrow> i \<notin> f ` set (filter P xs) \<Longrightarrow> i \<in> f ` set (filter (\<lambda>x. \<not> P x) xs)"
  by auto

lemma references_left:
  "g ` set es \<subseteq> f ` set xs \<Longrightarrow> gone = f ` set (filter P xs) \<Longrightarrow>
    g ` set (filter (\<lambda>e. g e \<notin> gone) es) \<subseteq> f ` set (filter (\<lambda>x. \<not> P x) xs)"
  by auto

lemma references_fewer: "g ` set es \<subseteq> A \<Longrightarrow> g ` set (filter Q es) \<subseteq> A"
  by auto

lemmas drop_defs = drop_documents_def drop_centroids_def drop_categories_def drop_owners_def Let_def

lemma filter_all [simp]: "\<exists>P. xs = filter P xs" "\<exists>P. filter Q xs = filter P xs"
  by (rule exI [of _ "\<lambda>_. True"], simp) blast

lemma drop_documents_advances: "advances T (drop_documents P T)"
proof (rule part_of_advances)
  show "part_of (drop_documents P T) T"
    by (simp add: part_of_def drop_defs)
  show "references_ok (drop_documents P T)" if "references_ok T"
    using that references_left [of embedding_DocumentID "t_embeddings T" document_ID "t_documents T" _ P]
    by (simp add: references_ok_def id_sets drop_defs references_fewer del: set_filter)
  show "categories_stay T (drop_documents P T)"
    by (rule categories_stay_same) (simp_all add: drop_defs)
qed

text \<open>All references but those of the categories to their owners.\<close>

definition inner_ok :: "tables \<Rightarrow> bool" where
  "inner_ok T \<longleftrightarrow> centroid_CategoryID ` set (t_centroids T) \<subseteq> category_ids T
   \<and> document_CategoryID ` set (t_documents T) \<subseteq> category_ids T
   \<and> embedding_DocumentID ` set (t_embeddings T) \<subseteq> document_ids T
   \<and> embedding_CentroidID ` set (t_embeddings T) \<subseteq> centroid_ids T"

lemma references_inner: "references_ok T \<longleftrightarrow> category_OwnerID ` set (t_categories T) \<subseteq> owner_ids T \<and> inner_ok T"
  by (simp add: references_ok_def inner_ok_def)

lemma drop_categories_inner: "inner_ok T \<Longrightarrow> inner_ok (drop_categories P T)"
proof -
  assume r: "inner_ok T"
  let ?gone = "category_ID ` set (filter P (t_categories T))"
  let ?ds = "filter (\<lambda>d. document_CategoryID d \<in> ?gone) (t_documents T)"
  let ?cs = "filter (\<lambda>c. centroid_CategoryID c \<in> ?gone) (t_centroids T)"
  have e: "embedding_DocumentID ` set (t_embeddings (drop_categories P T)) \<subseteq> document_ids (drop_categories P T)"
    using r references_left [of embedding_DocumentID "t_embeddings T" document_ID "t_documents T" _ "\<lambda>d. document_CategoryID d \<in> ?gone"]
    by (simp add: inner_ok_def id_sets drop_defs references_fewer del: set_filter filter_filter)
  have "embedding_CentroidID ` set (filter (\<lambda>e. embedding_DocumentID e \<notin> document_ID ` set ?ds) (t_embeddings T)) \<subseteq> centroid_ids T"
    using r by (intro references_fewer) (simp add: inner_ok_def)
  then have c: "embedding_CentroidID ` set (t_embeddings (drop_categories P T)) \<subseteq> centroid_ids (drop_categories P T)"
    using references_left [of embedding_CentroidID "filter (\<lambda>e. embedding_DocumentID e \<notin> document_ID ` set ?ds) (t_embeddings T)"
        centroid_ID "t_centroids T" _ "\<lambda>c. centroid_CategoryID c \<in> ?gone"]
    by (simp add: id_sets drop_defs del: set_filter filter_filter)
  have "document_CategoryID ` set (t_documents (drop_categories P T)) \<subseteq> category_ids (drop_categories P T)"
      "centroid_CategoryID ` set (t_centroids (drop_categories P T)) \<subseteq> category_ids (drop_categories P T)"
    using r references_left [of document_CategoryID "t_documents T" category_ID "t_categories T" ?gone P]
      references_left [of centroid_CategoryID "t_centroids T" category_ID "t_categories T" ?gone P]
    by (simp_all add: inner_ok_def id_sets drop_defs del: set_filter)
  then show ?thesis using e c by (simp add: inner_ok_def)
qed

text \<open>A category that is not dropped keeps its centroids.\<close>

lemma drop_categories_stay:
  assumes "distinct (map category_ID (t_categories T))"
  shows "categories_stay T (drop_categories P T)"
proof -
  have "\<not> P c" if "category_ID c \<in> category_ids (drop_categories P T)" "c \<in> set (t_categories T)" for c
    using that assms by (auto simp: drop_defs category_ids_def distinct_map inj_on_def)
  then have gone: "i \<notin> category_ID ` set (filter P (t_categories T))" if "i \<in> category_ids (drop_categories P T)" for i
    using that by auto
  have "t_centroids (drop_categories P T) =
      filter (\<lambda>x. centroid_CategoryID x \<notin> category_ID ` set (filter P (t_categories T))) (t_centroids T)"
    by (simp add: drop_defs)
  then have "(k, i) \<in> centroid_key ` set (t_centroids (drop_categories P T))"
    if "i \<in> category_ids (drop_categories P T)" "(k, i) \<in> centroid_key ` set (t_centroids T)" for k i
    using gone [OF that(1)] that(2) by (auto simp: centroid_key_def)
  moreover have "category_ids (drop_categories P T) \<subseteq> category_ids T" by (auto simp: drop_defs category_ids_def)
  ultimately show ?thesis unfolding categories_stay_def by blast
qed

lemma drop_categories_advances: "advances T (drop_categories P T)"
proof (rule part_of_advances)
  show "part_of (drop_categories P T) T"
    by (simp add: part_of_def drop_defs)
  show "references_ok (drop_categories P T)" if "references_ok T"
  proof -
    have "category_OwnerID ` set (t_categories (drop_categories P T)) \<subseteq> owner_ids (drop_categories P T)"
      using that by (simp add: references_ok_def id_sets drop_defs references_fewer del: set_filter)
    then show ?thesis using that drop_categories_inner by (simp add: references_inner)
  qed
  show "categories_stay T (drop_categories P T)" if "keys_ok T"
    using that by (intro drop_categories_stay) (simp add: keys_ok_def)
qed

lemma drop_owners_advances: "advances T (drop_owners P T)"
proof (rule part_of_advances)
  show "part_of (drop_owners P T) T"
    by (simp add: part_of_def drop_defs)
  show "references_ok (drop_owners P T)" if "references_ok T"
  proof -
    have "category_OwnerID ` set (t_categories (drop_owners P T)) \<subseteq> owner_ids (drop_owners P T)"
      using that references_left [of category_OwnerID "t_categories T" owner_ID "t_owners T" _ P]
      by (simp add: references_ok_def id_sets drop_defs del: set_filter)
    moreover have "inner_ok (T\<lparr>t_owners := filter (\<lambda>w. \<not> P w) (t_owners T)\<rparr>)"
      using that by (simp add: references_inner inner_ok_def id_sets)
    then have "inner_ok (drop_owners P T)"
      unfolding drop_owners_def Let_def by (rule drop_categories_inner)
    ultimately show ?thesis by (simp add: references_inner)
  qed
  show "categories_stay T (drop_owners P T)" if "keys_ok T"
  proof -
    have "categories_stay (T\<lparr>t_owners := ws\<rparr>) (drop_categories Q (T\<lparr>t_owners := ws\<rparr>))" for ws Q
      using that by (intro drop_categories_stay) (simp add: keys_ok_def)
    then show ?thesis by (simp add: drop_owners_def Let_def categories_stay_def category_ids_def)
  qed
qed

section \<open>Consistent servers\<close>

text \<open>The tables are consistent, and the centroids in the cache belong to the categories they are cached for.\<close>

definition server_ok :: "('d \<Rightarrow> tables) \<Rightarrow> 'd server \<Rightarrow> bool" where
  "server_ok tbl s \<longleftrightarrow> tables_ok (tbl (snd s)) \<and> cached_ok (fst s) (tbl (snd s))"

text \<open>And the tables have evolved from \<open>T0\<close>.\<close>

definition since :: "tables \<Rightarrow> ('d \<Rightarrow> tables) \<Rightarrow> 'd server \<Rightarrow> bool" where
  "since T0 tbl s \<longleftrightarrow> server_ok tbl s \<and> evolves T0 (tbl (snd s))"

lemma since_now: "server_ok tbl s \<longleftrightarrow> since (tbl (snd s)) tbl s"
  by (simp add: since_def)

lemma keeps_server_ok: "(\<And>T0. keeps (since T0 tbl) (since T0 tbl) a) \<Longrightarrow> keeps (server_ok tbl) (server_ok tbl) a"
  unfolding keeps_def by (metis since_def since_now)

lemmas since_defs = since_def server_ok_def

definition db_advances :: "('d \<Rightarrow> tables) \<Rightarrow> ('d \<Rightarrow> 'r \<times> 'd) \<Rightarrow> bool" where
  "db_advances tbl q \<longleftrightarrow> (\<forall>d. advances (tbl d) (tbl (snd (q d))))"

lemma advances_trans: "advances T T' \<Longrightarrow> advances T' T'' \<Longrightarrow> advances T T''"
  unfolding advances_def by (meson evolves_trans)

lemma since_advances:
  "since T0 tbl s \<Longrightarrow> advances (tbl (snd s)) (tbl d) \<Longrightarrow> since T0 tbl (fst s, d)"
  using cached_ok_evolves evolves_trans by (auto simp: since_defs advances_def)

lemma reads_advances: "reads tbl q ok missing \<Longrightarrow> db_advances tbl q"
  by (simp add: reads_def db_advances_def)

lemma writes_done: "writes tbl q effect \<Longrightarrow> q d = (Inr r, d') \<Longrightarrow> effect (tbl d) r (tbl d')"
  unfolding writes_def by (drule spec [of _ d]) simp

lemma writes_failed: "writes tbl q effect \<Longrightarrow> q d = (Inl e, d') \<Longrightarrow> tbl d' = tbl d \<and> \<not> errors_Is e RecordNotFound"
  unfolding writes_def by (drule spec [of _ d]) simp

lemma reads_found: "reads tbl q ok missing \<Longrightarrow> q d = (Inr r, d') \<Longrightarrow> tbl d' = tbl d \<and> ok (tbl d) r"
  unfolding reads_def by (drule spec [of _ d]) simp

lemma reads_failed:
  "reads tbl q ok missing \<Longrightarrow> q d = (Inl e, d') \<Longrightarrow> tbl d' = tbl d \<and> (errors_Is e RecordNotFound \<longrightarrow> missing (tbl d))"
  unfolding reads_def by (drule spec [of _ d]) simp

lemma writes_advances:
  "writes tbl q effect \<Longrightarrow> (\<And>T r T'. effect T r T' \<Longrightarrow> advances T T') \<Longrightarrow> db_advances tbl q"
  unfolding db_advances_def
proof
  fix d assume w: "writes tbl q effect" and e: "\<And>T r T'. effect T r T' \<Longrightarrow> advances T T'"
  have "case fst (q d) of Inr r \<Rightarrow> effect (tbl d) r (tbl (snd (q d)))
      | Inl e \<Rightarrow> tbl (snd (q d)) = tbl d \<and> \<not> errors_Is e RecordNotFound"
    using w unfolding writes_def by blast
  then show "advances (tbl d) (tbl (snd (q d)))" using e by (cases "fst (q d)") simp_all
qed

lemma gives_both: "(\<And>s. P s \<Longrightarrow> R (snd (q s))) \<Longrightarrow> gives R P q (\<lambda>_. R)"
  unfolding gives_def by (simp add: case_prod_beta split: sum.splits)

lemma gives_on_db: "db_advances tbl q \<Longrightarrow> gives (since T0 tbl) (since T0 tbl) (on_db q) (\<lambda>_. since T0 tbl)"
  by (rule gives_both) (simp add: on_db_def db_advances_def case_prod_beta since_advances)

lemma fetch_through_db:
  assumes "fetch_through key now later q t d = (r, t', d')" and "db_advances tbl q"
  shows "advances (tbl d) (tbl d')"
  using assms unfolding fetch_through_def db_advances_def
  by (auto split: option.splits prod.splits sum.splits) (metis snd_conv)+

lemma gives_fetch_owner:
  assumes "db_advances tbl q"
  shows "gives (since T0 tbl) (since T0 tbl) (fetch_owner clk n q) (\<lambda>_. since T0 tbl)"
proof (rule gives_both)
  fix s :: "'a server" assume s: "since T0 tbl s"
  obtain r t d where f: "fetch_through (ownerKey n) (clk 0) (clk (Suc 0)) q (owner (fst s)) (snd s) = (r, t, d)" by (metis prod_cases3)
  have "since T0 tbl ((fst s)\<lparr>owner := t\<rparr>, d)"
    using since_advances [OF s fetch_through_db [OF f assms]] by (simp add: since_defs)
  then show "since T0 tbl (snd (fetch_owner clk n q s))"
    by (simp add: fetch_owner_def FetchOwner_def f)
qed

lemma gives_fetch_category:
  assumes "db_advances tbl q"
  shows "gives (since T0 tbl) (since T0 tbl) (fetch_category clk n i q) (\<lambda>_. since T0 tbl)"
proof (rule gives_both)
  fix s :: "'a server" assume s: "since T0 tbl s"
  obtain r t d where f: "fetch_through (categoryKey n i) (clk 2) (clk 3) q (category (fst s)) (snd s) = (r, t, d)" by (metis prod_cases3)
  have "since T0 tbl ((fst s)\<lparr>category := t\<rparr>, d)"
    using since_advances [OF s fetch_through_db [OF f assms]] by (simp add: since_defs)
  then show "since T0 tbl (snd (fetch_category clk n i q s))"
    by (simp add: fetch_category_def FetchCategory_def f)
qed

text \<open>What a query for centroids has to answer to be cached.\<close>

definition finds_known :: "('d \<Rightarrow> tables) \<Rightarrow> id \<Rightarrow> ('d \<Rightarrow> (error + Centroid list) \<times> 'd) \<Rightarrow> bool" where
  "finds_known tbl i q \<longleftrightarrow> (\<forall>d. tables_ok (tbl d) \<longrightarrow>
     (case q d of (Inr r, d') \<Rightarrow> \<forall>x \<in> set r. known i x (tbl d') | (Inl e, d') \<Rightarrow> True))"

lemma cached_ok_save:
  "cached_ok c T \<Longrightarrow> \<forall>x \<in> set v. known i x T \<Longrightarrow> cached_ok (c\<lparr>centroids := save (centroidsKey i) now v (centroids c)\<rparr>) T"
  by (simp add: cached_ok_def save_def)

lemma gives_fetch_centroids:
  assumes "db_advances tbl q" and "finds_known tbl i q"
  shows "gives (since T0 tbl) (since T0 tbl) (fetch_centroids clk i q)
    (\<lambda>r s. since T0 tbl s \<and> (\<forall>x \<in> set r. known i x (tbl (snd s))))"
  unfolding gives_def
proof (intro allI impI)
  fix s :: "'a server" assume s: "since T0 tbl s"
  let ?c = "centroids (fst s)"
  show "case fetch_centroids clk i q s of
      (Inr r, s') \<Rightarrow> since T0 tbl s' \<and> (\<forall>x \<in> set r. known i x (tbl (snd s'))) | (Inl e, s') \<Rightarrow> since T0 tbl s'"
  proof (cases "lookup (centroidsKey i) (clk 4) ?c")
    case (Some v)
    then obtain it where it: "?c (centroidsKey i) = Some it" "item_value it = v"
      by (auto simp: lookup_def split: option.splits if_splits)
    then have "\<forall>x \<in> set v. known i x (tbl (snd s))" using s by (fastforce simp: since_defs cached_ok_def)
    then show ?thesis using s Some
      by (simp add: fetch_centroids_def FetchCentroids_def fetch_through_def since_defs)
  next
    case None
    obtain r d where q: "q (snd s) = (r, d)" by fastforce
    have a: "advances (tbl (snd s)) (tbl d)" using assms(1) q unfolding db_advances_def by (metis snd_conv)
    have ok: "since T0 tbl (fst s, d)" using since_advances [OF s a] .
    show ?thesis
    proof (cases r)
      case (Inl e)
      then show ?thesis using ok None by (simp add: fetch_centroids_def FetchCentroids_def fetch_through_def q since_defs cached_ok_def)
    next
      case (Inr v)
      have "tables_ok (tbl (snd s))" using s by (simp add: since_defs)
      then have k: "\<forall>x \<in> set v. known i x (tbl d)"
        using assms(2) q Inr unfolding finds_known_def by (metis (no_types, lifting) case_prod_conv sum.simps(6))
      then show ?thesis using ok None Inr cached_ok_save
        by (simp add: fetch_centroids_def FetchCentroids_def fetch_through_def q since_defs)
    qed
  qed
qed

section \<open>A lawful database\<close>

locale database =
  fixes tbl :: "'d \<Rightarrow> tables" and D :: "'d store"
  assumes laws: "lawful tbl D"
begin

lemma take_advances: "db_advances tbl (take_owner D n)" "db_advances tbl (take_category D n i)"
    "db_advances tbl (find_centroids D i)" "db_advances tbl (find_category_names D i)"
  using laws unfolding lawful_def lawful_reads_def by (meson reads_advances)+

lemma create_advances: "db_advances tbl (create_owner D n)" "db_advances tbl (create_category D n i)"
    "db_advances tbl (create_centroid D v i)" "db_advances tbl (create_documents D new)"
proof -
  have w: "lawful_writes tbl D" using laws by (simp add: lawful_def)
  show "db_advances tbl (create_owner D n)"
    using w by (intro writes_advances [where effect = "owner_created n"] owner_created_advances) (simp_all add: lawful_writes_def)
  show "db_advances tbl (create_category D n i)"
    using w by (intro writes_advances [where effect = "category_created n i"] category_created_advances) (simp_all add: lawful_writes_def)
  show "db_advances tbl (create_centroid D v i)"
    using w by (intro writes_advances [where effect = "centroid_created v i"] centroid_created_advances) (simp_all add: lawful_writes_def)
  show "db_advances tbl (create_documents D new)"
    using w by (intro writes_advances [where effect = "documents_created new"] documents_created_advances) (simp_all add: lawful_writes_def)
qed

lemma delete_advances: "db_advances tbl (delete_owner D n)" "db_advances tbl (delete_category D i n)"
    "db_advances tbl (delete_document D i k)"
proof -
  have w: "lawful_writes tbl D" using laws by (simp add: lawful_def)
  show "db_advances tbl (delete_owner D n)"
    using w by (intro writes_advances [where effect = "\<lambda>T _ T'. T' = drop_owners (\<lambda>w. owner_Name w = n) T"])
      (simp_all add: lawful_writes_def drop_owners_advances)
  show "db_advances tbl (delete_category D i n)"
    using w by (intro writes_advances [where effect =
        "\<lambda>T _ T'. T' = drop_categories (\<lambda>c. category_OwnerID c = i \<and> category_Name c = n) T"])
      (simp_all add: lawful_writes_def drop_categories_advances)
  show "db_advances tbl (delete_document D i k)"
    using w by (intro writes_advances [where effect =
        "\<lambda>T _ T'. T' = drop_documents (\<lambda>d. document_CategoryID d = i \<and> document_ID d = k) T"])
      (simp_all add: lawful_writes_def drop_documents_advances)
qed

lemmas query_advances = take_advances create_advances delete_advances

lemma find_centroids_known: "finds_known tbl i (find_centroids D i)"
  unfolding finds_known_def
proof (intro allI impI)
  fix d assume t: "tables_ok (tbl d)"
  have "reads tbl (find_centroids D i) (\<lambda>T r. r = filter (\<lambda>c. centroid_CategoryID c = i) (t_centroids T)) (\<lambda>_. False)"
    using laws by (simp add: lawful_def lawful_reads_def)
  then have q: "tbl (snd (find_centroids D i d)) = tbl d"
      "case fst (find_centroids D i d) of Inr r \<Rightarrow> r = filter (\<lambda>c. centroid_CategoryID c = i) (t_centroids (tbl d))
        | Inl e \<Rightarrow> errors_Is e RecordNotFound \<longrightarrow> False"
    unfolding reads_def by blast+
  have "known i x (tbl d)" if "x \<in> set (t_centroids (tbl d))" "centroid_CategoryID x = i" for x
    using known_stored [OF _ that(1)] that(2) t by (simp add: tables_ok_def)
  then show "case find_centroids D i d of (Inr r, d') \<Rightarrow> \<forall>x \<in> set r. known i x (tbl d') | (Inl e, d') \<Rightarrow> True"
    using q by (auto split: prod.splits sum.splits)
qed

end

interpretation memory: database mem memory_store
  by unfold_locales (rule memory_lawful)

end
