(* ===== verification/Upload.thy ===== *)
theory Upload
  imports Handlers Search
begin

text \<open>
  \<open>Upload\<close> in \<open>server/upload.go\<close>: the texts of the documents are cut into sections and embedded, the owner, the category and a
  first centroid are found or made, every embedding goes to the nearest centroid, and documents and embeddings are saved one after the other.
  Arguments besides the queries: the context length of the embedding model, what the embedding service answers, and the clock.
\<close>

section \<open>Sections of the documents\<close>

record DocumentUpload =
  u_Name :: gotext
  u_ExternalID :: gotext
  u_Document :: anyval

record UploadRequest =
  u_Owner :: gotext
  u_Category :: gotext
  u_Documents :: "DocumentUpload list"

definition name_prefix :: "gotext \<Rightarrow> gotext" where
  "name_prefix name = (if name \<noteq> [] then TrimSuffix (TrimSpace name) (runes ''.'') @ runes ''. '' else [])"

definition document_inputs :: "int \<Rightarrow> DocumentUpload \<Rightarrow> gotext list" where
  "document_inputs ctx doc =
     map (\<lambda>s. runes ''search_document: '' @ s) (Split (name_prefix (u_Name doc)) (Flatten (u_Document doc)) ctx)"

definition upload_inputs :: "int \<Rightarrow> UploadRequest \<Rightarrow> gotext list list" where
  "upload_inputs ctx req = map (document_inputs ctx) (u_Documents req)"

lemma Split_not_Nil [simp]: "Split pre t ctx \<noteq> []"
  using split_loop_groups [of "max_words ctx" pre "[]" "[]" "split_lines t"] by (simp add: Split_def section_text_def)

lemma document_inputs_not_Nil [simp]: "document_inputs ctx doc \<noteq> []"
  by (simp add: document_inputs_def)

section \<open>Found or made\<close>

definition take_or_create_owner :: "'d store \<Rightarrow> gotext \<Rightarrow> 'd \<Rightarrow> (error + Owner) \<times> 'd" where
  "take_or_create_owner D name d =
     (case take_owner D name d of
        (Inr r, d') \<Rightarrow> (Inr r, d')
      | (Inl err, d') \<Rightarrow>
          if errors_Is err RecordNotFound
          then (case create_owner D name d' of
                  (Inr r, d'') \<Rightarrow> (Inr r, d'')
                | (Inl err, d'') \<Rightarrow> (Inl (errors_Join (errors_New ''failed to create owner'') err), d''))
          else (Inl err, d'))"

definition take_or_create_category :: "'d store \<Rightarrow> gotext \<Rightarrow> id \<Rightarrow> 'd \<Rightarrow> (error + Category) \<times> 'd" where
  "take_or_create_category D name ownerID d =
     (case take_category D name ownerID d of
        (Inr r, d') \<Rightarrow> (Inr r, d')
      | (Inl err, d') \<Rightarrow>
          if errors_Is err RecordNotFound
          then (case create_category D name ownerID d' of
                  (Inr r, d'') \<Rightarrow> (Inr r, d'')
                | (Inl err, d'') \<Rightarrow> (Inl (errors_Join (errors_New ''failed to create category'') err), d''))
          else (Inl err, d'))"

definition find_or_create_centroid :: "'d store \<Rightarrow> u8 list \<Rightarrow> id \<Rightarrow> 'd \<Rightarrow> (error + Centroid list) \<times> 'd" where
  "find_or_create_centroid D vector categoryID d =
     (case find_centroids D categoryID d of
        (Inr [], d') \<Rightarrow>
          (case create_centroid D vector categoryID d' of
             (Inr r, d'') \<Rightarrow> (Inr [r], d'')
           | (Inl err, d'') \<Rightarrow> (Inl (errors_Join (errors_New ''failed to create initial centroid'') err), d''))
      | r \<Rightarrow> r)"

section \<open>Rows of the upload\<close>

text \<open>For every embedding the index of the nearest centroid.\<close>

definition nearest_indexes :: "Centroid list \<Rightarrow> u8 list list \<Rightarrow> nat list outcome" where
  "nearest_indexes cs embeddings =
     (case NewMatrix (map centroid_Vector cs) of
        Panic p \<Rightarrow> Panic p
      | Done matrixCentroids \<Rightarrow>
          (case NewMatrix embeddings of
             Panic p \<Rightarrow> Panic p
           | Done matrixEmbeddings \<Rightarrow>
               (case MatrixCosineSimilarity matrixCentroids matrixEmbeddings of
                  Panic p \<Rightarrow> Panic p
                | Done ((_, centroidIdxList), _) \<Rightarrow> Done centroidIdxList)))"

text \<open>One document takes as many embeddings and indexes from the front of the lists as it has sections.\<close>

fun embedding_rows :: "Centroid list \<Rightarrow> nat \<Rightarrow> u8 list list \<Rightarrow> nat list \<Rightarrow> (Embedding list \<times> u8 list list \<times> nat list) outcome" where
  "embedding_rows cs 0 embeddings idx = Done ([], embeddings, idx)"
| "embedding_rows cs (Suc n) (vector # embeddings) (i # idx) =
     (if i < length cs
      then case embedding_rows cs n embeddings idx of
             Panic p \<Rightarrow> Panic p
           | Done (rows, rest) \<Rightarrow>
               Done (\<lparr>embedding_ID = 0, embedding_Vector = vector, embedding_DocumentID = 0,
                      embedding_CentroidID = centroid_ID (cs ! i)\<rparr> # rows, rest)
      else Panic ''index out of range'')"
| "embedding_rows cs (Suc n) _ _ = Panic ''index out of range''"

definition new_document :: "id \<Rightarrow> DocumentUpload \<Rightarrow> Document" where
  "new_document categoryID doc =
     \<lparr>document_ID = 0, document_Name = u_Name doc, document_ExternalID = u_ExternalID doc,
      document_Document = Some (u_Document doc), document_CategoryID = categoryID\<rparr>"

fun upload_rows ::
    "id \<Rightarrow> Centroid list \<Rightarrow> (DocumentUpload \<times> nat) list \<Rightarrow> u8 list list \<Rightarrow> nat list \<Rightarrow> (Document \<times> Embedding list) list outcome" where
  "upload_rows categoryID cs [] embeddings idx = Done []"
| "upload_rows categoryID cs ((doc, n) # docs) embeddings idx =
     (case embedding_rows cs n embeddings idx of
        Panic p \<Rightarrow> Panic p
      | Done (rows, embeddings', idx') \<Rightarrow>
          (case upload_rows categoryID cs docs embeddings' idx' of
             Panic p \<Rightarrow> Panic p
           | Done later \<Rightarrow> Done ((new_document categoryID doc, rows) # later)))"

text \<open>The embeddings get the identifiers of their saved documents.\<close>

definition with_documents :: "Document list \<Rightarrow> Embedding list list \<Rightarrow> Embedding list" where
  "with_documents documents rows =
     concat (map (\<lambda>(d, es). map (\<lambda>e. e\<lparr>embedding_DocumentID := document_ID d\<rparr>) es) (zip documents rows))"

section \<open>The handler\<close>

text \<open>From the centroids on: the nearest ones, the rows, and the two writes.\<close>

definition save_upload ::
    "'d store \<Rightarrow> id \<Rightarrow> Centroid list \<Rightarrow> (DocumentUpload \<times> nat) list \<Rightarrow> u8 list list \<Rightarrow> ('d server, id list) action" where
  "save_upload D categoryID cs docs embeddings =
     sure (nearest_indexes cs embeddings) (\<lambda>idx.
     sure (upload_rows categoryID cs docs embeddings idx) (\<lambda>rows.
     on_ok ''failed to save documents'' (on_db (create_documents D (map fst rows))) (\<lambda>documents.
     on_ok ''failed to save embeddings'' (on_db (create_embeddings D (with_documents documents (map snd rows)))) (\<lambda>_.
     succeed (map document_ID documents)))))"

text \<open>\<open>Split\<close> never returns an empty list, so with at least one document there is a first embedding.\<close>

definition Upload ::
    "'d store \<Rightarrow> int \<Rightarrow> (gotext list \<Rightarrow> error + u8 list list) \<Rightarrow> clock \<Rightarrow> UploadRequest \<Rightarrow> ('d server, id list) action" where
  "Upload D ctx ai_embed clk req =
     (if u_Documents req = [] then fail_with (errors_New ''no documents provided'')
      else case ai_embed (concat (upload_inputs ctx req)) of
        Inl e \<Rightarrow> fail_with (joined ''failed to embed documents'' e)
      | Inr embeddings \<Rightarrow>
          if length embeddings \<noteq> length (concat (upload_inputs ctx req))
          then fail_with (errors_New ''invalid response embeddings count'')
          else
          on_ok ''failed to get owner'' (fetch_owner clk (u_Owner req) (take_or_create_owner D (u_Owner req))) (\<lambda>owner.
          on_ok ''failed to get category''
            (fetch_category clk (u_Category req) (owner_ID owner) (take_or_create_category D (u_Category req) (owner_ID owner))) (\<lambda>category.
          on_ok ''failed to get centroids''
            (fetch_centroids clk (category_ID category) (find_or_create_centroid D (hd embeddings) (category_ID category))) (\<lambda>centroids.
          save_upload D (category_ID category) centroids (zip (u_Documents req) (map length (upload_inputs ctx req))) embeddings))))"

section \<open>What it keeps\<close>

context database
begin

lemma take_or_create_advances: "db_advances tbl (take_or_create_owner D n)" "db_advances tbl (take_or_create_category D n i)"
  using take_advances create_advances unfolding db_advances_def take_or_create_owner_def take_or_create_category_def
  by (auto split: prod.splits sum.splits) (metis advances_trans snd_conv)+

lemma find_or_create_advances: "db_advances tbl (find_or_create_centroid D v i)"
  using take_advances(3) create_advances(3) unfolding db_advances_def find_or_create_centroid_def
  by (auto split: prod.splits sum.splits list.splits) (metis advances_trans snd_conv)+

lemma create_centroid_known:
  assumes "tables_ok (tbl d)" and "create_centroid D v i d = (Inr r, d')"
  shows "known i r (tbl d')"
proof -
  have "writes tbl (create_centroid D v i) (centroid_created v i)"
    using laws by (simp add: lawful_def lawful_writes_def)
  then have e: "centroid_created v i (tbl d) r (tbl d')"
    using assms(2) by (rule writes_done)
  then have "advances (tbl d) (tbl d')" by (rule centroid_created_advances)
  then have "keys_ok (tbl d')" using assms(1) by (simp add: advances_def tables_ok_def)
  moreover obtain k where "tbl d' = (tbl d)\<lparr>t_centroids := t_centroids (tbl d) @ [r], t_next := k\<rparr>"
    using e unfolding centroid_created_def by blast
  then have "r \<in> set (t_centroids (tbl d'))" by simp
  moreover have "centroid_CategoryID r = i" using e by (simp add: centroid_created_def)
  ultimately show ?thesis using known_stored [of "tbl d'" r] by simp
qed

lemma find_or_create_known: "finds_known tbl i (find_or_create_centroid D v i)"
  unfolding finds_known_def
proof (intro allI impI)
  fix d assume t: "tables_ok (tbl d)"
  obtain r d' where f: "find_centroids D i d = (r, d')" by fastforce
  have "advances (tbl d) (tbl d')" using take_advances(3) f unfolding db_advances_def by (metis snd_conv)
  then have t': "tables_ok (tbl d')" using t by (simp add: advances_def)
  have k: "case r of Inr cs \<Rightarrow> \<forall>x \<in> set cs. known i x (tbl d') | Inl e \<Rightarrow> True"
    using find_centroids_known t f unfolding finds_known_def by (metis (no_types, lifting) case_prod_conv)
  show "case find_or_create_centroid D v i d of (Inr r, d') \<Rightarrow> \<forall>x \<in> set r. known i x (tbl d') | (Inl e, d') \<Rightarrow> True"
    using k create_centroid_known [OF t'] by (auto simp: find_or_create_centroid_def f split: sum.splits list.splits prod.splits)
qed

end

lemma embedding_rows_centroids:
  "embedding_rows cs n embeddings idx = Done (rows, rest) \<Longrightarrow> e \<in> set rows \<Longrightarrow> embedding_CentroidID e \<in> centroid_ID ` set cs"
  by (induction cs n embeddings idx arbitrary: rows rest rule: embedding_rows.induct)
    (auto split: if_splits outcome.splits)

lemma upload_rows_category:
  "upload_rows i cs docs embeddings idx = Done rows \<Longrightarrow> (d, es) \<in> set rows \<Longrightarrow>
    document_CategoryID d = i \<and> (\<forall>e \<in> set es. embedding_CentroidID e \<in> centroid_ID ` set cs)"
  by (induction i cs docs embeddings idx arbitrary: rows rule: upload_rows.induct)
    (auto simp: new_document_def split: outcome.splits, blast dest: embedding_rows_centroids)

lemma with_documents_from:
  "e \<in> set (with_documents ds ess) \<Longrightarrow> \<exists>d \<in> set ds. embedding_DocumentID e = document_ID d"
  by (auto simp: with_documents_def dest: set_zip_leftD)

lemma with_documents_centroid:
  "e \<in> set (with_documents ds ess) \<Longrightarrow> \<exists>es \<in> set ess. embedding_CentroidID e \<in> embedding_CentroidID ` set es"
  by (fastforce simp: with_documents_def dest: set_zip_rightD)

lemma with_documents_agree:
  assumes "keys_ok T" and "\<forall>d \<in> set ds. d \<in> set (t_documents T) \<and> document_CategoryID d = i"
    and "\<forall>x \<in> set cs. known i x T" and "\<forall>es \<in> set ess. \<forall>e \<in> set es. embedding_CentroidID e \<in> centroid_ID ` set cs"
  shows "agree T (with_documents ds ess)"
  unfolding agree_def
proof (intro ballI impI)
  fix e d c
  assume e: "e \<in> set (with_documents ds ess)" and d: "d \<in> set (t_documents T)" "embedding_DocumentID e = document_ID d"
    and c: "c \<in> set (t_centroids T)" "embedding_CentroidID e = centroid_ID c"
  obtain d' where "d' \<in> set ds" "document_ID d' = document_ID d" using with_documents_from [OF e] d(2) by auto
  then have "d' = d" using assms(1,2) d(1) by (simp add: keys_ok_def distinct_map inj_on_def)
  then have "document_CategoryID d = i" using \<open>d' \<in> set ds\<close> assms(2) by simp
  moreover obtain x where "x \<in> set cs" "centroid_ID c = centroid_ID x" using with_documents_centroid [OF e] assms(4) c(2) by fastforce
  then have "centroid_CategoryID c = i" using assms(3) c(1) by (simp add: known_def)
  ultimately show "document_CategoryID d = centroid_CategoryID c" by simp
qed

context database
begin

lemma gives_create_documents:
  assumes "\<forall>d \<in> set new. document_CategoryID d = i"
  shows "gives (since T0 tbl) (\<lambda>s. since T0 tbl s \<and> (\<forall>x \<in> set cs. known i x (tbl (snd s)))) (on_db (create_documents D new))
    (\<lambda>ds s. since T0 tbl s \<and> (\<forall>x \<in> set cs. known i x (tbl (snd s)))
      \<and> (\<forall>d \<in> set ds. d \<in> set (t_documents (tbl (snd s))) \<and> document_CategoryID d = i))"
  unfolding gives_def
proof (intro allI impI)
  fix s :: "'d server" assume s: "since T0 tbl s \<and> (\<forall>x \<in> set cs. known i x (tbl (snd s)))"
  have w: "writes tbl (create_documents D new) (documents_created new)" using laws by (simp add: lawful_def lawful_writes_def)
  obtain r d where q: "create_documents D new (snd s) = (r, d)" by fastforce
  have a: "advances (tbl (snd s)) (tbl d)" using create_advances(4) q unfolding db_advances_def by (metis snd_conv)
  have ok: "since T0 tbl (fst s, d)" "\<forall>x \<in> set cs. known i x (tbl d)"
    using since_advances [OF _ a] known_evolves a s by (auto simp: advances_def since_defs)
  show "case on_db (create_documents D new) s of
      (Inr ds, s') \<Rightarrow> since T0 tbl s' \<and> (\<forall>x \<in> set cs. known i x (tbl (snd s')))
        \<and> (\<forall>d \<in> set ds. d \<in> set (t_documents (tbl (snd s'))) \<and> document_CategoryID d = i)
    | (Inl e, s') \<Rightarrow> since T0 tbl s'"
  proof (cases r)
    case (Inr ds)
    then have e: "documents_created new (tbl (snd s)) ds (tbl d)" using writes_done [OF w] q by simp
    then obtain k where "tbl d = (tbl (snd s))\<lparr>t_documents := t_documents (tbl (snd s)) @ ds, t_next := k\<rparr>"
      unfolding documents_created_def by blast
    moreover have "map document_CategoryID ds = map document_CategoryID new"
      using e by (auto simp: documents_created_def elim: same_fields)
    then have "document_CategoryID ` set ds = document_CategoryID ` set new" by (metis set_map)
    then have "document_CategoryID x = i" if "x \<in> set ds" for x using assms that by (metis imageE imageI)
    ultimately show ?thesis using ok Inr by (simp add: on_db_def q)
  qed (use ok in \<open>simp add: on_db_def q\<close>)
qed

lemma gives_create_embeddings:
  assumes "\<And>s. P s \<Longrightarrow> since T0 tbl s \<and> agree (tbl (snd s)) new"
  shows "gives (since T0 tbl) P (on_db (create_embeddings D new)) (\<lambda>_. since T0 tbl)"
proof (rule gives_both)
  fix s :: "'d server" assume "P s"
  then have s: "since T0 tbl s" "agree (tbl (snd s)) new" using assms by auto
  have w: "writes tbl (create_embeddings D new) (embeddings_created new)" using laws by (simp add: lawful_def lawful_writes_def)
  obtain r d where q: "create_embeddings D new (snd s) = (r, d)" by fastforce
  have "advances (tbl (snd s)) (tbl d)"
    using writes_failed [OF w, of "snd s"] writes_done [OF w, of "snd s"] embeddings_created_advances [OF _ s(2)] q
    by (cases r) auto
  then show "since T0 tbl (snd (on_db (create_embeddings D new) s))"
    using since_advances [OF s(1)] by (simp add: on_db_def q)
qed

lemma save_upload_keeps:
  "keeps (since T0 tbl) (\<lambda>s. since T0 tbl s \<and> (\<forall>x \<in> set cs. known i x (tbl (snd s)))) (save_upload D i cs docs embeddings)"
  unfolding save_upload_def
proof (rule keeps_sure, simp, rule keeps_sure, simp)
  fix idx rows assume rows: "upload_rows i cs docs embeddings idx = Done rows"
  then have c: "\<forall>d \<in> set (map fst rows). document_CategoryID d = i"
      "\<forall>es \<in> set (map snd rows). \<forall>e \<in> set es. embedding_CentroidID e \<in> centroid_ID ` set cs"
    using upload_rows_category by fastforce+
  show "keeps (since T0 tbl) (\<lambda>s. since T0 tbl s \<and> (\<forall>x \<in> set cs. known i x (tbl (snd s))))
     (on_ok m1 (on_db (create_documents D (map fst rows))) (\<lambda>documents.
      on_ok m2 (on_db (create_embeddings D (with_documents documents (map snd rows)))) (\<lambda>_.
      succeed (map document_ID documents))))" for m1 m2
    by (rule keeps_on_ok [OF gives_create_documents [OF c(1)]], rule keeps_on_ok [OF gives_create_embeddings])
      (auto simp: since_defs tables_ok_def intro!: with_documents_agree [OF _ _ _ c(2)] keeps_succeed)
qed

lemma Upload_keeps: "keeps (since T0 tbl) (since T0 tbl) (Upload D ctx ai_embed clk req)"
  unfolding Upload_def
  by (auto split: sum.splits intro!: keeps_fail keeps_if save_upload_keeps
    keeps_on_ok [OF gives_fetch_owner] keeps_on_ok [OF gives_fetch_category] keeps_on_ok [OF gives_fetch_centroids]
    take_or_create_advances find_or_create_advances find_or_create_known)

end

section \<open>What it stores\<close>

text \<open>Upload's sum of products of a centroid and an embedding, and the centroid it is largest for.\<close>

definition closeness :: "u8 list \<Rightarrow> Centroid \<Rightarrow> fl" where
  "closeness v c = dot (normalizeVector (vector_of (centroid_Vector c))) (normalizeVector (vector_of v))"

definition nearest_centroid :: "Centroid list \<Rightarrow> u8 list \<Rightarrow> id \<Rightarrow> bool" where
  "nearest_centroid cs v i \<longleftrightarrow> (\<exists>j < length cs. i = centroid_ID (cs ! j) \<and>
     (first_largest (map (closeness v) cs) j \<or> (\<forall>d \<in> set (map (closeness v) cs). \<not> fl_less (Fin (-1)) d) \<and> j = 0))"

lemma nearest_indexes_row:
  assumes "nearest_indexes cs vs = Done idx" and "\<forall>c \<in> set cs. length (centroid_Vector c) = len" and "\<forall>v \<in> set vs. length v = len"
  shows "length idx = length vs \<and> (\<forall>i < length vs. idx ! i < length cs \<and> nearest_centroid cs (vs ! i) (centroid_ID (cs ! (idx ! i))))"
proof -
  let ?ms = "map centroid_Vector cs"
  obtain m1 m2 where m: "NewMatrix ?ms = Done m1" "NewMatrix vs = Done m2"
    using assms(1) by (auto simp: nearest_indexes_def split: outcome.splits)
  have ne: "cs \<noteq> []" "vs \<noteq> []" using m by (auto simp: NewMatrix_def)
  note r1 = NewMatrix_rows [OF m(1)] and r2 = NewMatrix_rows [OF m(2)]
  have len: "\<forall>b \<in> set ?ms. length b = len" "\<forall>b \<in> set vs. length b = len" using assms(2,3) by auto
  then have hd: "length (hd ?ms) = len" "length (hd vs) = len" using ne by (simp_all add: list.map_sel)
  have rows: "row (m_cols m1) j (m_data m1) = vector_of (centroid_Vector (cs ! j))" if "j < length cs" for j
    using r1 len(1) hd(1) that vector_of_Done by (metis length_map nth_map outcome.inject(1) vector_of_def outcome.simps(5))
  have rows2: "row (m_cols m2) i (m_data m2) = vector_of (vs ! i)" if "i < length vs" for i
    using r2 len(2) hd(2) that by (metis vector_of_def outcome.simps(5))
  have cols: "m_cols m1 = m_cols m2" using r1 r2 hd by simp
  have l: "m_rows m1 = length cs" "m_rows m2 = length vs" using r1 r2 by auto
  have p: "products m1 m2 i = map (closeness (vs ! i)) cs" if "i < length vs" for i
    using l(1) by (intro nth_equalityI) (simp_all add: products_def closeness_def rows rows2 [OF that, folded cols])
  obtain sims idx' m1' m2' where n: "MatrixCosineSimilarity m1 m2 = Done ((sims, idx'), m1', m2')" "length idx' = m_rows m2"
      "\<forall>i < m_rows m2. idx' ! i < m_rows m1 \<and> (first_largest (products m1 m2 i) (idx' ! i) \<and> sims ! i = fl_conv F32 (products m1 m2 i ! (idx' ! i))
        \<or> (\<forall>d \<in> set (products m1 m2 i). \<not> fl_less (Fin (-1)) d) \<and> idx' ! i = 0 \<and> sims ! i = fl_conv F32 (Fin (-1)))"
    using nearest_rows [OF _ _ cols] r1 r2 by auto
  have idx: "idx = idx'" using assms(1) by (simp add: nearest_indexes_def m n(1))
  show ?thesis using n(2,3) p l unfolding idx nearest_centroid_def by auto
qed

lemma fetch_owner_advances:
  "fetch_owner clk n q s = (r, s') \<Longrightarrow> db_advances tbl q \<Longrightarrow> advances (tbl (snd s)) (tbl (snd s'))"
  by (auto simp: fetch_owner_def FetchOwner_def Let_def split: prod.splits dest: fetch_through_db)

lemma fetch_category_advances:
  "fetch_category clk n i q s = (r, s') \<Longrightarrow> db_advances tbl q \<Longrightarrow> advances (tbl (snd s)) (tbl (snd s'))"
  by (auto simp: fetch_category_def FetchCategory_def Let_def split: prod.splits dest: fetch_through_db)

lemma fetch_centroids_advances:
  "fetch_centroids clk i q s = (r, s') \<Longrightarrow> db_advances tbl q \<Longrightarrow> advances (tbl (snd s)) (tbl (snd s'))"
  by (auto simp: fetch_centroids_def FetchCentroids_def Let_def split: prod.splits dest: fetch_through_db)

text \<open>A handler that succeeds has passed all its steps.\<close>

lemma on_ok_Inr:
  "on_ok msg q k s = (Done (Inr x), s') \<Longrightarrow> \<exists>r s1. q s = (Inr r, s1) \<and> k r s1 = (Done (Inr x), s')"
  by (auto simp: on_ok_def fail_with_def split: prod.splits sum.splits)

lemma sure_Inr: "sure r k s = (Done (Inr x), s') \<Longrightarrow> \<exists>y. r = Done y \<and> k y s = (Done (Inr x), s')"
  by (cases r) (auto simp: sure_def)

lemma fetch_through_Inr:
  "fetch_through key now later q t s = (Inr v, t', s') \<Longrightarrow> lookup key now t = Some v \<and> s' = s \<or> q s = (Inr v, s')"
  by (auto simp: fetch_through_def split: option.splits prod.splits sum.splits)

context database
begin

lemma take_or_create_owner_stored:
  assumes "take_or_create_owner D n d = (Inr w, d')"
  shows "\<exists>ws k. tbl d' = (tbl d)\<lparr>t_owners := t_owners (tbl d) @ ws, t_next := k\<rparr> \<and> w \<in> set (t_owners (tbl d')) \<and> owner_Name w = n"
proof -
  have rd: "reads tbl (take_owner D n) (\<lambda>T r. r \<in> set (t_owners T) \<and> owner_Name r = n) (\<lambda>T. n \<notin> owner_Name ` set (t_owners T))"
    and wr: "writes tbl (create_owner D n) (owner_created n)"
    using laws by (simp_all add: lawful_def lawful_reads_def lawful_writes_def)
  consider "take_owner D n d = (Inr w, d')"
    | e d1 where "take_owner D n d = (Inl e, d1)" "create_owner D n d1 = (Inr w, d')"
    using assms by (auto simp: take_or_create_owner_def split: prod.splits sum.splits if_splits)
  then show ?thesis
  proof cases
    case 1
    then have "tbl d' = tbl d" "w \<in> set (t_owners (tbl d))" "owner_Name w = n" using reads_found [OF rd] by auto
    then show ?thesis by (intro exI [of _ "[]"] exI [of _ "t_next (tbl d)"]) simp
  next
    case 2
    have "tbl d1 = tbl d" using reads_failed [OF rd 2(1)] by simp
    then have c: "owner_created n (tbl d) w (tbl d')" using writes_done [OF wr 2(2)] by simp
    then have n: "owner_Name w = n" by (simp add: owner_created_def)
    from c have "\<exists>k. tbl d' = (tbl d)\<lparr>t_owners := t_owners (tbl d) @ [w], t_next := k\<rparr>" unfolding owner_created_def by blast
    then obtain k where "tbl d' = (tbl d)\<lparr>t_owners := t_owners (tbl d) @ [w], t_next := k\<rparr>" by blast
    then show ?thesis using n by (intro exI [of _ "[w]"] exI [of _ k]) simp
  qed
qed

lemma take_or_create_category_stored:
  assumes "take_or_create_category D n i d = (Inr c, d')"
  shows "\<exists>cs k. tbl d' = (tbl d)\<lparr>t_categories := t_categories (tbl d) @ cs, t_next := k\<rparr>
    \<and> c \<in> set (t_categories (tbl d')) \<and> category_Name c = n \<and> category_OwnerID c = i"
proof -
  have rd: "reads tbl (take_category D n i) (\<lambda>T r. r \<in> set (t_categories T) \<and> category_Name r = n \<and> category_OwnerID r = i)
      (\<lambda>T. (i, n) \<notin> (\<lambda>c. (category_OwnerID c, category_Name c)) ` set (t_categories T))"
    and wr: "writes tbl (create_category D n i) (category_created n i)"
    using laws by (simp_all add: lawful_def lawful_reads_def lawful_writes_def)
  consider "take_category D n i d = (Inr c, d')"
    | e d1 where "take_category D n i d = (Inl e, d1)" "create_category D n i d1 = (Inr c, d')"
    using assms by (auto simp: take_or_create_category_def split: prod.splits sum.splits if_splits)
  then show ?thesis
  proof cases
    case 1
    then have "tbl d' = tbl d" "c \<in> set (t_categories (tbl d))" "category_Name c = n" "category_OwnerID c = i"
      using reads_found [OF rd] by auto
    then show ?thesis by (intro exI [of _ "[]"] exI [of _ "t_next (tbl d)"]) simp
  next
    case 2
    have "tbl d1 = tbl d" using reads_failed [OF rd 2(1)] by simp
    then have e: "category_created n i (tbl d) c (tbl d')" using writes_done [OF wr 2(2)] by simp
    then have n: "category_Name c = n" "category_OwnerID c = i" by (simp_all add: category_created_def)
    from e have "\<exists>k. tbl d' = (tbl d)\<lparr>t_categories := t_categories (tbl d) @ [c], t_next := k\<rparr>" unfolding category_created_def by blast
    then obtain k where "tbl d' = (tbl d)\<lparr>t_categories := t_categories (tbl d) @ [c], t_next := k\<rparr>" by blast
    then show ?thesis using n by (intro exI [of _ "[c]"] exI [of _ k]) simp
  qed
qed

lemma find_or_create_centroid_stored:
  assumes "find_or_create_centroid D v i d = (Inr cs, d')"
  shows "\<exists>zs k. tbl d' = (tbl d)\<lparr>t_centroids := t_centroids (tbl d) @ zs, t_next := k\<rparr> \<and> cs = centroids_of (tbl d') i
    \<and> (\<forall>z \<in> set zs. centroid_Vector z = v)"
proof -
  have rd: "reads tbl (find_centroids D i) (\<lambda>T r. r = filter (\<lambda>c. centroid_CategoryID c = i) (t_centroids T)) (\<lambda>_. False)"
    and wr: "writes tbl (create_centroid D v i) (centroid_created v i)"
    using laws by (simp_all add: lawful_def lawful_reads_def lawful_writes_def)
  consider "find_centroids D i d = (Inr cs, d')"
    | d1 c where "find_centroids D i d = (Inr [], d1)" "create_centroid D v i d1 = (Inr c, d')" "cs = [c]"
    using assms by (auto simp: find_or_create_centroid_def split: prod.splits sum.splits list.splits)
  then show ?thesis
  proof cases
    case 1
    then have "tbl d' = tbl d" "cs = centroids_of (tbl d) i" using reads_found [OF rd 1] by (simp_all add: centroids_of_def)
    then show ?thesis by (intro exI [of _ "[]"] exI [of _ "t_next (tbl d)"]) simp
  next
    case 2
    have f: "tbl d1 = tbl d" "centroids_of (tbl d) i = []" using reads_found [OF rd 2(1)] by (simp_all add: centroids_of_def)
    then have e: "centroid_created v i (tbl d) c (tbl d')" using writes_done [OF wr 2(2)] by simp
    then have n: "centroid_CategoryID c = i" "centroid_Vector c = v" by (simp_all add: centroid_created_def)
    from e have "\<exists>k. tbl d' = (tbl d)\<lparr>t_centroids := t_centroids (tbl d) @ [c], t_next := k\<rparr>" unfolding centroid_created_def by blast
    then obtain k where "tbl d' = (tbl d)\<lparr>t_centroids := t_centroids (tbl d) @ [c], t_next := k\<rparr>" by blast
    then show ?thesis using n f(2) 2(3) by (intro exI [of _ "[c]"] exI [of _ k]) (simp add: centroids_of_def)
  qed
qed

text \<open>The same through the cache, when it is fresh.\<close>

lemma fetch_owner_stored:
  assumes "fetch_owner clk n (take_or_create_owner D n) s = (Inr w, s')" and "owners_fresh (clk 0) (fst s) (tbl (snd s))"
  shows "category (fst s') = category (fst s) \<and> centroids (fst s') = centroids (fst s)
    \<and> (\<exists>ws k. tbl (snd s') = (tbl (snd s))\<lparr>t_owners := t_owners (tbl (snd s)) @ ws, t_next := k\<rparr>
        \<and> w \<in> set (t_owners (tbl (snd s'))) \<and> owner_Name w = n)"
proof -
  obtain t' d' where f: "fetch_through (ownerKey n) (clk 0) (clk 1) (take_or_create_owner D n) (owner (fst s)) (snd s) = (Inr w, t', d')"
      "s' = ((fst s)\<lparr>owner := t'\<rparr>, d')"
    using assms(1) by (auto simp: fetch_owner_def FetchOwner_def Let_def split: prod.splits)
  have "\<exists>ws k. tbl d' = (tbl (snd s))\<lparr>t_owners := t_owners (tbl (snd s)) @ ws, t_next := k\<rparr> \<and> w \<in> set (t_owners (tbl d')) \<and> owner_Name w = n"
    using fetch_through_Inr [OF f(1)]
  proof
    assume h: "lookup (ownerKey n) (clk 0) (owner (fst s)) = Some w \<and> d' = snd s"
    then have "w \<in> set (t_owners (tbl (snd s))) \<and> owner_Name w = n" using assms(2) unfolding owners_fresh_def by blast
    then show ?thesis using h by (intro exI [of _ "[]"] exI [of _ "t_next (tbl (snd s))"]) simp
  qed (rule take_or_create_owner_stored)
  then show ?thesis using f(2) by simp
qed

lemma fetch_category_stored:
  assumes "fetch_category clk n i (take_or_create_category D n i) s = (Inr c, s')" and "categories_fresh (clk 2) (fst s) (tbl (snd s))"
  shows "centroids (fst s') = centroids (fst s)
    \<and> (\<exists>cs k. tbl (snd s') = (tbl (snd s))\<lparr>t_categories := t_categories (tbl (snd s)) @ cs, t_next := k\<rparr>
        \<and> c \<in> set (t_categories (tbl (snd s'))) \<and> category_Name c = n \<and> category_OwnerID c = i)"
proof -
  obtain t' d' where f: "fetch_through (categoryKey n i) (clk 2) (clk 3) (take_or_create_category D n i) (category (fst s)) (snd s) = (Inr c, t', d')"
      "s' = ((fst s)\<lparr>category := t'\<rparr>, d')"
    using assms(1) by (auto simp: fetch_category_def FetchCategory_def Let_def split: prod.splits)
  have "\<exists>cs k. tbl d' = (tbl (snd s))\<lparr>t_categories := t_categories (tbl (snd s)) @ cs, t_next := k\<rparr>
      \<and> c \<in> set (t_categories (tbl d')) \<and> category_Name c = n \<and> category_OwnerID c = i"
    using fetch_through_Inr [OF f(1)]
  proof
    assume h: "lookup (categoryKey n i) (clk 2) (category (fst s)) = Some c \<and> d' = snd s"
    then have "c \<in> set (t_categories (tbl (snd s))) \<and> category_Name c = n \<and> category_OwnerID c = i"
      using assms(2) unfolding categories_fresh_def by blast
    then show ?thesis using h by (intro exI [of _ "[]"] exI [of _ "t_next (tbl (snd s))"]) simp
  qed (rule take_or_create_category_stored)
  then show ?thesis using f(2) by simp
qed

lemma fetch_centroids_stored:
  assumes "fetch_centroids clk i (find_or_create_centroid D v i) s = (Inr cs, s')" and "centroids_fresh (clk 4) (fst s) (tbl (snd s))"
  shows "\<exists>zs k. tbl (snd s') = (tbl (snd s))\<lparr>t_centroids := t_centroids (tbl (snd s)) @ zs, t_next := k\<rparr>
      \<and> cs = centroids_of (tbl (snd s')) i \<and> (\<forall>z \<in> set zs. centroid_Vector z = v)"
proof -
  obtain t' d' where f: "fetch_through (centroidsKey i) (clk 4) (clk 5) (find_or_create_centroid D v i) (centroids (fst s)) (snd s) = (Inr cs, t', d')"
      "s' = ((fst s)\<lparr>centroids := t'\<rparr>, d')"
    using assms(1) by (auto simp: fetch_centroids_def FetchCentroids_def Let_def split: prod.splits)
  have "\<exists>zs k. tbl d' = (tbl (snd s))\<lparr>t_centroids := t_centroids (tbl (snd s)) @ zs, t_next := k\<rparr>
      \<and> cs = centroids_of (tbl d') i \<and> (\<forall>z \<in> set zs. centroid_Vector z = v)"
    using fetch_through_Inr [OF f(1)]
  proof
    assume h: "lookup (centroidsKey i) (clk 4) (centroids (fst s)) = Some cs \<and> d' = snd s"
    then have "cs = centroids_of (tbl (snd s)) i" using assms(2) by (simp add: centroids_fresh_def centroids_of_def)
    then show ?thesis using h by (intro exI [of _ "[]"] exI [of _ "t_next (tbl (snd s))"]) simp
  qed (rule find_or_create_centroid_stored)
  then show ?thesis using f(2) by simp
qed

end

text \<open>The rows: a document for each of the request, in order, and the embeddings cut after the counts.\<close>

definition new_embedding :: "u8 list \<Rightarrow> id \<Rightarrow> Embedding" where
  "new_embedding vector centroidID =
     \<lparr>embedding_ID = 0, embedding_Vector = vector, embedding_DocumentID = 0, embedding_CentroidID = centroidID\<rparr>"

lemma embedding_rows_eq:
  "n \<le> length vs \<Longrightarrow> length idx = length vs \<Longrightarrow> \<forall>i \<in> set idx. i < length cs \<Longrightarrow>
    embedding_rows cs n vs idx = Done (map2 new_embedding (take n vs) (map (\<lambda>i. centroid_ID (cs ! i)) (take n idx)), drop n vs, drop n idx)"
  by (induction cs n vs idx rule: embedding_rows.induct) (auto simp: new_embedding_def)

lemma upload_rows_eq:
  assumes "sum_list (map snd docs) = length vs" and "length idx = length vs" and "\<forall>i \<in> set idx. i < length cs"
  shows "\<exists>rows. upload_rows i cs docs vs idx = Done rows \<and> map fst rows = map (\<lambda>d. new_document i (fst d)) docs
    \<and> map (length \<circ> snd) rows = map snd docs
    \<and> concat (map snd rows) = map2 new_embedding vs (map (\<lambda>i. centroid_ID (cs ! i)) idx)"
  using assms
proof (induction i cs docs vs idx rule: upload_rows.induct)
  case (2 i cs doc n docs vs idx)
  have n: "n \<le> length vs" using "2.prems"(1) by simp
  note e = embedding_rows_eq [OF n "2.prems"(2,3)]
  have "sum_list (map snd docs) = length (drop n vs)" "length (drop n idx) = length (drop n vs)" "\<forall>i \<in> set (drop n idx). i < length cs"
    using "2.prems" by (auto dest: in_set_dropD)
  from "2.IH" [OF e refl refl this] obtain rows where rows: "upload_rows i cs docs (drop n vs) (drop n idx) = Done rows"
      "map fst rows = map (\<lambda>d. new_document i (fst d)) docs" "map (length \<circ> snd) rows = map snd docs"
      "concat (map snd rows) = map2 new_embedding (drop n vs) (map (\<lambda>i. centroid_ID (cs ! i)) (drop n idx))" by blast
  let ?f = "map (\<lambda>i. centroid_ID (cs ! i))"
  have "map2 new_embedding (take n vs) (?f (take n idx)) @ map2 new_embedding (drop n vs) (?f (drop n idx)) = map2 new_embedding vs (?f idx)"
    by (metis append_take_drop_id drop_map drop_zip map_append take_map take_zip)
  then show ?case using rows e n "2.prems"(2) by (simp add: comp_def)
qed simp

lemma with_documents_columns:
  "length ds = length ess \<Longrightarrow> map embedding_Vector (with_documents ds ess) = map embedding_Vector (concat ess)
    \<and> map embedding_CentroidID (with_documents ds ess) = map embedding_CentroidID (concat ess)
    \<and> map embedding_DocumentID (with_documents ds ess) = concat (map2 replicate (map length ess) (map document_ID ds))"
  by (induction ds ess rule: list_induct2) (auto simp: with_documents_def comp_def map_replicate_const)

section \<open>A successful upload\<close>

text \<open>
  What a successful upload has done: the documents of the request are stored in the category, in order and under new identifiers,
  which are the answer, and each has its embeddings, in order, assigned to the nearest centroid of the category.
\<close>

definition stored :: "UploadRequest \<Rightarrow> nat list \<Rightarrow> u8 list list \<Rightarrow> tables \<Rightarrow> id list \<Rightarrow> tables \<Rightarrow> bool" where
  "stored req counts vs T ids T' \<longleftrightarrow> (\<exists>c ds es ws cs zs k.
     T' = \<lparr>t_owners = t_owners T @ ws, t_categories = t_categories T @ cs, t_centroids = t_centroids T @ zs,
           t_documents = t_documents T @ ds, t_embeddings = t_embeddings T @ es, t_next = k\<rparr>
     \<and> named T' (u_Owner req) (u_Category req) c
     \<and> map (\<lambda>d. d\<lparr>document_ID := 0\<rparr>) ds = map (new_document (category_ID c)) (u_Documents req)
     \<and> ids = map document_ID ds \<and> (\<forall>i \<in> set ids. i \<notin> document_ids T) \<and> distinct ids
     \<and> map embedding_Vector es = vs \<and> map embedding_DocumentID es = concat (map2 replicate counts ids)
     \<and> (\<forall>e \<in> set es. nearest_centroid (centroids_of T' (category_ID c)) (embedding_Vector e) (embedding_CentroidID e)))"

text \<open>The vectors of the embedding service and those of the category have one length.\<close>

definition vectors_fit :: "nat \<Rightarrow> u8 list list \<Rightarrow> tables \<Rightarrow> bool" where
  "vectors_fit len vs T \<longleftrightarrow> (\<forall>v \<in> set vs. length v = len) \<and> (\<forall>c \<in> set (t_centroids T). length (centroid_Vector c) = len)"

lemma nearest_indexes_Done:
  assumes "cs \<noteq> []" and "vs \<noteq> []" and "8 < len" and "\<forall>c \<in> set cs. length (centroid_Vector c) = len" and "\<forall>v \<in> set vs. length v = len"
  shows "\<exists>idx. nearest_indexes cs vs = Done idx"
proof -
  have h: "8 < length (hd (map centroid_Vector cs))" "8 < length (hd vs)" using assms by (simp_all add: list.map_sel)
  have l: "\<forall>b \<in> set (map centroid_Vector cs). 8 \<le> length b" "\<forall>b \<in> set vs. 8 \<le> length b" using assms by auto
  obtain m1 where m1: "NewMatrix (map centroid_Vector cs) = Done m1" using NewMatrix_Done [OF _ h(1) l(1)] assms(1) by auto
  obtain m2 where m2: "NewMatrix vs = Done m2" using NewMatrix_Done [OF _ h(2) l(2)] assms(2) by auto
  have "length (hd (map centroid_Vector cs)) = length (hd vs)" using assms by (simp add: list.map_sel)
  then have "m_cols m1 = m_cols m2" using NewMatrix_rows [OF m1] NewMatrix_rows [OF m2] by simp
  then obtain r where "MatrixCosineSimilarity m1 m2 = Done r" by (simp add: MatrixCosineSimilarity_def Let_def)
  then show ?thesis by (cases r) (auto simp: nearest_indexes_def m1 m2 split: prod.splits)
qed

lemma zip_second: "length vs = length idx \<Longrightarrow> map (\<lambda>x. f (snd x)) (zip vs idx) = map f idx"
  by (induction vs idx rule: list_induct2) auto

text \<open>The documents of an upload as they are stored.\<close>

definition stored_documents :: "id \<Rightarrow> DocumentUpload list \<Rightarrow> tables \<Rightarrow> Document list \<Rightarrow> bool" where
  "stored_documents i docs T ds \<longleftrightarrow> map (\<lambda>d. d\<lparr>document_ID := 0\<rparr>) ds = map (new_document i) docs
   \<and> distinct (map document_ID ds) \<and> (\<forall>d \<in> set ds. t_next T \<le> document_ID d)"

definition stored_embeddings :: "Centroid list \<Rightarrow> nat list \<Rightarrow> u8 list list \<Rightarrow> Document list \<Rightarrow> Embedding list \<Rightarrow> bool" where
  "stored_embeddings cs counts vs ds es \<longleftrightarrow> map embedding_Vector es = vs
   \<and> map embedding_DocumentID es = concat (map2 replicate counts (map document_ID ds))
   \<and> (\<forall>e \<in> set es. nearest_centroid cs (embedding_Vector e) (embedding_CentroidID e))"

context database
begin

lemma save_upload_run:
  assumes idx: "nearest_indexes cs vs = Done idx" and fit: "\<forall>c \<in> set cs. length (centroid_Vector c) = len" "\<forall>v \<in> set vs. length v = len"
    and total: "sum_list (map snd docs) = length vs" and run: "save_upload D i cs docs vs s = (r, s')"
  shows "\<exists>ds es k. tbl (snd s') = (tbl (snd s))\<lparr>t_documents := t_documents (tbl (snd s)) @ ds,
        t_embeddings := t_embeddings (tbl (snd s)) @ es, t_next := k\<rparr>
    \<and> ((\<exists>e. r = Done (Inl e)) \<and> es = [] \<and> (ds = [] \<or> stored_documents i (map fst docs) (tbl (snd s)) ds)
      \<or> r = Done (Inr (map document_ID ds)) \<and> stored_documents i (map fst docs) (tbl (snd s)) ds
        \<and> stored_embeddings cs (map snd docs) vs ds es)"
proof -
  let ?T = "tbl (snd s)"
  have same: "?T = ?T\<lparr>t_documents := t_documents ?T @ [], t_embeddings := t_embeddings ?T @ [], t_next := t_next ?T\<rparr>" by simp
  note near = nearest_indexes_row [OF idx fit]
  have "\<forall>i \<in> set idx. i < length cs" using near by (metis in_set_conv_nth)
  then obtain rows where rows: "upload_rows i cs docs vs idx = Done rows" "map fst rows = map (\<lambda>d. new_document i (fst d)) docs"
      "map (length \<circ> snd) rows = map snd docs" "concat (map snd rows) = map2 new_embedding vs (map (\<lambda>i. centroid_ID (cs ! i)) idx)"
    using upload_rows_eq [OF total] near by blast
  have wd: "writes tbl (create_documents D new) (documents_created new)" and we: "writes tbl (create_embeddings D nes) (embeddings_created nes)"
    for new nes using laws by (simp_all add: lawful_def lawful_writes_def)
  obtain r1 d1 where q1: "create_documents D (map fst rows) (snd s) = (r1, d1)" by fastforce
  show ?thesis
  proof (cases r1)
    case (Inl e)
    then have "tbl d1 = ?T" using writes_failed [OF wd] q1 by blast
    moreover have "\<exists>e. r = Done (Inl e)" "snd s' = d1" using run Inl by (auto simp: save_upload_def idx rows(1) sure_def on_ok_def on_db_def q1 fail_with_def)
    ultimately show ?thesis using same by (intro exI [of _ "[]"] exI [of _ "t_next ?T"]) simp
  next
    case (Inr ds)
    have c1: "documents_created (map fst rows) ?T ds (tbl d1)" using writes_done [OF wd] q1 Inr by blast
    then have "\<exists>k. tbl d1 = ?T\<lparr>t_documents := t_documents ?T @ ds, t_next := k\<rparr>" unfolding documents_created_def by blast
    then obtain k where T1: "tbl d1 = ?T\<lparr>t_documents := t_documents ?T @ ds, t_next := k\<rparr>" by blast
    have z: "map (\<lambda>d. d\<lparr>document_ID := 0\<rparr>) ds = map (new_document i) (map fst docs)"
      using c1 rows(2) by (simp add: documents_created_def new_document_def comp_def)
    then have sd: "stored_documents i (map fst docs) ?T ds" using c1 by (simp add: stored_documents_def documents_created_def)
    have l: "length ds = length rows" using c1 by (auto simp: documents_created_def dest: map_eq_imp_length_eq)
    let ?new = "with_documents ds (map snd rows)"
    obtain r2 d2 where q2: "create_embeddings D ?new d1 = (r2, d2)" by fastforce
    note simps = save_upload_def idx rows(1) sure_def on_ok_def on_db_def q1 Inr fail_with_def q2 succeed_def
    show ?thesis
    proof (cases r2)
      case (Inl e)
      then have "tbl d2 = tbl d1" using writes_failed [OF we] q2 by blast
      moreover have "\<exists>e. r = Done (Inl e)" "snd s' = d2" using run Inl by (auto simp: simps)
      ultimately show ?thesis using sd T1 by (intro exI [of _ ds] exI [of _ "[]"] exI [of _ k]) simp
    next
      case r2: (Inr es)
      have c2: "embeddings_created ?new (tbl d1) es (tbl d2)" using writes_done [OF we] q2 r2 by blast
      then have "\<exists>k. tbl d2 = (tbl d1)\<lparr>t_embeddings := t_embeddings (tbl d1) @ es, t_next := k\<rparr>" unfolding embeddings_created_def by blast
      then obtain k2 where T2: "tbl d2 = (tbl d1)\<lparr>t_embeddings := t_embeddings (tbl d1) @ es, t_next := k2\<rparr>" by blast
      have f: "map embedding_Vector es = map embedding_Vector ?new" "map embedding_DocumentID es = map embedding_DocumentID ?new"
          "map embedding_CentroidID es = map embedding_CentroidID ?new"
        using c2 by (auto simp: embeddings_created_def elim: same_fields)
      note cols = with_documents_columns [of ds "map snd rows"]
      have len: "length vs = length idx" using near by simp
      have v: "map embedding_Vector es = vs"
        using f(1) cols l rows(4) len by (simp add: new_embedding_def map_zip_map2 comp_def case_prod_beta)
      have d: "map embedding_DocumentID es = concat (map2 replicate (map snd docs) (map document_ID ds))"
        using f(2) cols l rows(3) by (simp add: comp_def)
      have cid: "map embedding_CentroidID es = map (\<lambda>i. centroid_ID (cs ! i)) idx"
        using f(3) cols l rows(4) zip_second [OF len] by (simp add: new_embedding_def map_zip_map2 comp_def case_prod_beta)
      have "nearest_centroid cs (embedding_Vector e) (embedding_CentroidID e)" if e: "e \<in> set es" for e
      proof -
        obtain j where j: "j < length es" "es ! j = e" using e by (auto simp: in_set_conv_nth)
        have "length es = length vs" using v by auto
        then have "embedding_Vector e = vs ! j" "embedding_CentroidID e = centroid_ID (cs ! (idx ! j))"
          using j v cid len by (metis nth_map)+
        then show ?thesis using near j(1) \<open>length es = length vs\<close> by simp
      qed
      then have "stored_embeddings cs (map snd docs) vs ds es" using v d by (simp add: stored_embeddings_def)
      moreover have "r = Done (Inr (map document_ID ds))" "snd s' = d2" using run r2 by (auto simp: simps)
      moreover have "tbl d2 = ?T\<lparr>t_documents := t_documents ?T @ ds, t_embeddings := t_embeddings ?T @ es, t_next := k2\<rparr>"
        by (simp add: T2 T1)
      ultimately show ?thesis using sd by blast
    qed
  qed
qed

lemma Upload_stores:
  assumes e: "ai_embed (concat (upload_inputs ctx req)) = Inr vs" and fit: "vectors_fit n vs (tbl (snd s))"
    and fresh: "cache_fresh clk (fst s) (tbl (snd s))" and ok: "tables_ok (tbl (snd s))"
    and run: "Upload D ctx ai_embed clk req s = (Done (Inr ids), s')"
  shows "stored req (map length (upload_inputs ctx req)) vs (tbl (snd s)) ids (tbl (snd s'))"
proof -
  let ?in = "upload_inputs ctx req" and ?n = "u_Owner req" and ?m = "u_Category req" and ?T = "tbl (snd s)"
  have len: "u_Documents req \<noteq> []" "length vs = length (concat ?in)"
    using run e by (auto simp: Upload_def fail_with_def split: if_splits)
  note run' = run [unfolded Upload_def, simplified e sum.simps, simplified len if_False if_True simp_thms]
  obtain w s1 c s2 cs s3 where w: "fetch_owner clk ?n (take_or_create_owner D ?n) s = (Inr w, s1)"
    and c: "fetch_category clk ?m (owner_ID w) (take_or_create_category D ?m (owner_ID w)) s1 = (Inr c, s2)"
    and cs: "fetch_centroids clk (category_ID c) (find_or_create_centroid D (hd vs) (category_ID c)) s2 = (Inr cs, s3)"
    and save: "save_upload D (category_ID c) cs (zip (u_Documents req) (map length ?in)) vs s3 = (Done (Inr ids), s')"
    using run' by (blast dest: on_ok_Inr)
  obtain k1 ws where T1: "tbl (snd s1) = ?T\<lparr>t_owners := t_owners ?T @ ws, t_next := k1\<rparr>"
      and w1: "w \<in> set (t_owners (tbl (snd s1)))" "owner_Name w = ?n"
      and c1: "category (fst s1) = category (fst s)" "centroids (fst s1) = centroids (fst s)"
    using fetch_owner_stored [OF w] fresh unfolding cache_fresh_def by blast
  have "categories_fresh (clk 2) (fst s1) (tbl (snd s1))" using fresh c1 by (simp add: T1 cache_fresh_def categories_fresh_def)
  then obtain k2 ks where T2: "tbl (snd s2) = (tbl (snd s1))\<lparr>t_categories := t_categories (tbl (snd s1)) @ ks, t_next := k2\<rparr>"
      and c2: "c \<in> set (t_categories (tbl (snd s2)))" "category_Name c = ?m" "category_OwnerID c = owner_ID w" "centroids (fst s2) = centroids (fst s1)"
    using fetch_category_stored [OF c] by blast
  have "centroids_fresh (clk 4) (fst s2) (tbl (snd s2))" using fresh c1 c2(4) by (simp add: T2 T1 cache_fresh_def centroids_fresh_def)
  then obtain k3 zs where T3: "tbl (snd s3) = (tbl (snd s2))\<lparr>t_centroids := t_centroids (tbl (snd s2)) @ zs, t_next := k3\<rparr>"
      and cs3: "cs = centroids_of (tbl (snd s3)) (category_ID c)" "\<forall>z \<in> set zs. centroid_Vector z = hd vs"
    using fetch_centroids_stored [OF cs] by blast
  have "vs \<noteq> []" using len by (cases "u_Documents req") (auto simp: upload_inputs_def)
  then have "\<forall>z \<in> set zs. length (centroid_Vector z) = n" using cs3(2) fit by (simp add: vectors_fit_def)
  then have fits: "\<forall>c \<in> set cs. length (centroid_Vector c) = n" "\<forall>v \<in> set vs. length v = n"
    using fit by (auto simp: vectors_fit_def cs3(1) centroids_of_def T3 T2 T1)
  let ?docs = "zip (u_Documents req) (map length ?in)"
  have l: "length (u_Documents req) = length (map length ?in)" by (simp add: upload_inputs_def)
  then have d: "map fst ?docs = u_Documents req" "map snd ?docs = map length ?in" by simp_all
  have total: "sum_list (map snd ?docs) = length vs" unfolding d(2) len(2) by (simp add: length_concat)
  obtain idx where idx: "nearest_indexes cs vs = Done idx" using save by (auto simp: save_upload_def dest: sure_Inr)
  obtain ds es k4 where T4: "tbl (snd s') = (tbl (snd s3))\<lparr>t_documents := t_documents (tbl (snd s3)) @ ds,
        t_embeddings := t_embeddings (tbl (snd s3)) @ es, t_next := k4\<rparr>"
      and ids: "ids = map document_ID ds" and sd: "stored_documents (category_ID c) (u_Documents req) (tbl (snd s3)) ds"
      and se: "stored_embeddings cs (map length ?in) vs ds es"
    using save_upload_run [OF idx fits total save] unfolding d by auto
  have "advances ?T (tbl (snd s3))"
    using fetch_owner_advances [OF w] fetch_category_advances [OF c] fetch_centroids_advances [OF cs]
      take_or_create_advances find_or_create_advances advances_trans by meson
  then have "keys_ok (tbl (snd s3))" using ok by (simp add: advances_def tables_ok_def)
  moreover have "document_ids (tbl (snd s3)) = document_ids ?T" by (simp add: document_ids_def T3 T2 T1)
  ultimately have new: "\<forall>i \<in> set ids. i \<notin> document_ids ?T"
    using sd unfolding ids set_map stored_documents_def by (metis (no_types, lifting) UnI1 UnI2 imageE keys_ok_def leD)
  have T': "tbl (snd s') = \<lparr>t_owners = t_owners ?T @ ws, t_categories = t_categories ?T @ ks, t_centroids = t_centroids ?T @ zs,
      t_documents = t_documents ?T @ ds, t_embeddings = t_embeddings ?T @ es, t_next = k4\<rparr>"
    by (simp add: T4 T3 T2 T1)
  have "named (tbl (snd s')) ?n ?m c" using w1 c2 by (auto simp: named_def T4 T3 T2 T1)
  moreover have "cs = centroids_of (tbl (snd s')) (category_ID c)" by (simp add: cs3(1) T4 centroids_of_def)
  then have "\<forall>e \<in> set es. nearest_centroid (centroids_of (tbl (snd s')) (category_ID c)) (embedding_Vector e) (embedding_CentroidID e)"
    using se by (simp add: stored_embeddings_def)
  moreover have "map (\<lambda>d. d\<lparr>document_ID := 0\<rparr>) ds = map (new_document (category_ID c)) (u_Documents req)" "distinct ids"
    using sd by (simp_all add: stored_documents_def ids)
  moreover have "map embedding_Vector es = vs" "map embedding_DocumentID es = concat (map2 replicate (map length ?in) ids)"
    using se by (simp_all add: stored_embeddings_def ids)
  ultimately show ?thesis
    unfolding stored_def using T' new ids
    by (intro exI [of _ c] exI [of _ ds] exI [of _ es] exI [of _ ws] exI [of _ ks] exI [of _ zs] exI [of _ k4] conjI)
qed

end

section \<open>An upload that does not succeed\<close>

text \<open>Steps that touch neither documents nor embeddings.\<close>

definition quiet :: "tables \<Rightarrow> tables \<Rightarrow> bool" where
  "quiet T T' \<longleftrightarrow> t_documents T' = t_documents T \<and> t_embeddings T' = t_embeddings T \<and> t_next T \<le> t_next T'"

definition db_quiet :: "('d \<Rightarrow> tables) \<Rightarrow> ('d \<Rightarrow> 'r \<times> 'd) \<Rightarrow> bool" where
  "db_quiet tbl q \<longleftrightarrow> (\<forall>d. quiet (tbl d) (tbl (snd (q d))))"

lemma quiet_refl [simp]: "quiet T T"
  by (simp add: quiet_def)

lemma quiet_trans: "quiet T T' \<Longrightarrow> quiet T' T'' \<Longrightarrow> quiet T T''"
  by (simp add: quiet_def)

lemma reads_quiet: "reads tbl q ok missing \<Longrightarrow> db_quiet tbl q"
  by (simp add: reads_def db_quiet_def)

lemma writes_quiet:
  assumes "writes tbl q effect" and "\<And>T r T'. effect T r T' \<Longrightarrow> quiet T T'"
  shows "db_quiet tbl q"
  unfolding db_quiet_def
proof
  fix d
  obtain r d' where "q d = (r, d')" by fastforce
  then show "quiet (tbl d) (tbl (snd (q d)))"
    using writes_done [OF assms(1), of d] writes_failed [OF assms(1), of d] assms(2) by (cases r) auto
qed

lemma created_quiet:
  "owner_created n T w T' \<Longrightarrow> quiet T T'" "category_created m i T c T' \<Longrightarrow> quiet T T'" "centroid_created v i T z T' \<Longrightarrow> quiet T T'"
  unfolding owner_created_def category_created_def centroid_created_def quiet_def
  by (metis order_less_imp_le order_le_less_trans tables.select_convs(4,5) tables.surjective tables.update_convs(1,6),
      metis order_less_imp_le order_le_less_trans tables.select_convs(4,5) tables.surjective tables.update_convs(2,6),
      metis order_less_imp_le order_le_less_trans tables.select_convs(4,5) tables.surjective tables.update_convs(3,6))

lemma fetch_through_quiet:
  assumes "fetch_through key now later q t d = (r, t', d')" and "db_quiet tbl q"
  shows "quiet (tbl d) (tbl d')"
  using assms unfolding fetch_through_def db_quiet_def
  by (auto split: option.splits prod.splits sum.splits) (metis snd_conv)+

lemma fetch_quiet:
  "fetch_owner clk n q1 s = (r1, s') \<Longrightarrow> db_quiet tbl q1 \<Longrightarrow> quiet (tbl (snd s)) (tbl (snd s'))"
  "fetch_category clk n i q2 s = (r2, s') \<Longrightarrow> db_quiet tbl q2 \<Longrightarrow> quiet (tbl (snd s)) (tbl (snd s'))"
  "fetch_centroids clk i q3 s = (r3, s') \<Longrightarrow> db_quiet tbl q3 \<Longrightarrow> quiet (tbl (snd s)) (tbl (snd s'))"
  by (auto simp: fetch_owner_def FetchOwner_def fetch_category_def FetchCategory_def fetch_centroids_def FetchCentroids_def Let_def
    split: prod.splits dest: fetch_through_quiet)

lemma on_ok_cases:
  assumes "on_ok msg q k s = (r, s')"
  obtains e where "q s = (Inl e, s')" "r = Done (Inl (joined msg e))" | x s1 where "q s = (Inr x, s1)" "k x s1 = (r, s')"
  using assms by (auto simp: on_ok_def fail_with_def split: prod.splits sum.splits)

lemma sure_cases:
  assumes "sure x k s = (r, s')"
  obtains p where "x = Panic p" "r = Panic p" "s' = s" | y where "x = Done y" "k y s = (r, s')"
  using assms by (cases x) (auto simp: sure_def)

lemma upload_rows_documents:
  "upload_rows i cs docs vs idx = Done rows \<Longrightarrow> map fst rows = map (new_document i) (map fst docs)"
  by (induction i cs docs vs idx arbitrary: rows rule: upload_rows.induct) (auto split: outcome.splits)

text \<open>Documents that were added by an upload, and that no embedding refers to.\<close>

definition orphans :: "UploadRequest \<Rightarrow> tables \<Rightarrow> tables \<Rightarrow> bool" where
  "orphans req T T' \<longleftrightarrow> (\<exists>i ds. stored_documents i (u_Documents req) T ds \<and> t_documents T' = t_documents T @ ds
     \<and> (\<forall>e \<in> set (t_embeddings T'). embedding_DocumentID e \<notin> document_ID ` set ds))"

definition unfinished :: "UploadRequest \<Rightarrow> tables \<Rightarrow> tables \<Rightarrow> bool" where
  "unfinished req T T' \<longleftrightarrow> t_embeddings T' = t_embeddings T \<and> (t_documents T' = t_documents T \<or> orphans req T T')"

lemma quiet_unfinished: "quiet T T' \<Longrightarrow> unfinished req T T'"
  by (simp add: quiet_def unfinished_def)

lemma stored_documents_mono: "stored_documents i docs T ds \<Longrightarrow> t_next T0 \<le> t_next T \<Longrightarrow> stored_documents i docs T0 ds"
  by (auto simp: stored_documents_def)

context database
begin

lemma take_or_create_quiet: "db_quiet tbl (take_or_create_owner D n)" "db_quiet tbl (take_or_create_category D m i)"
    "db_quiet tbl (find_or_create_centroid D v i)"
proof -
  have q: "db_quiet tbl (take_owner D n)" "db_quiet tbl (take_category D m i)" "db_quiet tbl (find_centroids D i)"
    using laws unfolding lawful_def lawful_reads_def by (meson reads_quiet)+
  have w: "db_quiet tbl (create_owner D n)" "db_quiet tbl (create_category D m i)" "db_quiet tbl (create_centroid D v i)"
    using laws unfolding lawful_def lawful_writes_def by (meson writes_quiet created_quiet)+
  show "db_quiet tbl (take_or_create_owner D n)"
    using q(1) w(1) unfolding db_quiet_def take_or_create_owner_def
    by (auto split: prod.splits sum.splits) (metis quiet_trans snd_conv)+
  show "db_quiet tbl (take_or_create_category D m i)"
    using q(2) w(2) unfolding db_quiet_def take_or_create_category_def
    by (auto split: prod.splits sum.splits) (metis quiet_trans snd_conv)+
  show "db_quiet tbl (find_or_create_centroid D v i)"
    using q(3) w(3) unfolding db_quiet_def find_or_create_centroid_def
    by (auto split: prod.splits sum.splits list.splits) (metis quiet_trans snd_conv)+
qed

lemma save_upload_unfinished:
  assumes run: "save_upload D i cs docs vs s = (r, s')" and no: "\<nexists>ids. r = Done (Inr ids)"
    and docs: "map fst docs = u_Documents req" and q: "quiet T (tbl (snd s))" and ok: "tables_ok (tbl (snd s))"
  shows "unfinished req T (tbl (snd s'))"
  using run [unfolded save_upload_def]
proof (cases rule: sure_cases)
  case 1
  then show ?thesis using q quiet_unfinished by simp
next
  case (2 idx)
  let ?T = "tbl (snd s)"
  have wd: "writes tbl (create_documents D new) (documents_created new)" and we: "writes tbl (create_embeddings D nes) (embeddings_created nes)"
    for new nes using laws by (simp_all add: lawful_def lawful_writes_def)
  from 2(2) show ?thesis
  proof (cases rule: sure_cases)
    case 1
    then show ?thesis using q quiet_unfinished by simp
  next
    case (2 rows)
    from 2(2) show ?thesis
    proof (cases rule: on_ok_cases)
      case (1 e)
      then have "tbl (snd s') = ?T" using writes_failed [OF wd, of "map fst rows" "snd s"] by (auto simp: on_db_def split: prod.splits)
      then show ?thesis using q quiet_unfinished by simp
    next
      case (2 ds s1)
      then have c: "documents_created (map fst rows) ?T ds (tbl (snd s1))"
        using writes_done [OF wd, of "map fst rows" "snd s"] by (auto simp: on_db_def split: prod.splits)
      then have "\<exists>k. tbl (snd s1) = ?T\<lparr>t_documents := t_documents ?T @ ds, t_next := k\<rparr>" unfolding documents_created_def by blast
      then obtain k where T1: "tbl (snd s1) = ?T\<lparr>t_documents := t_documents ?T @ ds, t_next := k\<rparr>" by blast
      have z: "map fst rows = map (new_document i) (u_Documents req)"
        using upload_rows_documents \<open>upload_rows i cs docs vs idx = Done rows\<close> docs by metis
      have "map (\<lambda>d. d\<lparr>document_ID := 0\<rparr>) (map (new_document i) (u_Documents req)) = map (new_document i) (u_Documents req)"
        by (simp add: new_document_def)
      then have sd: "stored_documents i (u_Documents req) ?T ds" using c z by (simp add: stored_documents_def documents_created_def)
      from 2(2) show ?thesis
      proof (cases rule: on_ok_cases)
        case (1 e)
        then have T': "tbl (snd s') = tbl (snd s1)"
          using writes_failed [OF we, of _ "snd s1"] by (auto simp: on_db_def split: prod.splits)
        have "embedding_DocumentID e \<notin> document_ID ` set ds" if "e \<in> set (t_embeddings ?T)" for e
        proof -
          have "embedding_DocumentID e \<in> document_ids ?T" using ok that by (auto simp: tables_ok_def references_ok_def)
          then have "embedding_DocumentID e < t_next ?T" using ok by (simp add: tables_ok_def keys_ok_def)
          then show ?thesis using sd by (auto simp: stored_documents_def)
        qed
        moreover have "stored_documents i (u_Documents req) T ds" using stored_documents_mono [OF sd] q by (simp add: quiet_def)
        ultimately show ?thesis using q by (auto simp: unfinished_def orphans_def T' T1 quiet_def)
      next
        case (2 x s2)
        then show ?thesis using no by (auto simp: succeed_def)
      qed
    qed
  qed
qed

lemma Upload_unfinished:
  assumes run: "Upload D ctx ai_embed clk req s = (r, s')" and no: "\<nexists>ids. r = Done (Inr ids)" and ok: "tables_ok (tbl (snd s))"
  shows "unfinished req (tbl (snd s)) (tbl (snd s'))"
proof (cases "s' = s")
  case False
  let ?in = "upload_inputs ctx req" and ?n = "u_Owner req" and ?m = "u_Category req" and ?T = "tbl (snd s)"
  have "u_Documents req \<noteq> []" using run False by (auto simp: Upload_def fail_with_def)
  moreover obtain vs where vs: "ai_embed (concat ?in) = Inr vs" "length vs = length (concat ?in)"
    using run False by (auto simp: Upload_def fail_with_def split: if_splits sum.splits)
  ultimately have run': "on_ok ''failed to get owner'' (fetch_owner clk ?n (take_or_create_owner D ?n)) (\<lambda>owner.
          on_ok ''failed to get category''
            (fetch_category clk ?m (owner_ID owner) (take_or_create_category D ?m (owner_ID owner))) (\<lambda>category.
          on_ok ''failed to get centroids''
            (fetch_centroids clk (category_ID category) (find_or_create_centroid D (hd vs) (category_ID category))) (\<lambda>centroids.
          save_upload D (category_ID category) centroids (zip (u_Documents req) (map length ?in)) vs))) s = (r, s')"
    using run by (simp add: Upload_def)
  note quiets = fetch_quiet(1) [OF _ take_or_create_quiet(1)] fetch_quiet(2) [OF _ take_or_create_quiet(2)]
    fetch_quiet(3) [OF _ take_or_create_quiet(3)]
  from run' show ?thesis
  proof (cases rule: on_ok_cases)
    case (1 e)
    then show ?thesis using quiets(1) quiet_unfinished by metis
  next
    case (2 w s1)
    have q1: "quiet ?T (tbl (snd s1))" using quiets(1) [OF 2(1)] .
    have a1: "advances ?T (tbl (snd s1))" using fetch_owner_advances [OF 2(1) take_or_create_advances(1)] .
    from 2(2) show ?thesis
    proof (cases rule: on_ok_cases)
      case (1 e)
      then show ?thesis using quiets(2) q1 quiet_trans quiet_unfinished by metis
    next
      case (2 c s2)
      have q2: "quiet ?T (tbl (snd s2))" using quiet_trans [OF q1 quiets(2) [OF 2(1)]] .
      have a2: "advances ?T (tbl (snd s2))"
        using advances_trans [OF a1 fetch_category_advances [OF 2(1) take_or_create_advances(2)]] .
      from 2(2) show ?thesis
      proof (cases rule: on_ok_cases)
        case (1 e)
        then show ?thesis using quiets(3) q2 quiet_trans quiet_unfinished by metis
      next
        case (2 cs s3)
        have q3: "quiet ?T (tbl (snd s3))" using quiet_trans [OF q2 quiets(3) [OF 2(1)]] .
        have "advances ?T (tbl (snd s3))"
          using advances_trans [OF a2 fetch_centroids_advances [OF 2(1) find_or_create_advances]] .
        then have "tables_ok (tbl (snd s3))" using ok by (simp add: advances_def)
        moreover have "map fst (zip (u_Documents req) (map length ?in)) = u_Documents req" by (simp add: upload_inputs_def)
        ultimately show ?thesis using save_upload_unfinished [OF 2(2) no _ q3] by blast
      qed
    qed
  qed
qed (simp add: unfinished_def)

end

section \<open>Uploads that cannot succeed\<close>

text \<open>
  An empty list of centroids stays in the cache when a category is searched that has none; an upload then takes it from there
  instead of making the first centroid.
\<close>

lemma Upload_no_centroids:
  assumes "u_Documents req \<noteq> []" and "ai_embed (concat (upload_inputs ctx req)) = Inr vs"
    and "length vs = length (concat (upload_inputs ctx req))"
    and "lookup (ownerKey (u_Owner req)) (clk 0) (owner (fst s)) = Some w"
    and "lookup (categoryKey (u_Category req) (owner_ID w)) (clk 2) (category (fst s)) = Some c"
    and "lookup (centroidsKey (category_ID c)) (clk 4) (centroids (fst s)) = Some []"
  shows "Upload D ctx ai_embed clk req s = (Panic ''matrix rows are empty'', s)"
  using assms by (simp add: Upload_def on_ok_def fetch_owner_def FetchOwner_def fetch_category_def FetchCategory_def
    fetch_centroids_def FetchCentroids_def fetch_through_def save_upload_def nearest_indexes_def NewMatrix_def sure_def)

section \<open>A run on the store in memory\<close>

definition upload_request :: UploadRequest where
  "upload_request = \<lparr>u_Owner = [97], u_Category = [98], u_Documents = [\<lparr>u_Name = [], u_ExternalID = [], u_Document = Str [120]\<rparr>]\<rparr>"

definition one_vector :: "u8 list" where
  "one_vector = [0, 0, 0, 0, 0, 0, 128, 63, 255]"

definition embed_all :: "gotext list \<Rightarrow> error + u8 list list" where
  "embed_all = (\<lambda>xs. Inr (map (\<lambda>_. one_vector) xs))"

lemma nearest_only: "vs \<noteq> [] \<Longrightarrow> \<forall>v \<in> set vs. length v = 9 \<Longrightarrow> length (centroid_Vector c) = 9 \<Longrightarrow>
    nearest_indexes [c] vs = Done (replicate (length vs) 0)"
proof -
  assume vs: "vs \<noteq> []" "\<forall>v \<in> set vs. length v = 9" "length (centroid_Vector c) = 9"
  obtain idx where idx: "nearest_indexes [c] vs = Done idx" using nearest_indexes_Done [of "[c]" vs 9] vs by auto
  then have "length idx = length vs" "\<forall>i < length vs. idx ! i = 0" using nearest_indexes_row [of "[c]" vs idx 9] vs by auto
  then have "idx = replicate (length vs) 0" by (metis length_replicate nth_equalityI nth_replicate)
  then show ?thesis using idx by simp
qed

lemma embedding_rows_same:
  "embedding_rows (c # cs) (length vs) vs (replicate (length vs) 0) = Done (map (\<lambda>v. new_embedding v (centroid_ID c)) vs, [], [])"
  by (induction vs) (auto simp: new_embedding_def)

text \<open>The queries of the store in memory when the next one is not scripted to fail.\<close>

definition no_fault :: "memory \<Rightarrow> bool" where
  "no_fault d \<longleftrightarrow> (case script d of Some e # rest \<Rightarrow> False | _ \<Rightarrow> True)"

lemma no_fault_simps [simp]: "no_fault \<lparr>mem = T, script = []\<rparr>" "no_fault \<lparr>mem = T, script = None # rest\<rparr>"
  by (simp_all add: no_fault_def)

lemma faulty_plain: "no_fault d \<Longrightarrow> faulty q d = (fst (q (mem d)), \<lparr>mem = snd (q (mem d)), script = tl (script d)\<rparr>)"
  by (cases d) (simp add: faulty_def no_fault_def case_prod_beta split: list.splits option.splits)

lemma memory_plain:
  assumes "no_fault d"
  shows "take_owner memory_store n d = (take_first (\<lambda>w. owner_Name w = n) (t_owners (mem d)), \<lparr>mem = mem d, script = tl (script d)\<rparr>)"
    and "n \<notin> owner_Name ` set (t_owners (mem d)) \<Longrightarrow> create_owner memory_store n d =
      (let r = \<lparr>owner_ID = t_next (mem d), owner_Name = n\<rparr>
       in (Inr r, \<lparr>mem = (mem d)\<lparr>t_owners := t_owners (mem d) @ [r], t_next := Suc (t_next (mem d))\<rparr>, script = tl (script d)\<rparr>))"
    and "take_category memory_store m i d =
      (take_first (\<lambda>c. category_Name c = m \<and> category_OwnerID c = i) (t_categories (mem d)), \<lparr>mem = mem d, script = tl (script d)\<rparr>)"
    and "i \<in> owner_ids (mem d) \<Longrightarrow> (i, m) \<notin> (\<lambda>c. (category_OwnerID c, category_Name c)) ` set (t_categories (mem d)) \<Longrightarrow>
      create_category memory_store m i d =
      (let r = \<lparr>category_ID = t_next (mem d), category_Name = m, category_OwnerID = i\<rparr>
       in (Inr r, \<lparr>mem = (mem d)\<lparr>t_categories := t_categories (mem d) @ [r], t_next := Suc (t_next (mem d))\<rparr>, script = tl (script d)\<rparr>))"
    and "find_centroids memory_store k d =
      (Inr (filter (\<lambda>c. centroid_CategoryID c = k) (t_centroids (mem d))), \<lparr>mem = mem d, script = tl (script d)\<rparr>)"
    and "k \<in> category_ids (mem d) \<Longrightarrow> create_centroid memory_store v k d =
      (let r = \<lparr>centroid_ID = t_next (mem d), centroid_Vector = v, centroid_CategoryID = k\<rparr>
       in (Inr r, \<lparr>mem = (mem d)\<lparr>t_centroids := t_centroids (mem d) @ [r], t_next := Suc (t_next (mem d))\<rparr>, script = tl (script d)\<rparr>))"
    and "document_CategoryID ` set new \<subseteq> category_ids (mem d) \<Longrightarrow> create_documents memory_store new d =
      (let rs = number_documents (t_next (mem d)) new
       in (Inr rs, \<lparr>mem = (mem d)\<lparr>t_documents := t_documents (mem d) @ rs, t_next := t_next (mem d) + length rs\<rparr>, script = tl (script d)\<rparr>))"
    and "embedding_DocumentID ` set es \<subseteq> document_ids (mem d) \<Longrightarrow> embedding_CentroidID ` set es \<subseteq> centroid_ids (mem d) \<Longrightarrow>
      create_embeddings memory_store es d =
      (let rs = number_embeddings (t_next (mem d)) es
       in (Inr rs, \<lparr>mem = (mem d)\<lparr>t_embeddings := t_embeddings (mem d) @ rs, t_next := t_next (mem d) + length rs\<rparr>, script = tl (script d)\<rparr>))"
  using assms by (simp_all add: memory_store_def faulty_plain Let_def)

lemma memory_fault:
  assumes "script d = Some e # rest"
  shows "create_embeddings memory_store es d = (Inl (filter (\<lambda>l. l \<noteq> RecordNotFound) e), \<lparr>mem = mem d, script = rest\<rparr>)"
    and "create_centroid memory_store v k d = (Inl (filter (\<lambda>l. l \<noteq> RecordNotFound) e), \<lparr>mem = mem d, script = rest\<rparr>)"
  using assms by (simp_all add: memory_store_def faulty_def)

lemma number_embeddings_length: "length (number_embeddings i es) = length es"
  by (induction i es rule: number_embeddings.induct) simp_all

lemma number_embeddings_vectors: "map embedding_Vector (number_embeddings i es) = map embedding_Vector es"
  by (rule same_fields [OF number_embeddings_same]) simp

definition uploaded_cache :: Cache where
  "uploaded_cache = \<lparr>owner = save (ownerKey [97]) 0 \<lparr>owner_ID = 1, owner_Name = [97]\<rparr> Map.empty,
     category = save (categoryKey [98] 1) 0 \<lparr>category_ID = 2, category_Name = [98], category_OwnerID = 1\<rparr> Map.empty,
     centroids = save (centroidsKey 2) 0 [\<lparr>centroid_ID = 3, centroid_Vector = one_vector, centroid_CategoryID = 2\<rparr>] Map.empty\<rparr>"

definition uploaded_tables :: "Embedding list \<Rightarrow> tables" where
  "uploaded_tables es = \<lparr>t_owners = [\<lparr>owner_ID = 1, owner_Name = [97]\<rparr>],
     t_categories = [\<lparr>category_ID = 2, category_Name = [98], category_OwnerID = 1\<rparr>],
     t_centroids = [\<lparr>centroid_ID = 3, centroid_Vector = one_vector, centroid_CategoryID = 2\<rparr>],
     t_documents = [\<lparr>document_ID = 4, document_Name = [], document_ExternalID = [], document_Document = Some (Str [120]), document_CategoryID = 2\<rparr>],
     t_embeddings = es, t_next = 5 + length es\<rparr>"

lemma upload_run:
  "\<exists>es. Upload memory_store 100 embed_all (\<lambda>_. 0) upload_request (NewCache, \<lparr>mem = no_tables, script = []\<rparr>)
      = (Done (Inr [4]), uploaded_cache, \<lparr>mem = uploaded_tables es, script = []\<rparr>)
    \<and> (\<forall>v \<in> set (map embedding_Vector es). v = one_vector)"
proof -
  let ?doc = "\<lparr>u_Name = [], u_ExternalID = [], u_Document = Str [120]\<rparr>"
  let ?xs = "document_inputs 100 ?doc"
  let ?vs = "map (\<lambda>_. one_vector) ?xs"
  have xs: "?xs \<noteq> []" by simp
  then have hd: "hd ?vs = one_vector" by (simp add: list.map_sel)
  let ?c = "\<lparr>centroid_ID = 3, centroid_Vector = one_vector, centroid_CategoryID = 2\<rparr>"
  have near: "nearest_indexes [?c] ?vs = Done (replicate (length ?xs) 0)"
    using nearest_only [of ?vs ?c] xs by (simp add: one_vector_def)
  have rows: "upload_rows 2 [?c] [(?doc, length ?xs)] ?vs (replicate (length ?xs) 0)
      = Done [(new_document 2 ?doc, map (\<lambda>v. new_embedding v 3) ?vs)]"
    using embedding_rows_same [of ?c "[]" ?vs] by simp
  let ?T2 = "no_tables\<lparr>t_owners := [\<lparr>owner_ID = 1, owner_Name = [97]\<rparr>],
      t_categories := [\<lparr>category_ID = 2, category_Name = [98], category_OwnerID = 1\<rparr>], t_centroids := [?c], t_next := 4\<rparr>"
  let ?es = "number_embeddings 5 (map (\<lambda>v. (new_embedding v 3)\<lparr>embedding_DocumentID := 4\<rparr>) ?vs)"
  have save: "save_upload memory_store 2 [?c] [(?doc, length ?xs)] ?vs (cache, \<lparr>mem = ?T2, script = []\<rparr>)
      = (Done (Inr [4]), cache, \<lparr>mem = uploaded_tables ?es, script = []\<rparr>)" for cache
    by (simp add: save_upload_def near rows sure_def on_ok_def on_db_def memory_plain id_sets new_document_def new_embedding_def
      with_documents_def succeed_def no_tables_def uploaded_tables_def Let_def comp_def image_image image_constant_conv number_embeddings_length
      del: upload_rows.simps One_nat_def)
  have "Upload memory_store 100 embed_all (\<lambda>_. 0) upload_request (NewCache, \<lparr>mem = no_tables, script = []\<rparr>)
      = (Done (Inr [4]), uploaded_cache, \<lparr>mem = uploaded_tables ?es, script = []\<rparr>)"
    using save
    by (simp add: Upload_def upload_request_def upload_inputs_def embed_all_def on_ok_def fetch_owner_def FetchOwner_def
      fetch_category_def FetchCategory_def fetch_centroids_def FetchCentroids_def fetch_through_def lookup_def NewCache_def uploaded_cache_def
      take_or_create_owner_def take_or_create_category_def find_or_create_centroid_def memory_plain no_tables_def take_first_def
      errors_Is_def id_sets hd Let_def del: One_nat_def)
  moreover have "\<forall>v \<in> set (map embedding_Vector ?es). v = one_vector"
    unfolding number_embeddings_vectors by (simp add: new_embedding_def)
  ultimately show ?thesis by blast
qed

section \<open>Properties\<close>

text \<open>
  C4: A successful upload does what it promises, on every lawful and consistent database: the documents of the request are stored in order under new
  identifiers, which are the answer, in the category of that name of the owner of that name; each has its embeddings, in order, and each
  embedding belongs to the nearest centroid of the category; all rows there were are kept. It takes a cache whose entries that have not expired
  agree with the tables (with older centroids an embedding goes to the nearest of those in the cache), and new vectors of one length, that of
  every stored centroid.
\<close>

theorem upload_refines_tables:
  assumes "lawful tbl D" and "ai_embed (concat (upload_inputs ctx req)) = Inr vs" and "vectors_fit n vs (tbl (snd s))"
    and "cache_fresh clk (fst s) (tbl (snd s))" and "tables_ok (tbl (snd s))"
    and "Upload D ctx ai_embed clk req s = (Done (Inr ids), s')"
  shows "stored req (map length (upload_inputs ctx req)) vs (tbl (snd s)) ids (tbl (snd s'))"
  using assms by (intro database.Upload_stores [OF database.intro])

lemma no_tables_ok [simp]: "tables_ok no_tables"
  by (simp add: tables_ok_def keys_ok_def indexes_ok_def references_ok_def same_category_def no_tables_def id_sets)

theorem upload_refines_tables_witness:
  "\<exists>s'. Upload memory_store 100 embed_all (\<lambda>_. 0) upload_request (NewCache, \<lparr>mem = no_tables, script = []\<rparr>) = (Done (Inr [4]), s')
    \<and> map document_ID (t_documents (mem (snd s'))) = [4]"
proof -
  obtain s' where run: "Upload memory_store 100 embed_all (\<lambda>_. 0) upload_request (NewCache, \<lparr>mem = no_tables, script = []\<rparr>) = (Done (Inr [4]), s')"
    using upload_run by blast
  have e: "embed_all (concat (upload_inputs 100 upload_request)) = Inr (map (\<lambda>_. one_vector) (concat (upload_inputs 100 upload_request)))"
    by (simp add: embed_all_def)
  let ?s = "(NewCache, \<lparr>mem = no_tables, script = []\<rparr>) :: memory server"
  have f: "vectors_fit 9 (map (\<lambda>_. one_vector) (concat (upload_inputs 100 upload_request))) (mem (snd ?s))"
    by (simp add: vectors_fit_def one_vector_def no_tables_def)
  have "stored upload_request (map length (upload_inputs 100 upload_request)) (map (\<lambda>_. one_vector) (concat (upload_inputs 100 upload_request)))
      (mem (snd ?s)) [4] (mem (snd s'))"
    by (rule upload_refines_tables [where s = ?s and tbl = mem, OF memory_lawful e f _ _ run]) simp_all
  then have "map document_ID (t_documents (mem (snd s'))) = [4]"
    unfolding stored_def by (elim exE conjE) (simp add: no_tables_def)
  then show ?thesis using run by (intro exI [of _ s'] conjI)
qed

text \<open>
  Whatever happens during an upload, the tables stay consistent: keys, unique indexes and references hold, and a
  document and the centroids of its embeddings belong to the same category, even when the category or its centroids come from
  a cache that is out of date.
\<close>

theorem upload_keeps_tables:
  assumes "lawful tbl D" and "server_ok tbl s"
  shows "server_ok tbl (snd (Upload D ctx ai_embed clk req s))"
  using keeps_server_ok [OF database.Upload_keeps [OF database.intro [OF assms(1)]]] assms(2) unfolding keeps_def by blast

theorem upload_keeps_tables_witness:
  "server_ok mem (snd (Upload memory_store 100 embed_all (\<lambda>_. 0) upload_request (NewCache, \<lparr>mem = no_tables, script = [None, None, None, Some [Canceled]]\<rparr>)))"
  by (rule upload_keeps_tables [OF memory_lawful]) (simp add: server_ok_def)

text \<open>
  C9: An upload that does not succeed stores no embedding, and no document or all of them: then the documents stay without
  embeddings, where no search finds them (the two writes are not one transaction).
\<close>

theorem upload_not_atomic:
  assumes "lawful tbl D" and "tables_ok (tbl (snd s))" and "Upload D ctx ai_embed clk req s = (r, s')" and "\<nexists>ids. r = Done (Inr ids)"
  shows "unfinished req (tbl (snd s)) (tbl (snd s'))"
  using assms by (intro database.Upload_unfinished [OF database.intro])


text \<open>An upload that is cancelled before the first centroid is saved, a search, and another upload.\<close>

definition canceled_upload :: "(error + id list) outcome \<times> memory server" where
  "canceled_upload = Upload memory_store 100 embed_all (\<lambda>_. 0) upload_request
     (NewCache, \<lparr>mem = no_tables, script = [None, None, None, None, None, Some [Canceled]]\<rparr>)"

definition search_after :: "(error + DocumentSearch list) outcome \<times> memory server" where
  "search_after = Search memory_store insertionSort insertionSort 5000 (\<lambda>_. Inr [one_vector]) (\<lambda>_. 0)
     \<lparr>q_Owner = [97], q_Category = [98], q_Text = [], q_Count = 1, q_Offset = 0, q_Centroids = 0\<rparr> (snd canceled_upload)"

lemma canceled_upload_run:
  "canceled_upload = (Done (Inl [Msg ''failed to create initial centroid'', Canceled]),
     (\<lparr>owner = save (ownerKey [97]) 0 \<lparr>owner_ID = 1, owner_Name = [97]\<rparr> Map.empty,
       category = save (categoryKey [98] 1) 0 \<lparr>category_ID = 2, category_Name = [98], category_OwnerID = 1\<rparr> Map.empty,
       centroids = Map.empty\<rparr>,
      \<lparr>mem = no_tables\<lparr>t_owners := [\<lparr>owner_ID = 1, owner_Name = [97]\<rparr>],
         t_categories := [\<lparr>category_ID = 2, category_Name = [98], category_OwnerID = 1\<rparr>], t_next := 3\<rparr>, script = []\<rparr>))"
  by (simp add: canceled_upload_def Upload_def upload_request_def upload_inputs_def embed_all_def on_ok_def fetch_owner_def FetchOwner_def
    fetch_category_def FetchCategory_def fetch_centroids_def FetchCentroids_def fetch_through_def lookup_def NewCache_def
    take_or_create_owner_def take_or_create_category_def find_or_create_centroid_def memory_store_def faulty_def no_tables_def take_first_def
    errors_Is_def errors_Join_def errors_New_def joined_def is_canceled_def fail_with_def id_sets Let_def del: One_nat_def)

lemma search_after_run:
  "search_after = (Done (Inr []), (fst (snd canceled_upload))\<lparr>centroids := save (centroidsKey 2) 0 [] Map.empty\<rparr>, snd (snd canceled_upload))"
proof -
  have "8 < length one_vector" by (simp add: one_vector_def)
  then obtain v where "NewVector one_vector = Done v" using vector_of_Done [of one_vector] by (auto simp: NewVector_def Let_def)
  then show ?thesis
    by (simp add: search_after_def Search_def canceled_upload_run sure_def on_found_def on_ok_def fetch_owner_def FetchOwner_def
      fetch_category_def FetchCategory_def fetch_centroids_def FetchCentroids_def fetch_through_def lookup_def save_def CACHE_DURATION_def second_def
      memory_plain no_tables_def succeed_def del: One_nat_def)
qed


text \<open>An upload into a category with a centroid, whose embeddings cannot be saved.\<close>

definition cut_upload :: "(error + id list) outcome \<times> memory server" where
  "cut_upload = Upload memory_store 100 embed_all (\<lambda>_. 0) upload_request
     (NewCache, \<lparr>mem = no_tables\<lparr>t_owners := [\<lparr>owner_ID = 1, owner_Name = [97]\<rparr>],
        t_categories := [\<lparr>category_ID = 2, category_Name = [98], category_OwnerID = 1\<rparr>],
        t_centroids := [\<lparr>centroid_ID = 3, centroid_Vector = one_vector, centroid_CategoryID = 2\<rparr>], t_next := 4\<rparr>,
      script = [None, None, None, None, Some [Canceled]]\<rparr>)"

lemma cut_upload_run:
  "fst cut_upload = Done (Inl [Canceled]) \<and> map document_ID (t_documents (mem (snd (snd cut_upload)))) = [4]
    \<and> t_embeddings (mem (snd (snd cut_upload))) = []"
proof -
  let ?doc = "\<lparr>u_Name = [], u_ExternalID = [], u_Document = Str [120]\<rparr>"
  let ?xs = "document_inputs 100 ?doc"
  let ?vs = "map (\<lambda>_. one_vector) ?xs"
  let ?c = "\<lparr>centroid_ID = 3, centroid_Vector = one_vector, centroid_CategoryID = 2\<rparr>"
  have near: "nearest_indexes [?c] ?vs = Done (replicate (length ?xs) 0)"
    using nearest_only [of ?vs ?c] by (simp add: one_vector_def)
  have rows: "upload_rows 2 [?c] [(?doc, length ?xs)] ?vs (replicate (length ?xs) 0)
      = Done [(new_document 2 ?doc, map (\<lambda>v. new_embedding v 3) ?vs)]"
    using embedding_rows_same [of ?c "[]" ?vs] by simp
  show ?thesis
    by (simp add: cut_upload_def Upload_def upload_request_def upload_inputs_def embed_all_def on_ok_def fetch_owner_def FetchOwner_def
      fetch_category_def FetchCategory_def fetch_centroids_def FetchCentroids_def fetch_through_def lookup_def NewCache_def
      take_or_create_owner_def take_or_create_category_def find_or_create_centroid_def memory_plain memory_fault no_tables_def take_first_def
      id_sets Let_def save_upload_def near rows sure_def on_db_def new_document_def fail_with_def joined_def is_canceled_def errors_Is_def
      del: One_nat_def upload_rows.simps)
qed

theorem upload_not_atomic_witness:
  "orphans upload_request (no_tables\<lparr>t_next := 4\<rparr>) (mem (snd (snd cut_upload)))"
proof -
  let ?s = "(NewCache, \<lparr>mem = no_tables\<lparr>t_owners := [\<lparr>owner_ID = 1, owner_Name = [97]\<rparr>],
        t_categories := [\<lparr>category_ID = 2, category_Name = [98], category_OwnerID = 1\<rparr>],
        t_centroids := [\<lparr>centroid_ID = 3, centroid_Vector = one_vector, centroid_CategoryID = 2\<rparr>], t_next := 4\<rparr>,
      script = [None, None, None, None, Some [Canceled]]\<rparr>) :: memory server"
  have run: "Upload memory_store 100 embed_all (\<lambda>_. 0) upload_request ?s = (fst cut_upload, snd cut_upload)" by (simp add: cut_upload_def)
  have no: "\<nexists>ids. fst cut_upload = Done (Inr ids)" using cut_upload_run by simp
  have ok: "tables_ok (mem (snd ?s))"
    by (simp add: tables_ok_def keys_ok_def indexes_ok_def references_ok_def same_category_def no_tables_def id_sets)
  have "unfinished upload_request (mem (snd ?s)) (mem (snd (snd cut_upload)))"
    by (rule upload_not_atomic [where tbl = mem and s = ?s, OF memory_lawful ok run no])
  moreover have "t_documents (mem (snd (snd cut_upload))) \<noteq> []" using cut_upload_run by (metis list.discI list.simps(8))
  ultimately have "orphans upload_request (mem (snd ?s)) (mem (snd (snd cut_upload)))" by (simp add: unfinished_def no_tables_def)
  then show ?thesis by (simp add: orphans_def stored_documents_def)
qed

end
