(* ===== verification/Delete.thy ===== *)
theory Delete
  imports Upload
begin

text \<open>
  \<open>server/delete.go\<close> and \<open>FetchCategoryNames\<close> in \<open>server/fetch.go\<close>: the handlers that remove owners, categories and documents, and the
  one that lists the categories of an owner.
\<close>

section \<open>The handlers\<close>

definition DeleteOwner :: "'d store \<Rightarrow> gotext \<Rightarrow> ('d server, unit) action" where
  "DeleteOwner D name =
     on_found ''delete owner exception'' () (on_db (delete_owner D name)) (\<lambda>_. succeed ())"

definition DeleteCategory :: "'d store \<Rightarrow> clock \<Rightarrow> gotext \<Rightarrow> gotext \<Rightarrow> ('d server, unit) action" where
  "DeleteCategory D clk ownerName categoryName =
     on_found ''get owner exception'' () (fetch_owner clk ownerName (take_owner D ownerName)) (\<lambda>ownerDetails.
     on_found ''delete category exception'' () (on_db (delete_category D (owner_ID ownerDetails) categoryName)) (\<lambda>_.
     succeed ()))"

text \<open>
  \<open>Take\<close> on a row whose identifier is set looks for this identifier too. The pair of owner and name is unique, so it finds the
  row of that pair or none.
\<close>

definition take_same_category :: "'d store \<Rightarrow> gotext \<Rightarrow> id \<Rightarrow> id \<Rightarrow> 'd \<Rightarrow> (error + Category) \<times> 'd" where
  "take_same_category D name ownerID categoryID d =
     (case take_category D name ownerID d of
        (Inr c, d') \<Rightarrow> (if categoryID = 0 \<or> category_ID c = categoryID then Inr c else Inl [RecordNotFound], d')
      | (Inl e, d') \<Rightarrow> (Inl e, d'))"

text \<open>The error of \<open>FetchCategory\<close> is overwritten by the query after it; the row is empty then.\<close>

definition DeleteDocument :: "'d store \<Rightarrow> clock \<Rightarrow> gotext \<Rightarrow> gotext \<Rightarrow> id \<Rightarrow> ('d server, unit) action" where
  "DeleteDocument D clk ownerName categoryName documentID =
     on_found ''get owner exception'' () (fetch_owner clk ownerName (take_owner D ownerName)) (\<lambda>ownerDetails s.
       let (r, s') = fetch_category clk categoryName (owner_ID ownerDetails)
                       (take_category D categoryName (owner_ID ownerDetails)) s;
           categoryID = (case r of Inr c \<Rightarrow> category_ID c | Inl e \<Rightarrow> 0)
       in on_found ''get category exception'' ()
            (on_db (take_same_category D categoryName (owner_ID ownerDetails) categoryID)) (\<lambda>categoryDetails.
          on_found ''delete document exception'' () (on_db (delete_document D (category_ID categoryDetails) documentID)) (\<lambda>_.
          succeed ())) s')"

definition FetchCategoryNames :: "'d store \<Rightarrow> gotext \<Rightarrow> ('d server, gotext list) action" where
  "FetchCategoryNames D name =
     on_found ''get owner exception'' [] (on_db (take_owner D name)) (\<lambda>ownerDetails.
     on_ok ''get categories exception'' (on_db (find_category_names D (owner_ID ownerDetails))) (\<lambda>categoryNames.
     succeed categoryNames))"

section \<open>What they keep\<close>

lemma keeps_fun: "(\<And>s. P s \<Longrightarrow> I (snd (a s))) \<Longrightarrow> keeps I P a"
  by (simp add: keeps_def)

lemma keepsD: "keeps I P a \<Longrightarrow> P s \<Longrightarrow> I (snd (a s))"
  by (simp add: keeps_def)

context database
begin

lemma take_same_advances: "db_advances tbl (take_same_category D n i c)"
  using take_advances(2) unfolding db_advances_def take_same_category_def
  by (auto split: prod.splits sum.splits) (metis snd_conv)+

lemma DeleteOwner_keeps: "keeps (since T0 tbl) (since T0 tbl) (DeleteOwner D n)"
  unfolding DeleteOwner_def
  by (intro keeps_on_found [OF gives_on_db] keeps_succeed delete_advances)

lemma DeleteCategory_keeps: "keeps (since T0 tbl) (since T0 tbl) (DeleteCategory D clk n m)"
  unfolding DeleteCategory_def
  by (intro keeps_on_found [OF gives_fetch_owner] keeps_on_found [OF gives_on_db] keeps_succeed delete_advances take_advances)

lemma FetchCategoryNames_keeps: "keeps (since T0 tbl) (since T0 tbl) (FetchCategoryNames D n)"
  unfolding FetchCategoryNames_def
  by (intro keeps_on_found [OF gives_on_db] keeps_on_ok [OF gives_on_db] keeps_succeed take_advances)

lemma DeleteDocument_keeps: "keeps (since T0 tbl) (since T0 tbl) (DeleteDocument D clk n m k)"
  unfolding DeleteDocument_def
proof (rule keeps_on_found [OF gives_fetch_owner [OF take_advances(1)]], rule keeps_fun)
  fix w :: Owner and s :: "'d server" assume s: "since T0 tbl s"
  obtain r s' where f: "fetch_category clk m (owner_ID w) (take_category D m (owner_ID w)) s = (r, s')" by (metis surj_pair)
  have "since T0 tbl s'"
    using gives_fetch_category [OF take_advances(2), of T0 clk m "owner_ID w" m "owner_ID w"] s f
    unfolding gives_def by (fastforce split: sum.splits)
  moreover have "keeps (since T0 tbl) (since T0 tbl)
      (on_found ''get category exception'' () (on_db (take_same_category D m (owner_ID w) i)) (\<lambda>c.
       on_found ''delete document exception'' () (on_db (delete_document D (category_ID c) k)) (\<lambda>_. succeed ())))" for i
    by (intro keeps_on_found [OF gives_on_db] keeps_succeed delete_advances take_same_advances)
  ultimately show "since T0 tbl (snd (let (r, s') = fetch_category clk m (owner_ID w) (take_category D m (owner_ID w)) s;
         i = case r of Inl e \<Rightarrow> 0 | Inr c \<Rightarrow> category_ID c
     in on_found ''get category exception'' () (on_db (take_same_category D m (owner_ID w) i)) (\<lambda>c.
        on_found ''delete document exception'' () (on_db (delete_document D (category_ID c) k)) (\<lambda>_. succeed ())) s'))"
    unfolding f Let_def prod.case by (rule keepsD [rotated])
qed

text \<open>A search reads only, but what it caches has to be right.\<close>

lemma Search_keeps: "keeps (since T0 tbl) (since T0 tbl) (Search D S1 S2 largest ai_embed clk req)"
proof -
  have docs: "db_advances tbl (find_documents D ids)" for ids
    using laws unfolding lawful_def lawful_reads_def by (meson reads_advances)
  have emb: "since T0 tbl (snd (on_db (find_embeddings D ids) s))" if "since T0 tbl s" for ids s
  proof -
    have "tbl (snd (find_embeddings D ids (snd s))) = tbl (snd s)" using laws unfolding lawful_def lawful_reads_def by blast
    then show ?thesis using that by (simp add: on_db_def since_defs case_prod_beta)
  qed
  have found: "keeps (since T0 tbl) (since T0 tbl) (search_centroids D S1 S2 largest target cnt offset k cs)" for target cnt offset k cs
    unfolding search_centroids_def
  proof (intro keeps_sure keeps_fun, assumption, assumption)
    fix ids s assume s: "since T0 tbl s"
    obtain bs err s' where f: "on_db (find_embeddings D ids) s = ((bs, err), s')" by (metis surj_pair)
    have "keeps (since T0 tbl) (since T0 tbl)
       (sure (rank_batches S2 target (uint64_add cnt offset) [] bs) (\<lambda>hits.
          case err of
            Some e \<Rightarrow> fail_with (joined ''database document embedding batch retrieval failed'' e)
          | None \<Rightarrow>
              on_ok ''database document retrieval failed'' (on_db (find_documents D (map fst hits))) (\<lambda>documents.
              sure (fill_page cnt offset 0 [] hits) (\<lambda>page.
              succeed (map (document_of documents) page)))))"
      by (intro keeps_sure) (auto split: option.splits intro!: keeps_fail keeps_on_ok [OF gives_on_db [OF docs]] keeps_sure keeps_succeed)
    then show "since T0 tbl (snd (let ((batches, err), s') = on_db (find_embeddings D ids) s
        in sure (rank_batches S2 target (uint64_add cnt offset) [] batches) (\<lambda>hits.
             case err of
               Some e \<Rightarrow> fail_with (joined ''database document embedding batch retrieval failed'' e)
             | None \<Rightarrow>
                 on_ok ''database document retrieval failed'' (on_db (find_documents D (map fst hits))) (\<lambda>documents.
                 sure (fill_page cnt offset 0 [] hits) (\<lambda>page.
                 succeed (map (document_of documents) page)))) s'))"
      using emb [OF s, of ids] unfolding f Let_def prod.case snd_conv by (rule keepsD)
  qed
  have cs: "gives (since T0 tbl) (since T0 tbl) (fetch_centroids clk i (find_centroids D i)) (\<lambda>_. since T0 tbl)" for i
    by (rule gives_then [OF gives_fetch_centroids [OF take_advances(3) find_centroids_known]]) simp
  show ?thesis
    unfolding Search_def
    by (auto split: sum.splits list.splits intro!: keeps_fail keeps_if keeps_sure found cs keeps_succeed
      keeps_on_found [OF gives_fetch_owner [OF take_advances(1)]] keeps_on_found [OF gives_fetch_category [OF take_advances(2)]]
      keeps_on_ok [OF cs])
qed

end

section \<open>What is deleted\<close>

lemma on_found_cases:
  assumes "on_found msg missing q k s = (r, s')"
  obtains e where "q s = (Inl e, s')" "errors_Is e RecordNotFound" "r = Done (Inr missing)"
    | e where "q s = (Inl e, s')" "r = Done (Inl (joined msg e))"
    | x s1 where "q s = (Inr x, s1)" "k x s1 = (r, s')"
  using assms by (auto simp: on_found_def fail_with_def succeed_def split: prod.splits sum.splits if_splits)

lemma drop_none [simp]: "drop_documents (\<lambda>_. False) T = T" "drop_categories (\<lambda>_. False) T = T"
  by (simp_all add: drop_defs)

lemma on_db_Inr: "on_db q s = (r, s') \<longleftrightarrow> (\<exists>d. q (snd s) = (r, d) \<and> s' = (fst s, d))"
  by (auto simp: on_db_def split: prod.splits)

text \<open>Owners and categories as the queries find them, on consistent tables.\<close>

lemma named_by:
  assumes "indexes_ok T" and "w \<in> set (t_owners T)" and "owner_Name w = n"
  shows "named T n m c \<longleftrightarrow> c \<in> set (t_categories T) \<and> category_Name c = m \<and> category_OwnerID c = owner_ID w"
proof -
  have "w' = w" if "w' \<in> set (t_owners T)" "owner_Name w' = n" for w'
    using assms that by (auto simp: indexes_ok_def distinct_map inj_on_def)
  then show ?thesis using assms(2,3) unfolding named_def by blast
qed

lemma not_named: "n \<notin> owner_Name ` set (t_owners T) \<Longrightarrow> \<not> named T n m c"
  by (auto simp: named_def)

lemma named_unique_by:
  "indexes_ok T \<Longrightarrow> c \<in> set (t_categories T) \<Longrightarrow> c' \<in> set (t_categories T) \<Longrightarrow> category_Name c = category_Name c' \<Longrightarrow>
    category_OwnerID c = category_OwnerID c' \<Longrightarrow> c = c'"
  unfolding indexes_ok_def distinct_map inj_on_def by blast

context database
begin

lemma owner_found:
  assumes "fetch_owner clk n (take_owner D n) s = (r, s1)" and "owners_fresh (clk 0) (fst s) (tbl (snd s))"
  shows "tbl (snd s1) = tbl (snd s) \<and> category (fst s1) = category (fst s)
    \<and> (case r of Inr w \<Rightarrow> w \<in> set (t_owners (tbl (snd s))) \<and> owner_Name w = n
       | Inl e \<Rightarrow> errors_Is e RecordNotFound \<longrightarrow> n \<notin> owner_Name ` set (t_owners (tbl (snd s))))"
  using fetch_owner_reads [where tbl = tbl and s = s, OF _ assms(2,1)] laws by (simp add: lawful_def)

lemma DeleteOwner_deletes:
  assumes "DeleteOwner D n s = (Done (Inr ()), s')"
  shows "tbl (snd s') = drop_owners (\<lambda>w. owner_Name w = n) (tbl (snd s))"
proof -
  have w: "writes tbl (delete_owner D n) (\<lambda>T _ T'. T' = drop_owners (\<lambda>w. owner_Name w = n) T)"
    using laws by (simp add: lawful_def lawful_writes_def)
  from assms show ?thesis
    unfolding DeleteOwner_def
    by (cases rule: on_found_cases) (auto simp: on_db_Inr succeed_def dest: writes_done [OF w] writes_failed [OF w])
qed

lemma DeleteCategory_deletes:
  assumes run: "DeleteCategory D clk n m s = (Done (Inr ()), s')" and fresh: "owners_fresh (clk 0) (fst s) (tbl (snd s))"
    and ok: "indexes_ok (tbl (snd s))"
  shows "tbl (snd s') = drop_categories (named (tbl (snd s)) n m) (tbl (snd s))"
  using run unfolding DeleteCategory_def
proof (cases rule: on_found_cases)
  case (1 e)
  then have "tbl (snd s') = tbl (snd s)" "named (tbl (snd s)) n m = (\<lambda>_. False)"
    using owner_found [OF 1(1) fresh] not_named by (auto simp: fun_eq_iff)
  then show ?thesis by simp
next
  case (3 w s1)
  have w: "w \<in> set (t_owners (tbl (snd s)))" "owner_Name w = n" "tbl (snd s1) = tbl (snd s)"
    using owner_found [OF 3(1) fresh] by auto
  have d: "writes tbl (delete_category D (owner_ID w) m)
      (\<lambda>T _ T'. T' = drop_categories (\<lambda>c. category_OwnerID c = owner_ID w \<and> category_Name c = m) T)"
    using laws by (simp add: lawful_def lawful_writes_def)
  have "tbl (snd s') = drop_categories (\<lambda>c. category_OwnerID c = owner_ID w \<and> category_Name c = m) (tbl (snd s))"
    using 3(2) w(3) by (cases rule: on_found_cases) (auto simp: on_db_Inr succeed_def dest: writes_done [OF d] writes_failed [OF d])
  moreover have "drop_categories (\<lambda>c. category_OwnerID c = owner_ID w \<and> category_Name c = m) (tbl (snd s))
      = drop_categories (named (tbl (snd s)) n m) (tbl (snd s))"
  proof -
    have "filter (\<lambda>c. category_OwnerID c = owner_ID w \<and> category_Name c = m) (t_categories (tbl (snd s)))
        = filter (named (tbl (snd s)) n m) (t_categories (tbl (snd s)))"
      using named_by [OF ok w(1,2)] by (auto intro: filter_cong)
    moreover have "filter (\<lambda>c. \<not> (category_OwnerID c = owner_ID w \<and> category_Name c = m)) (t_categories (tbl (snd s)))
        = filter (\<lambda>c. \<not> named (tbl (snd s)) n m c) (t_categories (tbl (snd s)))"
      using named_by [OF ok w(1,2)] by (auto intro: filter_cong)
    ultimately show ?thesis by (simp add: drop_categories_def Let_def)
  qed
  ultimately show ?thesis by simp
qed simp_all

text \<open>The category \<open>DeleteDocument\<close> works on.\<close>

lemma category_found:
  assumes "fetch_category clk m i (take_category D m i) s = (r, s1)" and "categories_fresh (clk 2) (fst s) (tbl (snd s))"
  shows "tbl (snd s1) = tbl (snd s)
    \<and> (case r of Inr c \<Rightarrow> c \<in> set (t_categories (tbl (snd s))) \<and> category_Name c = m \<and> category_OwnerID c = i | Inl e \<Rightarrow> True)"
  using fetch_category_reads [where tbl = tbl and s = s, OF _ assms(2,1)] laws by (auto simp: lawful_def split: sum.splits)

lemma same_category_found:
  assumes "take_same_category D m i k d = (r, d')" and "indexes_ok (tbl d)"
    and "k = 0 \<or> (\<exists>c \<in> set (t_categories (tbl d)). category_Name c = m \<and> category_OwnerID c = i \<and> category_ID c = k)"
  shows "tbl d' = tbl d \<and> (case r of
      Inr c \<Rightarrow> c \<in> set (t_categories (tbl d)) \<and> category_Name c = m \<and> category_OwnerID c = i
    | Inl e \<Rightarrow> errors_Is e RecordNotFound \<longrightarrow> (\<forall>c \<in> set (t_categories (tbl d)). \<not> (category_Name c = m \<and> category_OwnerID c = i)))"
proof -
  have rd: "reads tbl (take_category D m i) (\<lambda>T r. r \<in> set (t_categories T) \<and> category_Name r = m \<and> category_OwnerID r = i)
      (\<lambda>T. (i, m) \<notin> (\<lambda>c. (category_OwnerID c, category_Name c)) ` set (t_categories T))"
    using laws by (simp add: lawful_def lawful_reads_def)
  obtain r1 d1 where q: "take_category D m i d = (r1, d1)" by fastforce
  show ?thesis
  proof (cases r1)
    case (Inl e)
    then show ?thesis using assms(1) q reads_failed [OF rd, of d e d1] by (auto simp: take_same_category_def)
  next
    case (Inr c)
    then have c: "tbl d1 = tbl d" "c \<in> set (t_categories (tbl d))" "category_Name c = m" "category_OwnerID c = i"
      using q reads_found [OF rd, of d c d1] by auto
    then have "k = 0 \<or> category_ID c = k" using assms(2,3) named_unique_by by metis
    then show ?thesis using assms(1) q Inr c by (auto simp: take_same_category_def)
  qed
qed

lemma drop_documents_of:
  "(\<And>d. d \<in> set (t_documents T) \<Longrightarrow> P d = Q d) \<Longrightarrow> drop_documents P T = drop_documents Q T"
proof -
  assume "\<And>d. d \<in> set (t_documents T) \<Longrightarrow> P d = Q d"
  then have "filter P (t_documents T) = filter Q (t_documents T)" "filter (\<lambda>d. \<not> P d) (t_documents T) = filter (\<lambda>d. \<not> Q d) (t_documents T)"
    by (auto intro: filter_cong)
  then show ?thesis by (simp add: drop_documents_def Let_def)
qed

lemma DeleteDocument_deletes:
  assumes run: "DeleteDocument D clk n m k s = (Done (Inr ()), s')" and fresh: "cache_fresh clk (fst s) (tbl (snd s))"
    and ok: "indexes_ok (tbl (snd s))"
  shows "tbl (snd s') = drop_documents (\<lambda>d. document_ID d = k \<and> (\<exists>c. named (tbl (snd s)) n m c \<and> document_CategoryID d = category_ID c)) (tbl (snd s))"
    (is "_ = ?R")
proof -
  let ?T = "tbl (snd s)"
  have none: "?R = ?T" if "\<And>c. \<not> named ?T n m c" using that by simp
  from run show ?thesis
    unfolding DeleteDocument_def
  proof (cases rule: on_found_cases)
    case (1 e)
    then show ?thesis using owner_found [OF 1(1)] fresh not_named none by (auto simp: cache_fresh_def)
  next
    case (3 w s1)
    have w: "w \<in> set (t_owners ?T)" "owner_Name w = n" "tbl (snd s1) = ?T" "category (fst s1) = category (fst s)"
      using owner_found [OF 3(1)] fresh by (auto simp: cache_fresh_def)
    note named = named_by [OF ok w(1,2)]
    obtain r s2 where f: "fetch_category clk m (owner_ID w) (take_category D m (owner_ID w)) s1 = (r, s2)" by (metis surj_pair)
    define i where "i = (case r of Inr c \<Rightarrow> category_ID c | Inl e \<Rightarrow> 0)"
    have cf: "categories_fresh (clk 2) (fst s1) (tbl (snd s1))" using fresh w by (simp add: cache_fresh_def categories_fresh_def)
    note c = category_found [OF f cf]
    then have t2: "tbl (snd s2) = ?T" using w(3) by simp
    have i: "i = 0 \<or> (\<exists>c \<in> set (t_categories (tbl (snd s2))). category_Name c = m \<and> category_OwnerID c = owner_ID w \<and> category_ID c = i)"
      using c w(3) t2 by (cases r) (auto simp: i_def)
    have ok2: "indexes_ok (tbl (snd s2))" using ok t2 by simp
    from 3(2) have "on_found ''get category exception'' () (on_db (take_same_category D m (owner_ID w) i)) (\<lambda>c.
        on_found ''delete document exception'' () (on_db (delete_document D (category_ID c) k)) (\<lambda>_. succeed ())) s2 = (Done (Inr ()), s')"
      by (simp add: f i_def)
    then show ?thesis
    proof (cases rule: on_found_cases)
      case (1 e)
      then obtain d where d: "take_same_category D m (owner_ID w) i (snd s2) = (Inl e, d)" "s' = (fst s2, d)" by (auto simp: on_db_Inr)
      have "\<not> named ?T n m c" for c using same_category_found [OF d(1) ok2 i] 1(2) t2 by (auto simp: named)
      then show ?thesis using none same_category_found [OF d(1) ok2 i] t2 d(2) by simp
    next
      case (3 c s3)
      then obtain d where d: "take_same_category D m (owner_ID w) i (snd s2) = (Inr c, d)" "s3 = (fst s2, d)" by (auto simp: on_db_Inr)
      have c: "tbl (snd s3) = ?T" "named ?T n m c" using same_category_found [OF d(1) ok2 i] t2 d(2) by (auto simp: named)
      have "c' = c" if "named ?T n m c'" for c' using named_unique_by [OF ok] that c(2) by (auto simp: named)
      then have p: "(\<exists>c. named ?T n m c \<and> document_CategoryID d = category_ID c) \<longleftrightarrow> document_CategoryID d = category_ID c" for d
        using c(2) by blast
      have wd: "writes tbl (delete_document D (category_ID c) k)
          (\<lambda>T _ T'. T' = drop_documents (\<lambda>d. document_CategoryID d = category_ID c \<and> document_ID d = k) T)"
        using laws by (simp add: lawful_def lawful_writes_def)
      have "tbl (snd s') = drop_documents (\<lambda>d. document_CategoryID d = category_ID c \<and> document_ID d = k) ?T"
        using 3(2) c(1) by (cases rule: on_found_cases) (auto simp: on_db_Inr succeed_def dest: writes_done [OF wd] writes_failed [OF wd])
      also have "\<dots> = ?R" by (rule drop_documents_of) (auto simp: p)
      finally show ?thesis .
    qed simp
  qed simp
qed

end

section \<open>A category that is gone\<close>

text \<open>For five seconds the cache may hold a category that has been deleted.\<close>

definition holds_category :: "clock \<Rightarrow> Cache \<Rightarrow> gotext \<Rightarrow> gotext \<Rightarrow> Category \<Rightarrow> bool" where
  "holds_category clk c n m x \<longleftrightarrow> (\<exists>w. lookup (ownerKey n) (clk 0) (owner c) = Some w
     \<and> lookup (categoryKey m (owner_ID w)) (clk 2) (category c) = Some x)"

context database
begin

lemma centroids_keep_categories:
  assumes "fetch_centroids clk i (find_or_create_centroid D v i) s = (Inr cs, s')"
  shows "category_ids (tbl (snd s')) = category_ids (tbl (snd s))"
proof -
  obtain t' d' where f: "fetch_through (centroidsKey i) (clk 4) (clk 5) (find_or_create_centroid D v i) (centroids (fst s)) (snd s) = (Inr cs, t', d')"
      "s' = ((fst s)\<lparr>centroids := t'\<rparr>, d')"
    using assms by (auto simp: fetch_centroids_def FetchCentroids_def Let_def split: prod.splits)
  have "category_ids (tbl d') = category_ids (tbl (snd s))"
    using fetch_through_Inr [OF f(1)]
  proof
    assume "find_or_create_centroid D v i (snd s) = (Inr cs, d')"
    then obtain zs k where "tbl d' = (tbl (snd s))\<lparr>t_centroids := t_centroids (tbl (snd s)) @ zs, t_next := k\<rparr>"
      using find_or_create_centroid_stored by blast
    then show ?thesis by (simp add: category_ids_def)
  qed simp
  then show ?thesis using f(2) by simp
qed

lemma save_upload_category:
  assumes "save_upload D i cs docs vs s = (Done (Inr ids), s')" and "docs \<noteq> []"
  shows "i \<in> category_ids (tbl (snd s))"
proof -
  obtain idx rows where rows: "upload_rows i cs docs vs idx = Done rows"
    and r: "on_ok ''failed to save documents'' (on_db (create_documents D (map fst rows))) (\<lambda>documents.
     on_ok ''failed to save embeddings'' (on_db (create_embeddings D (with_documents documents (map snd rows)))) (\<lambda>_.
     succeed (map document_ID documents))) s = (Done (Inr ids), s')"
    using assms(1) [unfolded save_upload_def, THEN sure_Inr] by (elim exE conjE) (drule sure_Inr, elim exE conjE, rule that)
  obtain ds s1 where "on_db (create_documents D (map fst rows)) s = (Inr ds, s1)" using on_ok_Inr [OF r] by blast
  then obtain d where q: "create_documents D (map fst rows) (snd s) = (Inr ds, d)" by (auto simp: on_db_Inr)
  have w: "writes tbl (create_documents D (map fst rows)) (documents_created (map fst rows))"
    using laws by (simp add: lawful_def lawful_writes_def)
  have c: "document_CategoryID ` set (map fst rows) \<subseteq> category_ids (tbl (snd s))" using writes_done [OF w q] by (simp add: documents_created_def)
  obtain x docs' where "docs = x # docs'" using assms(2) by (cases docs) auto
  then have "new_document i (fst x) \<in> set (map fst rows)" using upload_rows_documents [OF rows] by simp
  then have "document_CategoryID (new_document i (fst x)) \<in> category_ids (tbl (snd s))" using c by blast
  then show ?thesis by (simp add: new_document_def)
qed

lemma Upload_stale:
  assumes "holds_category clk (fst s) (u_Owner req) (u_Category req) c" and "category_ID c \<notin> category_ids (tbl (snd s))"
  shows "fst (Upload D ctx ai_embed clk req s) \<noteq> Done (Inr ids)"
proof
  assume "fst (Upload D ctx ai_embed clk req s) = Done (Inr ids)"
  then obtain s' where run: "Upload D ctx ai_embed clk req s = (Done (Inr ids), s')" by (metis surj_pair fst_conv)
  obtain w where h: "lookup (ownerKey (u_Owner req)) (clk 0) (owner (fst s)) = Some w"
      "lookup (categoryKey (u_Category req) (owner_ID w)) (clk 2) (category (fst s)) = Some c"
    using assms(1) by (auto simp: holds_category_def)
  let ?in = "upload_inputs ctx req"
  have ne: "u_Documents req \<noteq> []" using run by (auto simp: Upload_def fail_with_def)
  moreover obtain vs where vs: "ai_embed (concat ?in) = Inr vs" "length vs = length (concat ?in)"
    using run by (auto simp: Upload_def fail_with_def split: if_splits sum.splits)
  ultimately have "on_ok ''failed to get centroids''
      (fetch_centroids clk (category_ID c) (find_or_create_centroid D (hd vs) (category_ID c))) (\<lambda>centroids.
      save_upload D (category_ID c) centroids (zip (u_Documents req) (map length ?in)) vs) s = (Done (Inr ids), s')"
    using run h by (simp add: Upload_def on_ok_def fetch_owner_def FetchOwner_def fetch_category_def FetchCategory_def fetch_through_def)
  then obtain cs s1 where c: "fetch_centroids clk (category_ID c) (find_or_create_centroid D (hd vs) (category_ID c)) s = (Inr cs, s1)"
      "save_upload D (category_ID c) cs (zip (u_Documents req) (map length ?in)) vs s1 = (Done (Inr ids), s')"
    by (blast dest: on_ok_Inr)
  have "zip (u_Documents req) (map length ?in) \<noteq> []" using ne by (simp add: upload_inputs_def zip_eq_Nil_iff)
  then have "category_ID c \<in> category_ids (tbl (snd s1))" using save_upload_category [OF c(2)] by blast
  then show False using centroids_keep_categories [OF c(1)] assms(2) by simp
qed

text \<open>\<open>DeleteDocument\<close> looks for the identifier in the cache as well, finds nothing, and reports success.\<close>

lemma DeleteDocument_stale:
  assumes "holds_category clk (fst s) n m c" and "category_ID c \<noteq> 0" and "category_ID c \<notin> category_ids (tbl (snd s))"
  shows "tbl (snd (snd (DeleteDocument D clk n m k s))) = tbl (snd s)"
proof -
  obtain w where h: "lookup (ownerKey n) (clk 0) (owner (fst s)) = Some w"
      "lookup (categoryKey m (owner_ID w)) (clk 2) (category (fst s)) = Some c"
    using assms(1) by (auto simp: holds_category_def)
  obtain r s' where run: "DeleteDocument D clk n m k s = (r, s')" by (metis surj_pair)
  then have "on_found ''get category exception'' () (on_db (take_same_category D m (owner_ID w) (category_ID c))) (\<lambda>c.
      on_found ''delete document exception'' () (on_db (delete_document D (category_ID c) k)) (\<lambda>_. succeed ())) s = (r, s')"
    using h by (simp add: DeleteDocument_def on_found_def fetch_owner_def FetchOwner_def fetch_category_def FetchCategory_def fetch_through_def)
  moreover have "\<exists>e d. take_same_category D m (owner_ID w) (category_ID c) (snd s) = (Inl e, d) \<and> tbl d = tbl (snd s)"
  proof -
    have rd: "reads tbl (take_category D m (owner_ID w)) (\<lambda>T r. r \<in> set (t_categories T) \<and> category_Name r = m \<and> category_OwnerID r = owner_ID w)
        (\<lambda>T. (owner_ID w, m) \<notin> (\<lambda>c. (category_OwnerID c, category_Name c)) ` set (t_categories T))"
      using laws by (simp add: lawful_def lawful_reads_def)
    obtain r1 d1 where q: "take_category D m (owner_ID w) (snd s) = (r1, d1)" by fastforce
    show ?thesis
    proof (cases r1)
      case (Inl e)
      then show ?thesis using q reads_failed [OF rd, of "snd s" e d1] by (simp add: take_same_category_def)
    next
      case (Inr x)
      then have x: "tbl d1 = tbl (snd s)" "x \<in> set (t_categories (tbl (snd s)))" using q reads_found [OF rd, of "snd s" x d1] by auto
      then have "category_ID x \<noteq> category_ID c" using assms(3) unfolding category_ids_def by (metis imageI)
      then show ?thesis using q Inr x(1) assms(2) by (simp add: take_same_category_def)
    qed
  qed
  ultimately have "tbl (snd s') = tbl (snd s)"
    by (auto simp: on_found_def on_db_def fail_with_def succeed_def split: if_splits)
  then show ?thesis by (simp add: run)
qed

end

section \<open>Properties\<close>

text \<open>
  C8: With a fresh cache a successful deletion removes exactly what it is asked to, for every lawful database: the document of that number if it
  is in the category of that name of the owner of that name, with its embeddings, and nothing otherwise.
\<close>

theorem delete_document_refines:
  assumes "lawful tbl D" and "cache_fresh clk (fst s) (tbl (snd s))" and "tables_ok (tbl (snd s))"
    and "DeleteDocument D clk n m k s = (Done (Inr ()), s')"
  shows "tbl (snd s') = drop_documents (\<lambda>d. document_ID d = k \<and> (\<exists>c. named (tbl (snd s)) n m c \<and> document_CategoryID d = category_ID c)) (tbl (snd s))"
  using assms by (intro database.DeleteDocument_deletes [OF database.intro]) (simp_all add: tables_ok_def)

definition stored_server :: "memory server" where
  "stored_server = (NewCache, \<lparr>mem = search_tables, script = []\<rparr>)"

lemma stored_server_ok: "cache_fresh clk (fst stored_server) (mem (snd stored_server)) \<and> tables_ok (mem (snd stored_server))"
  using search_tables_ok by (simp add: stored_server_def)

lemmas delete_evaluation = DeleteDocument_def DeleteCategory_def DeleteOwner_def take_same_category_def on_found_def on_db_def fetch_owner_def FetchOwner_def
  fetch_category_def FetchCategory_def fetch_through_def lookup_def NewCache_def stored_server_def memory_store_def faulty_def take_first_def
  succeed_def search_tables_def

theorem delete_document_refines_witness:
  "\<exists>s'. DeleteDocument memory_store (\<lambda>_. 0) [97] [98] 1 stored_server = (Done (Inr ()), s')
    \<and> mem (snd s') = drop_documents (\<lambda>d. document_ID d = 1 \<and> (\<exists>c. named search_tables [97] [98] c \<and> document_CategoryID d = category_ID c)) search_tables"
proof -
  obtain s' where run: "DeleteDocument memory_store (\<lambda>_. 0) [97] [98] 1 stored_server = (Done (Inr ()), s')"
    by (simp add: delete_evaluation)
  have "mem (snd s') = drop_documents (\<lambda>d. document_ID d = 1 \<and> (\<exists>c. named (mem (snd stored_server)) [97] [98] c \<and> document_CategoryID d = category_ID c))
      (mem (snd stored_server))"
    using stored_server_ok run by (intro delete_document_refines [where tbl = mem, OF memory_lawful]) blast+
  then show ?thesis using run by (simp add: stored_server_def)
qed

text \<open>
  With a fresh cache a successful deletion of a category removes the category of that name of the owner of that name, with its
  centroids, documents and embeddings, and a successful deletion of an owner the owner of that name with all its categories.
\<close>

theorem delete_category_refines:
  assumes "lawful tbl D" and "cache_fresh clk (fst s) (tbl (snd s))" and "tables_ok (tbl (snd s))"
    and "DeleteCategory D clk n m s = (Done (Inr ()), s')" and "DeleteOwner D n' t = (Done (Inr ()), t')"
  shows "tbl (snd s') = drop_categories (named (tbl (snd s)) n m) (tbl (snd s))
    \<and> tbl (snd t') = drop_owners (\<lambda>w. owner_Name w = n') (tbl (snd t))"
  using database.DeleteCategory_deletes [OF database.intro [OF assms(1)] assms(4)]
    database.DeleteOwner_deletes [OF database.intro [OF assms(1)] assms(5)] assms(2,3)
  by (simp add: tables_ok_def cache_fresh_def)

theorem delete_category_refines_witness:
  "\<exists>s' t'. DeleteCategory memory_store (\<lambda>_. 0) [97] [98] stored_server = (Done (Inr ()), s')
    \<and> DeleteOwner memory_store [97] stored_server = (Done (Inr ()), t')
    \<and> mem (snd s') = drop_categories (named search_tables [97] [98]) search_tables
    \<and> mem (snd t') = drop_owners (\<lambda>w. owner_Name w = [97]) search_tables"
proof -
  obtain s' where run: "DeleteCategory memory_store (\<lambda>_. 0) [97] [98] stored_server = (Done (Inr ()), s')"
    by (simp add: delete_evaluation)
  obtain t' where run': "DeleteOwner memory_store [97] stored_server = (Done (Inr ()), t')"
    by (simp add: delete_evaluation)
  have "mem (snd s') = drop_categories (named (mem (snd stored_server)) [97] [98]) (mem (snd stored_server))
      \<and> mem (snd t') = drop_owners (\<lambda>w. owner_Name w = [97]) (mem (snd stored_server))"
    using stored_server_ok run run' by (intro delete_category_refines [where tbl = mem, OF memory_lawful]) blast+
  then show ?thesis using run run' by (simp add: stored_server_def)
qed

text \<open>
  C21: On a lawful database, which enforces foreign keys as PostgreSQL does: while the cache holds a category (with a number other than zero) that is gone from the tables, no upload
  to it succeeds, and no document is deleted from it, not even from a new category of the same name. (SQLite opened without its
  \<open>foreign_keys\<close> pragma, as the sample configuration has it, is not lawful: it would store the documents under the number of the category that is gone.)
\<close>

theorem stale_category_blocks:
  assumes "lawful tbl D" and "holds_category clk (fst s) n m c" and "category_ID c \<notin> category_ids (tbl (snd s))" and "category_ID c \<noteq> 0"
    and "u_Owner req = n" and "u_Category req = m"
  shows "fst (Upload D ctx ai_embed clk req s) \<noteq> Done (Inr ids) \<and> tbl (snd (snd (DeleteDocument D clk n m k s))) = tbl (snd s)"
  using database.Upload_stale [OF database.intro [OF assms(1)]] database.DeleteDocument_stale [OF database.intro [OF assms(1)]] assms(2-6)
  by blast

text \<open>An owner and a category are created, kept in the cache, and the category is deleted.\<close>

definition after_delete :: "(error + unit) outcome \<times> memory server" where
  "after_delete = DeleteCategory memory_store (\<lambda>_. 0) [97] [98] (snd canceled_upload)"

lemma after_delete_run:
  "after_delete = (Done (Inr ()), fst (snd canceled_upload), (snd (snd canceled_upload))\<lparr>mem := (mem (snd (snd canceled_upload)))\<lparr>t_categories := []\<rparr>\<rparr>)"
  by (simp add: after_delete_def DeleteCategory_def canceled_upload_run on_found_def fetch_owner_def FetchOwner_def fetch_through_def lookup_def
    save_def CACHE_DURATION_def second_def on_db_def memory_store_def faulty_def drop_defs no_tables_def succeed_def del: One_nat_def)

text \<open>Another server has meanwhile created a category of that name and stored a document in it.\<close>

definition renewed_tables :: tables where
  "renewed_tables = \<lparr>t_owners = [\<lparr>owner_ID = 1, owner_Name = [97]\<rparr>],
     t_categories = [\<lparr>category_ID = 5, category_Name = [98], category_OwnerID = 1\<rparr>],
     t_centroids = [\<lparr>centroid_ID = 6, centroid_Vector = one_vector, centroid_CategoryID = 5\<rparr>],
     t_documents = [\<lparr>document_ID = 7, document_Name = [], document_ExternalID = [], document_Document = None, document_CategoryID = 5\<rparr>],
     t_embeddings = [\<lparr>embedding_ID = 8, embedding_Vector = one_vector, embedding_DocumentID = 7, embedding_CentroidID = 6\<rparr>], t_next = 9\<rparr>"

abbreviation renewed_server :: "memory server" where
  "renewed_server \<equiv> (fst (snd after_delete), \<lparr>mem = renewed_tables, script = []\<rparr>)"

theorem stale_category_blocks_witness:
  "fst after_delete = Done (Inr ()) \<and> tables_ok renewed_tables
    \<and> fst (Upload memory_store 100 embed_all (\<lambda>_. 0) upload_request renewed_server) \<noteq> Done (Inr [9])
    \<and> t_documents (mem (snd (snd (DeleteDocument memory_store (\<lambda>_. 0) [97] [98] 7 renewed_server)))) = t_documents renewed_tables"
proof -
  let ?c = "\<lparr>category_ID = 2, category_Name = [98], category_OwnerID = 1\<rparr>"
  have h: "holds_category (\<lambda>_. 0) (fst renewed_server) [97] [98] ?c"
    by (simp add: holds_category_def after_delete_run canceled_upload_run lookup_def save_def CACHE_DURATION_def second_def del: One_nat_def)
  have g: "category_ID ?c \<notin> category_ids (mem (snd renewed_server))" "category_ID ?c \<noteq> 0"
    by (simp_all add: category_ids_def renewed_tables_def)
  have u: "u_Owner upload_request = [97]" "u_Category upload_request = [98]" by (simp_all add: upload_request_def)
  have "fst after_delete = Done (Inr ())" by (simp add: after_delete_run)
  moreover have "tables_ok renewed_tables"
    by (simp add: renewed_tables_def tables_ok_def keys_ok_def indexes_ok_def references_ok_def same_category_def id_sets)
  ultimately show ?thesis
    using stale_category_blocks [where tbl = mem and s = renewed_server, OF memory_lawful h g u] by simp
qed

end
