(* ===== verification/Chat.thy ===== *)
theory Chat
  imports Delete
begin

text \<open>
  \<open>server/chat.go\<close>: the conversation sent to the language model, and the relay of its answer. The answer is a stream of code points that
  ends or breaks; the package \<open>ai\<close> that opens it is an argument.
\<close>

section \<open>The conversation\<close>

record ChatRequest =
  c_Prefix :: gotext
  c_History :: "gotext list"
  c_Text :: gotext
  c_DocumentIDs :: "id list"
  c_Documents :: "anyval list"

datatype role = User | Assistant

record ChatMessage =
  m_Role :: role
  m_Content :: gotext

fun history_messages :: "nat \<Rightarrow> gotext list \<Rightarrow> ChatMessage list" where
  "history_messages idx [] = []"
| "history_messages idx (content # contents) =
     \<lparr>m_Role = (if idx mod 2 = 0 then User else Assistant), m_Content = content\<rparr> # history_messages (Suc idx) contents"

definition context_header :: "nat \<Rightarrow> gotext" where
  "context_header n = runes ''I have '' @ runes (show_nat n)
     @ runes '' text document that I'' @ [39] @ runes ''d like to use as context for my question. Here'' @ [39] @ runes ''s the relevant part''
     @ (if 1 < n then runes ''s'' else []) @ runes '':'' @ [newline, newline]"

definition document_context :: "anyval list \<Rightarrow> gotext" where
  "document_context docs =
     (if docs = [] then []
      else context_header (length docs)
        @ concat (map (\<lambda>doc. [34, 34, 34] @ Flatten doc @ [34, 34, 34] @ [newline]) docs) @ [newline])"

definition chat_query :: "gotext \<Rightarrow> gotext \<Rightarrow> anyval list \<Rightarrow> gotext" where
  "chat_query pre question docs =
     document_context docs @ runes ''My question is: '' @ (if pre \<noteq> [] then pre @ runes ''. '' @ question else question)"

definition chat_messages :: "ChatRequest \<Rightarrow> anyval list \<Rightarrow> ChatMessage list" where
  "chat_messages req docs =
     history_messages 0 (c_History req) @ [\<lparr>m_Role = User, m_Content = chat_query (c_Prefix req) (c_Text req) docs\<rparr>]"

definition document_value :: "Document \<Rightarrow> anyval" where
  "document_value d = (case document_Document d of Some v \<Rightarrow> v | None \<Rightarrow> Nil_any)"

text \<open>What \<open>Chat\<close> asks the model; the stream of its answer is opened by \<open>ai\<close>.\<close>

definition Chat :: "'d store \<Rightarrow> (ChatMessage list \<Rightarrow> 'stream) \<Rightarrow> ChatRequest \<Rightarrow> ('d server, 'stream) action" where
  "Chat D ai_chat req =
     (if c_DocumentIDs req \<noteq> []
      then on_ok ''retrieving documents failed'' (on_db (find_documents D (c_DocumentIDs req))) (\<lambda>documents.
             succeed (ai_chat (chat_messages req (c_Documents req @ map document_value documents))))
      else succeed (ai_chat (chat_messages req (c_Documents req))))"

section \<open>The relay\<close>

record response =
  r_status :: nat
  r_allow :: "string option"
  r_body :: gotext

text \<open>
  The loop over the stream. Once a code point is written the status is sent, so the error that
  \<open>http.Error\<close> reports for a stream that breaks later only adds to the text.
\<close>

fun relay :: "gotext \<Rightarrow> gotext \<Rightarrow> error option \<Rightarrow> response" where
  "relay written (char # chars) err = relay (written @ [char]) chars err"
| "relay written [] None = \<lparr>r_status = 200, r_allow = None, r_body = written\<rparr>"
| "relay written [] (Some e) =
     \<lparr>r_status = (if written = [] then 500 else 200), r_allow = None,
      r_body = written @ runes ''Error reading stream'' @ [newline]\<rparr>"

lemma relay_eq:
  "relay written cs err =
     (case err of None \<Rightarrow> \<lparr>r_status = 200, r_allow = None, r_body = written @ cs\<rparr>
      | Some e \<Rightarrow> \<lparr>r_status = (if written @ cs = [] then 500 else 200), r_allow = None,
          r_body = written @ cs @ runes ''Error reading stream'' @ [newline]\<rparr>)"
  by (induction written cs err rule: relay.induct) (auto split: option.splits)

section \<open>Roles and context\<close>

lemma history_roles:
  "length (history_messages k h) = length h
   \<and> (\<forall>i < length h. history_messages k h ! i = \<lparr>m_Role = (if even (k + i) then User else Assistant), m_Content = h ! i\<rparr>)"
proof (induction h arbitrary: k)
  case (Cons c cs)
  have "history_messages k (c # cs) ! i = \<lparr>m_Role = (if even (k + i) then User else Assistant), m_Content = (c # cs) ! i\<rparr>"
    if "i < length (c # cs)" for i
    using that Cons.IH [of "Suc k"] by (cases i) (auto simp: even_iff_mod_2_eq_zero)
  then show ?case using Cons.IH [of "Suc k"] by simp
qed simp

lemma sublist_concat: "x \<in> set xss \<Longrightarrow> sublist x (concat xss)"
  by (metis concat.simps(2) concat_append split_list sublist_appendI)

lemma context_holds: "doc \<in> set docs \<Longrightarrow> sublist ([34, 34, 34] @ Flatten doc @ [34, 34, 34]) (document_context docs)"
proof -
  assume doc: "doc \<in> set docs"
  let ?f = "\<lambda>doc. [34, 34, 34] @ Flatten doc @ [34, 34, 34] @ [newline]"
  let ?q = "[34, 34, 34] @ Flatten doc @ [34, 34, 34]"
  have "sublist ?q (?f doc)" unfolding sublist_def by (rule exI [of _ "[]"], rule exI [of _ "[newline]"]) simp
  moreover have "sublist (?f doc) (concat (map ?f docs))" using doc by (intro sublist_concat) auto
  moreover have "sublist (concat (map ?f docs)) (document_context docs)"
    using doc by (auto simp: document_context_def)
  ultimately show ?thesis by (meson sublist_order.order_trans)
qed

section \<open>Properties\<close>

definition quoted :: "anyval \<Rightarrow> gotext" where
  "quoted doc = [34, 34, 34] @ Flatten doc @ [34, 34, 34]"

context database
begin

lemma find_documents_read:
  assumes "find_documents D ids d = (Inr r, d')"
  shows "tbl d' = tbl d \<and> set r \<subseteq> set (t_documents (tbl d)) \<and> {x \<in> set (t_documents (tbl d)). document_ID x \<in> set ids} \<subseteq> set r"
proof -
  have "reads tbl (find_documents D ids)
      (\<lambda>T r. set r \<subseteq> set (t_documents T) \<and> {d \<in> set (t_documents T). document_ID d \<in> set ids} \<subseteq> set r) (\<lambda>_. False)"
    using laws unfolding lawful_def lawful_reads_def by blast
  from reads_found [OF this assms] show ?thesis by simp
qed

lemma Chat_keeps: "keeps (since T0 tbl) (since T0 tbl) (Chat D ai_chat req)"
proof -
  have "db_advances tbl (find_documents D ids)" for ids
    using laws unfolding lawful_def lawful_reads_def by (meson reads_advances)
  then show ?thesis unfolding Chat_def by (auto intro!: keeps_if keeps_on_ok [OF gives_on_db] keeps_succeed)
qed

lemma Chat_asks:
  assumes "Chat D (\<lambda>m. m) req s = (Done (Inr m), s')"
  shows "\<exists>ds. set ds \<subseteq> set (t_documents (tbl (snd s)))
    \<and> {x \<in> set (t_documents (tbl (snd s))). document_ID x \<in> set (c_DocumentIDs req)} \<subseteq> set ds
    \<and> m = chat_messages req (c_Documents req @ map document_value ds)"
proof (cases "c_DocumentIDs req = []")
  case True
  then have "m = chat_messages req (c_Documents req @ map document_value [])" using assms by (auto simp: Chat_def succeed_def)
  then show ?thesis using True by (intro exI [of _ "[]"]) simp
next
  case False
  then have "on_ok ''retrieving documents failed'' (on_db (find_documents D (c_DocumentIDs req))) (\<lambda>documents.
      succeed (chat_messages req (c_Documents req @ map document_value documents))) s = (Done (Inr m), s')"
    using assms by (simp add: Chat_def)
  then obtain ds s1 where d: "on_db (find_documents D (c_DocumentIDs req)) s = (Inr ds, s1)"
      "m = chat_messages req (c_Documents req @ map document_value ds)"
    by (auto dest!: on_ok_Inr simp: succeed_def)
  then obtain d1 where "find_documents D (c_DocumentIDs req) (snd s) = (Inr ds, d1)" by (auto simp: on_db_Inr)
  then show ?thesis using d(2) find_documents_read by blast
qed

end



end
