(* ===== verification/Http.thy ===== *)
theory Http
  imports Chat
begin

text \<open>
  The seven HTTP handlers of the package \<open>server\<close>. They share their shape: the method, the body, its JSON, the operation, the
  JSON of the answer, each with the status and text of its failure. Reading a body, JSON and the routing are
  library code: a request holds what reading its body gives, and \<open>json.Unmarshal\<close> and \<open>json.Marshal\<close> are arguments. A panic reaches the
  HTTP server, which drops the connection.
\<close>

section \<open>The shared shape\<close>

record 'b request =
  rq_Method :: string
  rq_Body :: "error + 'b"

definition json_error :: "string \<Rightarrow> gotext" where
  "json_error msg = runes ''{'' @ [34] @ runes ''error'' @ [34, 58, 34] @ runes msg @ [34] @ runes ''}''"

definition status_response :: "nat \<Rightarrow> gotext \<Rightarrow> response" where
  "status_response status text_body = \<lparr>r_status = status, r_allow = None, r_body = text_body\<rparr>"

definition method_denied :: "gotext \<Rightarrow> response" where
  "method_denied text_body = \<lparr>r_status = 405, r_allow = Some ''POST'', r_body = text_body\<rparr>"

text \<open>The status of an operation that fails: 499 when the client went away, 500 otherwise.\<close>

definition failure_response :: "string \<Rightarrow> string \<Rightarrow> error \<Rightarrow> response" where
  "failure_response canceled failed e =
     (if is_canceled e then status_response 499 (json_error canceled) else status_response 500 (json_error failed))"

definition serve ::
    "string list \<Rightarrow> ('b \<Rightarrow> error + 'q) \<Rightarrow> ('q \<Rightarrow> ('s, 'a) action) \<Rightarrow> ('a \<Rightarrow> error + gotext) \<Rightarrow> string \<Rightarrow> string \<Rightarrow> string \<Rightarrow>
      'b request \<Rightarrow> 's \<Rightarrow> response outcome \<times> 's" where
  "serve methods unmarshal handler marshal canceled failed unencoded rq s =
     (if rq_Method rq \<notin> set methods then (Done (method_denied (json_error ''Invalid request method'')), s)
      else case rq_Body rq of
        Inl e \<Rightarrow> (Done (status_response 400 (json_error ''Invalid request body'')), s)
      | Inr b \<Rightarrow>
          (case unmarshal b of
             Inl e \<Rightarrow> (Done (status_response 400 (json_error ''Invalid request'')), s)
           | Inr q \<Rightarrow>
               (case handler q s of
                  (Panic p, s') \<Rightarrow> (Panic p, s')
                | (Done (Inl e), s') \<Rightarrow> (Done (failure_response canceled failed e), s')
                | (Done (Inr a), s') \<Rightarrow>
                    (case marshal a of
                       Inl e \<Rightarrow> (Done (status_response 500 (json_error unencoded)), s')
                     | Inr t \<Rightarrow> (Done (status_response 200 t), s')))))"

section \<open>The handlers\<close>

definition UploadHttp where
  "UploadHttp D ctx ai_embed clk unmarshal marshal =
     serve [''POST''] unmarshal (Upload D ctx ai_embed clk) marshal
       ''Client canceled upload request'' ''Upload request failed'' ''Creating response failed''"

text \<open>JSON has no text for NaN and the infinities.\<close>

definition marshal_page :: "(DocumentSearch list \<Rightarrow> gotext) \<Rightarrow> DocumentSearch list \<Rightarrow> error + gotext" where
  "marshal_page encode page =
     (if \<exists>h \<in> set page. hit_Similarity h \<in> {NaN, PInf, NInf} then Inl (errors_New ''json: unsupported value'') else Inr (encode page))"

definition SearchHttp where
  "SearchHttp D S1 S2 largest ai_embed clk unmarshal encode =
     serve [''POST'', ''GET''] unmarshal (Search D S1 S2 largest ai_embed clk) (marshal_page encode)
       ''Client canceled search request'' ''Search request failed'' ''Response failed''"

definition empty_object :: "unit \<Rightarrow> error + gotext" where
  "empty_object _ = Inr (runes ''{}'')"

definition DeleteOwnerHttp where
  "DeleteOwnerHttp D unmarshal =
     serve [''POST'', ''DELETE''] unmarshal (DeleteOwner D) empty_object
       ''Client canceled delete request'' ''Delete request failed'' []"

definition DeleteCategoryHttp where
  "DeleteCategoryHttp D clk unmarshal =
     serve [''POST'', ''DELETE''] unmarshal (\<lambda>(ownerName, categoryName). DeleteCategory D clk ownerName categoryName) empty_object
       ''Client canceled delete request'' ''Delete request failed'' []"

definition DeleteDocumentHttp where
  "DeleteDocumentHttp D clk unmarshal =
     serve [''POST'', ''DELETE''] unmarshal
       (\<lambda>(ownerName, categoryName, documentID). DeleteDocument D clk ownerName categoryName documentID) empty_object
       ''Client canceled delete request'' ''Delete request failed'' []"

definition FetchCategoryNamesHttp where
  "FetchCategoryNamesHttp D unmarshal marshal =
     serve [''GET'', ''POST''] unmarshal (FetchCategoryNames D) marshal
       ''Client canceled delete request'' ''Delete request failed'' ''Marshal response exception''"

text \<open>
  The chat handler answers in plain text, and every error of \<open>Chat\<close> with 500. The stream the model answers with is what it
  writes and how it ends; it is \<open>nil\<close> when no model is configured, and \<open>defer resStream.Close()\<close> panics on it.
\<close>

definition ChatHttp ::
    "'d store \<Rightarrow> (ChatMessage list \<Rightarrow> (gotext \<times> error option) option) \<Rightarrow> ('b \<Rightarrow> error + ChatRequest) \<Rightarrow> 'b request \<Rightarrow> 'd server \<Rightarrow>
      response outcome \<times> 'd server" where
  "ChatHttp D ai_chat unmarshal rq s =
     (if rq_Method rq \<notin> {''POST'', ''GET''} then (Done (method_denied (runes ''Invalid request method'')), s)
      else case rq_Body rq of
        Inl e \<Rightarrow> (Done (status_response 400 (runes ''Invalid request body'')), s)
      | Inr b \<Rightarrow>
          (case unmarshal b of
             Inl e \<Rightarrow> (Done (status_response 400 (runes ''Invalid request'')), s)
           | Inr q \<Rightarrow>
               (case Chat D ai_chat q s of
                  (Panic p, s') \<Rightarrow> (Panic p, s')
                | (Done (Inl e), s') \<Rightarrow> (Done (status_response 500 (runes ''Failed to initialize chat'' @ [newline])), s')
                | (Done (Inr None), s') \<Rightarrow> (Panic ''nil pointer dereference'', s')
                | (Done (Inr (Some (chars, err))), s') \<Rightarrow> (Done (relay [] chars err), s'))))"

section \<open>Properties\<close>

lemma serve_status:
  assumes "serve methods unmarshal handler marshal canceled failed unencoded rq s = (Done r, s')"
  shows "(r_status r = 405 \<longleftrightarrow> rq_Method rq \<notin> set methods)
    \<and> (r_status r \<in> {400, 405} \<longrightarrow> s' = s)
    \<and> (r_status r = 499 \<longrightarrow> (\<exists>b q e. rq_Body rq = Inr b \<and> unmarshal b = Inr q \<and> handler q s = (Done (Inl e), s') \<and> is_canceled e))
    \<and> (r_status r = 200 \<longrightarrow> (\<exists>b q a. rq_Body rq = Inr b \<and> unmarshal b = Inr q \<and> handler q s = (Done (Inr a), s') \<and> marshal a = Inr (r_body r)))
    \<and> r_status r \<in> {200, 400, 405, 499, 500}"
  using assms
  by (auto simp: serve_def method_denied_def status_response_def failure_response_def
    split: if_splits sum.splits outcome.splits prod.splits)

text \<open>
  C22: The status of an answer tells what happened: 405 exactly for a method that is not allowed, 400 and 405 only when nothing was done,
  499 only after an operation that was cancelled, and 200 only after an operation that succeeded, with its encoded result as the
  body. This is the shape of six of the handlers.
\<close>

theorem http_status_tells_outcome:
  assumes "serve methods unmarshal handler marshal canceled failed unencoded rq s = (Done r, s')"
  shows "(r_status r = 405 \<longleftrightarrow> rq_Method rq \<notin> set methods)
    \<and> (r_status r \<in> {400, 405} \<longrightarrow> s' = s)
    \<and> (r_status r = 499 \<longrightarrow> (\<exists>b q e. rq_Body rq = Inr b \<and> unmarshal b = Inr q \<and> handler q s = (Done (Inl e), s') \<and> is_canceled e))
    \<and> (r_status r = 200 \<longrightarrow> (\<exists>b q a. rq_Body rq = Inr b \<and> unmarshal b = Inr q \<and> handler q s = (Done (Inr a), s') \<and> marshal a = Inr (r_body r)))
    \<and> r_status r \<in> {200, 400, 405, 499, 500}"
  using assms by (rule serve_status)

theorem http_status_tells_outcome_witness:
  "\<exists>r s'. DeleteOwnerHttp memory_store Inr \<lparr>rq_Method = ''DELETE'', rq_Body = Inr [97]\<rparr> (NewCache, \<lparr>mem = no_tables, script = [Some [Canceled]]\<rparr>) = (Done r, s')
    \<and> r_status r = 499 \<and> (\<exists>e. DeleteOwner memory_store [97] (NewCache, \<lparr>mem = no_tables, script = [Some [Canceled]]\<rparr>) = (Done (Inl e), s') \<and> is_canceled e)"
proof -
  let ?s = "(NewCache, \<lparr>mem = no_tables, script = [Some [Canceled]]\<rparr>) :: memory server"
  let ?rq = "\<lparr>rq_Method = ''DELETE'', rq_Body = Inr [97]\<rparr> :: gotext request"
  obtain r s' where run: "DeleteOwnerHttp memory_store Inr ?rq ?s = (Done r, s')" and st: "r_status r = 499"
    by (simp add: DeleteOwnerHttp_def serve_def DeleteOwner_def on_found_def on_db_def memory_store_def faulty_def fail_with_def joined_def
      is_canceled_def errors_Is_def failure_response_def status_response_def)
  have "\<exists>b q e. rq_Body ?rq = Inr b \<and> Inr b = (Inr q :: error + gotext) \<and> DeleteOwner memory_store q ?s = (Done (Inl e), s') \<and> is_canceled e"
    using http_status_tells_outcome [OF run [unfolded DeleteOwnerHttp_def]] st by blast
  then show ?thesis using run st by auto
qed

text \<open>
  The chat handler relays the stream of the model unchanged. A stream that breaks after its first code point is answered
  with status 200 all the same, and the message of the error becomes part of the text.
\<close>

theorem chat_relays_stream:
  assumes "rq_Method rq \<in> {''POST'', ''GET''}" and "rq_Body rq = Inr b" and "unmarshal b = Inr req"
    and "Chat D ai_chat req s = (Done (Inr (Some (chars, err))), s')"
  shows "\<exists>r. ChatHttp D ai_chat unmarshal rq s = (Done r, s')
    \<and> (err = None \<longrightarrow> r_status r = 200 \<and> r_body r = chars)
    \<and> (err \<noteq> None \<and> chars \<noteq> [] \<longrightarrow> r_status r = 200 \<and> r_body r = chars @ runes ''Error reading stream'' @ [newline])"
  using assms by (auto simp: ChatHttp_def relay_eq split: option.splits)

theorem chat_relays_stream_witness:
  "\<exists>r s'. ChatHttp memory_store (\<lambda>_. Some ([104 :: nat], Some [Canceled])) Inr
      \<lparr>rq_Method = ''POST'', rq_Body = Inr \<lparr>c_Prefix = [], c_History = [], c_Text = [63], c_DocumentIDs = [], c_Documents = []\<rparr>\<rparr> stored_server = (Done r, s')
    \<and> r_status r = 200"
proof -
  let ?req = "\<lparr>c_Prefix = [], c_History = [], c_Text = [63], c_DocumentIDs = [], c_Documents = []\<rparr>"
  let ?rq = "\<lparr>rq_Method = ''POST'', rq_Body = Inr ?req\<rparr> :: ChatRequest request"
  have m: "rq_Method ?rq \<in> {''POST'', ''GET''}" and b: "rq_Body ?rq = Inr ?req" and u: "Inr ?req = (Inr ?req :: error + ChatRequest)" by simp_all
  have c: "Chat memory_store (\<lambda>_. Some ([104 :: nat], Some [Canceled])) ?req stored_server = (Done (Inr (Some ([104], Some [Canceled]))), stored_server)"
    by (simp add: Chat_def succeed_def)
  show ?thesis using chat_relays_stream [where unmarshal = Inr, OF m b u c] by auto
qed

end
