(* ===== verification/Server.thy ===== *)
theory Server
  imports Http Machine
begin

text \<open>
  The server as a whole: the operations behind the routes of \<open>main.go\<close> and the clean-up of the cache as one machine, whose runs are
  sequences of whole operations. What every reachable state keeps, and how the operations work together: what
  is uploaded is found.
\<close>

section \<open>The server as a machine\<close>

datatype call =
    CallUpload "gotext list \<Rightarrow> error + u8 list list" UploadRequest
  | CallSearch "gotext list \<Rightarrow> error + u8 list list" SearchRequest
  | CallChat ChatRequest
  | CallCategories gotext
  | CallDeleteOwner gotext
  | CallDeleteCategory gotext gotext
  | CallDeleteDocument gotext gotext id
  | CleanupTask time

text \<open>A call comes with the readings of the clock during it. The result of an operation goes to the client, the state stays.\<close>

type_synonym event = "call \<times> clock"

fun server_step :: "'d store \<Rightarrow> Centroid ranking \<Rightarrow> id ranking \<Rightarrow> nat \<Rightarrow> int \<Rightarrow> 'd server \<Rightarrow> event \<Rightarrow> 'd server" where
  "server_step D S1 S2 largest ctx s (CallUpload ai_embed req, clk) = snd (Upload D ctx ai_embed clk req s)"
| "server_step D S1 S2 largest ctx s (CallSearch ai_embed req, clk) = snd (Search D S1 S2 largest ai_embed clk req s)"
| "server_step D S1 S2 largest ctx s (CallChat req, clk) = snd (Chat D (\<lambda>m. m) req s)"
| "server_step D S1 S2 largest ctx s (CallCategories n, clk) = snd (FetchCategoryNames D n s)"
| "server_step D S1 S2 largest ctx s (CallDeleteOwner n, clk) = snd (DeleteOwner D n s)"
| "server_step D S1 S2 largest ctx s (CallDeleteCategory n m, clk) = snd (DeleteCategory D clk n m s)"
| "server_step D S1 S2 largest ctx s (CallDeleteDocument n m k, clk) = snd (DeleteDocument D clk n m k s)"
| "server_step D S1 S2 largest ctx s (CleanupTask now, clk) = (cleanup now (fst s), snd s)"

definition any_event :: "'d server \<Rightarrow> event \<Rightarrow> bool" where
  "any_event s e \<longleftrightarrow> True"

lemma cleanup_cached_ok: "cached_ok c T \<Longrightarrow> cached_ok (cleanup now c) T"
  unfolding cached_ok_def cleanup_def cleanup_table_def by (fastforce split: option.splits if_splits)

context database
begin

lemma server_step_since:
  assumes "since T0 tbl s"
  shows "since T0 tbl (server_step D S1 S2 largest ctx s e)"
proof (cases "(D, S1, S2, largest, ctx, s, e)" rule: server_step.cases)
  case (8 D' S1' S2' l' c' s' now clk)
  then show ?thesis using assms cleanup_cached_ok by (simp add: since_defs)
qed (use assms in \<open>auto intro!: Upload_keeps [THEN keepsD] Search_keeps [THEN keepsD] Chat_keeps [THEN keepsD]
    FetchCategoryNames_keeps [THEN keepsD] DeleteOwner_keeps [THEN keepsD] DeleteCategory_keeps [THEN keepsD] DeleteDocument_keeps [THEN keepsD]\<close>)

lemma server_step_keeps: "server_ok tbl s \<Longrightarrow> server_ok tbl (server_step D S1 S2 largest ctx s e)"
  using server_step_since [of "tbl (snd s)" s] by (simp add: since_def)

lemma server_invariant:
  "server_ok tbl s0 \<Longrightarrow> invariant any_event (server_step D S1 S2 largest ctx) s0 (\<lambda>_. True) (server_ok tbl)"
  by unfold_locales (simp_all add: server_step_keeps)

end

interpretation memory_server: invariant any_event "server_step memory_store insertionSort insertionSort 5000 100"
    "(NewCache, \<lparr>mem = no_tables, script = []\<rparr>)" "\<lambda>_. True" "server_ok mem"
  by (rule memory.server_invariant) (simp add: server_ok_def)

text \<open>
  C6: After any sequence of uploads, searches, chats, deletions and clean-ups, successful or not, on any lawful database that was
  consistent when the server started, the tables are consistent, and the centroids in the cache belong to the categories they are cached for.
\<close>

theorem server_stays_consistent:
  assumes "lawful tbl D" and "tables_ok (tbl d)" and "run any_event (server_step D S1 S2 largest ctx) (NewCache, d) es = Some s"
  shows "server_ok tbl s"
  using invariant.run_inv [OF database.server_invariant [OF database.intro [OF assms(1)]] assms(3)] assms(2)
  by (simp add: server_ok_def list_all_iff)

theorem server_stays_consistent_witness:
  "\<exists>s. run any_event (server_step memory_store insertionSort insertionSort 5000 100) (NewCache, \<lparr>mem = search_tables, script = []\<rparr>)
      [(CallDeleteDocument [97] [98] 1, \<lambda>_. 0), (CallCategories [97], \<lambda>_. 0), (CleanupTask 9000000000, \<lambda>_. 0)] = Some s
    \<and> server_ok mem s \<and> t_documents (mem (snd s)) = []"
proof -
  let ?es = "[(CallDeleteDocument [97] [98] 1, \<lambda>_. 0), (CallCategories [97], \<lambda>_. 0), (CleanupTask 9000000000, \<lambda>_. 0)] :: event list"
  let ?d = "\<lparr>mem = search_tables, script = []\<rparr>"
  obtain s where run: "run any_event (server_step memory_store insertionSort insertionSort 5000 100) (NewCache, ?d) ?es = Some s"
    by (simp add: any_event_def)
  have t: "tables_ok (mem ?d)" using search_tables_ok by simp
  have "server_ok mem s" by (rule server_stays_consistent [where tbl = mem, OF memory_lawful t run])
  moreover have "t_documents (mem (snd s)) = []"
    using run [symmetric] by (simp add: any_event_def delete_evaluation FetchCategoryNames_def on_ok_def drop_defs)
  ultimately show ?thesis using run by blast
qed

section \<open>What is uploaded is found\<close>

text \<open>The part of a stored upload that a search needs.\<close>

lemma stored_named:
  assumes "stored req counts vs T ids T'" and "\<forall>n \<in> set counts. 0 < n" and "length counts = length ids"
  shows "\<exists>c. named T' (u_Owner req) (u_Category req) c \<and> (vs \<noteq> [] \<longrightarrow> centroids_of T' (category_ID c) \<noteq> [])
    \<and> set ids \<subseteq> embedding_DocumentID ` set (category_embeddings T' (category_ID c))"
proof -
  obtain c ds es ws cs zs k where T': "T' = \<lparr>t_owners = t_owners T @ ws, t_categories = t_categories T @ cs, t_centroids = t_centroids T @ zs,
           t_documents = t_documents T @ ds, t_embeddings = t_embeddings T @ es, t_next = k\<rparr>"
      and c: "named T' (u_Owner req) (u_Category req) c"
      and z: "map (\<lambda>d. d\<lparr>document_ID := 0\<rparr>) ds = map (new_document (category_ID c)) (u_Documents req)"
      and ids: "ids = map document_ID ds"
      and v: "map embedding_Vector es = vs" and p: "map embedding_DocumentID es = concat (map2 replicate counts ids)"
      and near: "\<forall>e \<in> set es. nearest_centroid (centroids_of T' (category_ID c)) (embedding_Vector e) (embedding_CentroidID e)"
    using assms(1) unfolding stored_def by (elim exE conjE) (rule that)
  have d: "set ds \<subseteq> set (t_documents T')" and e: "set es \<subseteq> set (t_embeddings T')" by (simp_all add: T')
  have "map document_CategoryID ds = map document_CategoryID (map (\<lambda>d. d\<lparr>document_ID := 0\<rparr>) ds)" by simp
  also have "\<dots> = map (\<lambda>_. category_ID c) (u_Documents req)" unfolding z by (simp add: new_document_def)
  finally have "document_CategoryID ` set ds = (\<lambda>_. category_ID c) ` set (u_Documents req)" by (metis set_map)
  then have cat: "document_CategoryID x = category_ID c" if "x \<in> set ds" for x using that by blast
  have "set ids \<subseteq> set (concat (map2 replicate counts ids))"
    using assms(2,3) by (force simp: in_set_conv_nth set_zip)
  then have "set ids \<subseteq> embedding_DocumentID ` set es" using p by (metis set_map)
  moreover have "e \<in> set (category_embeddings T' (category_ID c))" if e': "e \<in> set es" "embedding_DocumentID e \<in> set ids" for e
  proof -
    obtain x where "x \<in> set ds" "document_ID x = embedding_DocumentID e" using e'(2) ids by auto
    then show ?thesis using e e'(1) d cat by (auto simp: category_embeddings_def)
  qed
  ultimately have "set ids \<subseteq> embedding_DocumentID ` set (category_embeddings T' (category_ID c))" by fastforce
  moreover have "centroids_of T' (category_ID c) \<noteq> []" if "vs \<noteq> []"
  proof -
    have "es \<noteq> []" using that v by auto
    then obtain e where "e \<in> set es" by (meson last_in_set)
    then have "nearest_centroid (centroids_of T' (category_ID c)) (embedding_Vector e) (embedding_CentroidID e)" using near by blast
    then show ?thesis by (auto simp: nearest_centroid_def)
  qed
  ultimately show ?thesis using c by blast
qed

text \<open>All documents of a category fit on the first page.\<close>

lemma all_hits:
  assumes "top_hits limit cands hits" and "card (fst ` set cands) \<le> limit"
  shows "fst ` set hits = fst ` set cands"
proof (rule card_subset_eq)
  show "fst ` set hits \<subseteq> fst ` set cands" using assms(1) by (auto simp: top_hits_def)
  have "card (fst ` set hits) = length hits"
    using assms(1) by (metis top_hits_def distinct_card length_map list.set_map)
  then show "card (fst ` set hits) = card (fst ` set cands)" using assms by (simp add: top_hits_def)
qed simp

lemma category_documents_card:
  assumes "tables_ok T"
  shows "card (embedding_DocumentID ` set (category_embeddings T i)) \<le> length (filter (\<lambda>d. document_CategoryID d = i) (t_documents T))"
proof -
  have "embedding_DocumentID ` set (category_embeddings T i) \<subseteq> document_ID ` set (filter (\<lambda>d. document_CategoryID d = i) (t_documents T))"
    by (auto simp: category_embeddings_def) (metis (mono_tags, lifting) image_eqI mem_Collect_eq)
  then have "card (embedding_DocumentID ` set (category_embeddings T i)) \<le> card (document_ID ` set (filter (\<lambda>d. document_CategoryID d = i) (t_documents T)))"
    by (intro card_mono) auto
  also have "\<dots> \<le> length (filter (\<lambda>d. document_CategoryID d = i) (t_documents T))"
    by (metis card_length length_map list.set_map)
  finally show ?thesis .
qed

text \<open>
  C3: What is uploaded is found: after a successful upload a search of the same category, from offset 0 and with a negative number of
  centroids, succeeds and returns every document of the upload, as long as the documents of that category fit on its page. It takes a
  consistent database whose queries do not fail during the search, a query text that can be embedded, caches that agree with the tables both times, and vectors of one
  length everywhere: the new ones that of the stored centroids, and the query that of all stored vectors, longer than the header; and the capacity of the list of hits can be allocated.
\<close>

theorem uploads_are_found:
  assumes "lawful tbl D" and "steady I D" and "sorting S1" and "sorting S2"
    and "ai_embed (concat (upload_inputs ctx up)) = Inr vs" and "vectors_fit n vs (tbl (snd s))" and "8 < length q"
    and "cache_fresh clk (fst s) (tbl (snd s))" and "server_ok tbl s"
    and "Upload D ctx ai_embed clk up s = (Done (Inr ids), s')"
    and "ai_embed' [runes ''search_query: '' @ q_Text req] = Inr (q # rest)" and "same_length q (tbl (snd s'))"
    and "q_Owner req = u_Owner up" and "q_Category req = u_Category up" and "q_Centroids req < 0" and "q_Offset req = 0"
    and "\<And>c. named (tbl (snd s')) (q_Owner req) (q_Category req) c \<Longrightarrow>
      length (filter (\<lambda>d. document_CategoryID d = category_ID c) (t_documents (tbl (snd s')))) \<le> clamp_count (q_Count req)"
    and "cache_fresh clk' (fst s') (tbl (snd s'))" and "I (snd s')" and "clamp_count (q_Count req) + BATCH_SIZE_DATABASE \<le> largest"
    and "int (length (t_centroids (tbl (snd s')))) \<le> MaxInt"
  shows "\<exists>page. fst (Search D S1 S2 largest ai_embed' clk' req s') = Done (Inr page) \<and> set ids \<subseteq> hit_DocumentID ` set page"
proof -
  have st: "stored up (map length (upload_inputs ctx up)) vs (tbl (snd s)) ids (tbl (snd s'))"
    using assms(9) by (intro database.Upload_stores [OF database.intro [OF assms(1)] assms(5,6,8) _ assms(10)]) (simp add: server_ok_def)
  have "u_Documents up \<noteq> []" "length vs = length (concat (upload_inputs ctx up))"
    using assms(5,10) by (auto simp: Upload_def fail_with_def split: if_splits)
  then have vs: "vs \<noteq> []" by (cases "u_Documents up") (auto simp: upload_inputs_def)
  have counts: "\<forall>n \<in> set (map length (upload_inputs ctx up)). 0 < n" by (auto simp: upload_inputs_def)
  have l: "length (map length (upload_inputs ctx up)) = length ids"
    using st unfolding stored_def upload_inputs_def by (elim exE conjE) (metis length_map)
  obtain c where c: "named (tbl (snd s')) (q_Owner req) (q_Category req) c" "centroids_of (tbl (snd s')) (category_ID c) \<noteq> []"
      "set ids \<subseteq> embedding_DocumentID ` set (category_embeddings (tbl (snd s')) (category_ID c))"
    using stored_named [OF st counts l] vs assms(13,14) by auto
  have "server_ok tbl s'"
    using keeps_server_ok [OF database.Upload_keeps [OF database.intro [OF assms(1)]], THEN keepsD, OF assms(9)] assms(10) by (metis snd_conv)
  then have ok: "tables_ok (tbl (snd s'))" by (simp add: server_ok_def)
  let ?es = "category_embeddings (tbl (snd s')) (category_ID c)"
  have lim: "uint64_add (clamp_count (q_Count req)) (q_Offset req) = clamp_count (q_Count req)"
    using assms(16) by (simp add: uint64_add_def clamp_count_def)
  have cap: "uint64_add (uint64_add (clamp_count (q_Count req)) (q_Offset req)) BATCH_SIZE_DATABASE \<le> largest"
    unfolding lim using uint64_add_le assms(20) by (rule order_trans)
  have rd: "lawful_reads tbl D" using assms(1) by (simp add: lawful_def)
  obtain page hits where p: "fst (Search D S1 S2 largest ai_embed' clk' req s') = Done (Inr page)"
      "top_hits (clamp_count (q_Count req)) (candidates q ?es) hits" "hit_pairs page = hits"
    using Search_exact [where ai_embed = ai_embed' and req = req and s = s' and tbl = tbl and I = I, OF assms(11) assms(7) assms(3,4) rd assms(2,18) ok
      assms(12) cap assms(19) assms(15) assms(21) c(1,2)] unfolding lim by (auto simp: assms(16))
  have k: "fst ` set (candidates q ?es) = embedding_DocumentID ` set ?es" by (force simp: candidates_def)
  have "card (fst ` set (candidates q ?es)) \<le> clamp_count (q_Count req)"
    unfolding k using category_documents_card [OF ok] assms(17) [OF c(1)] by (rule order_trans)
  then have "fst ` set hits = embedding_DocumentID ` set ?es" using all_hits [OF p(2)] k by simp
  moreover have "fst ` set hits = hit_DocumentID ` set page" using p(3) by (force simp: hit_pairs_def)
  ultimately show ?thesis using p(1) c(3) by auto
qed

theorem uploads_are_found_witness:
  "\<exists>s' page. Upload memory_store 100 embed_all (\<lambda>_. 0) upload_request (NewCache, \<lparr>mem = no_tables, script = []\<rparr>) = (Done (Inr [4]), s')
    \<and> fst (Search memory_store insertionSort insertionSort 5000 embed_all (\<lambda>_. 9000000000) search_request s') = Done (Inr page)
    \<and> 4 \<in> hit_DocumentID ` set page"
proof -
  let ?s = "(NewCache, \<lparr>mem = no_tables, script = []\<rparr>) :: memory server"
  let ?now = "\<lambda>_. 9000000000 :: time"
  obtain es where run: "Upload memory_store 100 embed_all (\<lambda>_. 0) upload_request ?s = (Done (Inr [4]), uploaded_cache, \<lparr>mem = uploaded_tables es, script = []\<rparr>)"
    and es: "\<forall>v \<in> set (map embedding_Vector es). v = one_vector" using upload_run by blast
  let ?s' = "(uploaded_cache, \<lparr>mem = uploaded_tables es, script = []\<rparr>) :: memory server"
  have e: "embed_all (concat (upload_inputs 100 upload_request)) = Inr (map (\<lambda>_. one_vector) (concat (upload_inputs 100 upload_request)))"
    by (simp add: embed_all_def)
  have f: "vectors_fit 9 (map (\<lambda>_. one_vector) (concat (upload_inputs 100 upload_request))) (mem (snd ?s))"
    by (simp add: vectors_fit_def one_vector_def no_tables_def)
  have q: "embed_all [runes ''search_query: '' @ q_Text search_request] = Inr (one_vector # [])" "8 < length one_vector"
    by (simp_all add: embed_all_def one_vector_def)
  have fresh: "cache_fresh ?now (fst ?s') (mem (snd ?s'))"
    by (simp add: cache_fresh_def owners_fresh_def categories_fresh_def centroids_fresh_def uploaded_cache_def lookup_def save_def
      CACHE_DURATION_def second_def)
  have d: "length (filter (\<lambda>d. document_CategoryID d = category_ID c) (t_documents (mem (snd ?s')))) \<le> clamp_count (q_Count search_request)"
    for c :: Category
    by (simp add: uploaded_tables_def search_request_def clamp_count_def)
  have same: "same_length one_vector (mem (snd ?s'))" using es by (auto simp: same_length_def uploaded_tables_def)
  have c: "int (length (t_centroids (mem (snd ?s')))) \<le> MaxInt" by (simp add: uploaded_tables_def MaxInt_def)
  have g: "cache_fresh (\<lambda>_. 0) (fst ?s) (mem (snd ?s))" "server_ok mem ?s" by (simp_all add: server_ok_def)
  have o: "q_Owner search_request = u_Owner upload_request" "q_Category search_request = u_Category upload_request"
      "q_Centroids search_request < 0" "q_Offset search_request = 0"
    by (simp_all add: search_request_def upload_request_def)
  have I: "script (snd ?s') = []" and l: "clamp_count (q_Count search_request) + BATCH_SIZE_DATABASE \<le> 5000"
    by (simp_all add: search_request_def clamp_count_def BATCH_SIZE_DATABASE_def)
  have "\<exists>page. fst (Search memory_store insertionSort insertionSort 5000 embed_all ?now search_request ?s') = Done (Inr page)
      \<and> set [4] \<subseteq> hit_DocumentID ` set page"
    using uploads_are_found [where tbl = mem and I = "\<lambda>d. script d = []" and s = ?s and s' = ?s' and ai_embed = embed_all and ai_embed' = embed_all
      and up = upload_request and req = search_request and clk' = ?now,
      OF memory_lawful memory_steady insertionSort_sorting insertionSort_sorting e f q(2) g run q(1) same o d fresh I l c] .
  then show ?thesis using run by auto
qed

section \<open>The answer to an upload\<close>

text \<open>
  C7: A client can rely on the answer to its upload, on every lawful and consistent database and whatever fails, when there is
  an answer (a panic gives none). 200 means that the
  request was read and parsed and its texts embedded, and that all its documents and embeddings are stored, under the numbers in the answer
  (this last part if the caches agree with the tables and the new vectors have the length of the stored centroids). Any other status, among them those for an
  unreadable body, for a failed embedding and for a failing query, means that no embedding was stored, and that documents were stored only without
  embeddings, where no search finds them.
\<close>

theorem upload_answer_is_true:
  assumes "lawful tbl D" and "tables_ok (tbl (snd s))"
    and "UploadHttp D ctx ai_embed clk unmarshal (\<lambda>ids. Inr (encode ids)) rq s = (Done r, s')"
  shows "if r_status r = 200
    then \<exists>b req vs ids. rq_Body rq = Inr b \<and> unmarshal b = Inr req \<and> ai_embed (concat (upload_inputs ctx req)) = Inr vs \<and> r_body r = encode ids
      \<and> (cache_fresh clk (fst s) (tbl (snd s)) \<and> vectors_fit n vs (tbl (snd s)) \<longrightarrow>
          stored req (map length (upload_inputs ctx req)) vs (tbl (snd s)) ids (tbl (snd s')))
    else t_embeddings (tbl (snd s')) = t_embeddings (tbl (snd s))
      \<and> (t_documents (tbl (snd s')) = t_documents (tbl (snd s))
        \<or> (\<exists>b req. rq_Body rq = Inr b \<and> unmarshal b = Inr req \<and> orphans req (tbl (snd s)) (tbl (snd s'))))"
proof (cases "\<exists>b req. rq_Method rq = ''POST'' \<and> rq_Body rq = Inr b \<and> unmarshal b = Inr req")
  case True
  then obtain b req where b: "rq_Method rq = ''POST''" "rq_Body rq = Inr b" "unmarshal b = Inr req" by blast
  obtain x t where x: "Upload D ctx ai_embed clk req s = (x, t)" by (metis surj_pair)
  have *: "UploadHttp D ctx ai_embed clk unmarshal (\<lambda>ids. Inr (encode ids)) rq s = (case x of Panic p \<Rightarrow> (Panic p, t)
      | Done (Inl e) \<Rightarrow> (Done (failure_response ''Client canceled upload request'' ''Upload request failed'' e), t)
      | Done (Inr ids) \<Rightarrow> (Done (status_response 200 (encode ids)), t))"
    using b x by (simp add: UploadHttp_def serve_def split: outcome.splits sum.splits)
  show ?thesis
  proof (cases "\<exists>ids. x = Done (Inr ids)")
    case True
    then obtain ids where ids: "x = Done (Inr ids)" by blast
    then obtain vs where vs: "ai_embed (concat (upload_inputs ctx req)) = Inr vs"
      using x by (auto simp: Upload_def fail_with_def split: if_splits sum.splits)
    have "stored req (map length (upload_inputs ctx req)) vs (tbl (snd s)) ids (tbl (snd t))"
      if "cache_fresh clk (fst s) (tbl (snd s))" "vectors_fit n vs (tbl (snd s))"
      using database.Upload_stores [where ai_embed = ai_embed and s = s and ids = ids and s' = t,
        OF database.intro [OF assms(1)] vs that(2,1) assms(2)] x ids by blast
    then show ?thesis using ids b vs * assms(3) by (auto simp: status_response_def)
  next
    case False
    then have "unfinished req (tbl (snd s)) (tbl (snd t))"
      using database.Upload_unfinished [OF database.intro [OF assms(1)] x] assms(2) by blast
    then show ?thesis using False b * assms(3)
      by (auto simp: failure_response_def status_response_def unfinished_def split: outcome.splits sum.splits if_splits)
  qed
next
  case False
  then have "s' = s \<and> r_status r \<noteq> 200"
    using assms(3) by (auto simp: UploadHttp_def serve_def method_denied_def status_response_def split: if_splits sum.splits)
  then show ?thesis by simp
qed

theorem upload_answer_is_true_witness:
  "\<exists>r s'. UploadHttp memory_store 100 embed_all (\<lambda>_. 0) Inr (\<lambda>ids. Inr ids) \<lparr>rq_Method = ''POST'', rq_Body = Inr upload_request\<rparr>
      (NewCache, \<lparr>mem = no_tables, script = []\<rparr>) = (Done r, s')
    \<and> r_status r = 200 \<and> map document_ID (t_documents (mem (snd s'))) = r_body r"
proof -
  let ?s = "(NewCache, \<lparr>mem = no_tables, script = []\<rparr>) :: memory server"
  let ?rq = "\<lparr>rq_Method = ''POST'', rq_Body = Inr upload_request\<rparr> :: UploadRequest request"
  obtain s' where u: "Upload memory_store 100 embed_all (\<lambda>_. 0) upload_request ?s = (Done (Inr [4]), s')" using upload_run by blast
  then obtain r where run: "UploadHttp memory_store 100 embed_all (\<lambda>_. 0) Inr (\<lambda>ids. Inr ids) ?rq ?s = (Done r, s')" and st: "r_status r = 200"
    by (simp add: UploadHttp_def serve_def status_response_def)
  have e: "embed_all (concat (upload_inputs 100 upload_request)) = Inr (map (\<lambda>_. one_vector) (concat (upload_inputs 100 upload_request)))"
    by (simp add: embed_all_def)
  have f: "vectors_fit 9 (map (\<lambda>_. one_vector) (concat (upload_inputs 100 upload_request))) (mem (snd ?s))"
    by (simp add: vectors_fit_def one_vector_def no_tables_def)
  have g: "tables_ok (mem (snd ?s))" "cache_fresh (\<lambda>_. 0) (fst ?s) (mem (snd ?s))" by simp_all
  have b: "rq_Body ?rq = Inr upload_request" "Inr upload_request = (Inr upload_request :: error + UploadRequest)" by simp_all
  obtain ids where "stored upload_request (map length (upload_inputs 100 upload_request))
      (map (\<lambda>_. one_vector) (concat (upload_inputs 100 upload_request))) (mem (snd ?s)) ids (mem (snd s'))" "r_body r = ids"
    using upload_answer_is_true [where tbl = mem and s = ?s and unmarshal = Inr and ai_embed = embed_all and n = 9, OF memory_lawful g(1) run] st b e f g(2)
    by auto
  then have "map document_ID (t_documents (mem (snd s'))) = r_body r"
    unfolding stored_def by (elim exE conjE) (simp add: no_tables_def)
  then show ?thesis using run st by blast
qed

end
