(* ===== verification/UiPage.thy ===== *)
theory UiPage
  imports UiApp UiSearch UiContent
begin

text \<open>
  The page of \<open>App.tsx\<close>: the list of categories, the search and the upload form below one component that owns the selected category, reads
  the owner from the browser's storage, and hands both down. \<open>App\<close> is a function that runs again at every rendering: the owner is read then,
  and created and stored when there is none. A new selection renders the search again, whose effect clears its results; an upload takes the
  two values of the moment the button is pressed.
\<close>

section \<open>State and view\<close>

record 'f page =
  stored_owner :: "jsstr option" \<comment> \<open>\<open>localStorage.getItem('owner')\<close>\<close>
  page_owner :: jsstr \<comment> \<open>the owner of the last rendering, which the children have as a property\<close>
  renderings :: nat
  page_app :: app
  page_search :: search
  page_content :: "'f content"

text \<open>The selection is \<open>undefined\<close> only for an empty list of categories, which is never reached (\<open>page_is_consistent\<close>).\<close>

definition pass_category :: "jsstr option \<Rightarrow> search \<Rightarrow> search" where
  "pass_category c s = (case c of Some c \<Rightarrow> on_category c s | None \<Rightarrow> s)"

text \<open>
  A rendering of \<open>App\<close>, with the identifier \<open>crypto.randomUUID()\<close> would give in it (\<open>uuid\<close>, by the number of the rendering). The first one
  is followed by the effect that asks for the categories, with the owner of that rendering.
\<close>

definition App_render :: "(nat \<Rightarrow> jsstr) \<Rightarrow> 'f page \<Rightarrow> 'f page" where
  "App_render uuid p =
     (let (owner, stored) = App_owner (uuid (renderings p)) (stored_owner p)
      in p\<lparr>stored_owner := stored, page_owner := owner, renderings := Suc (renderings p),
           page_search := pass_category (category (page_app p)) (page_search p)\<rparr>)"

definition page_mount :: "(nat \<Rightarrow> jsstr) \<Rightarrow> jsstr option \<Rightarrow> 'f page" where
  "page_mount uuid existingOwner =
     (let (owner, stored) = App_owner (uuid 0) existingOwner
      in \<lparr>stored_owner = stored, page_owner = owner, renderings = 1, page_app = app_mount owner, page_search = search_init [],
          page_content = content_init\<rparr>)"

record app_view =
  sidebar :: categories_view
  search_panel :: search_view
  upload_panel :: content_view

definition App_view :: "'f page \<Rightarrow> app_view" where
  "App_view p =
     \<lparr>sidebar = Categories_view (page_app p), search_panel = Search_view (page_search p),
      upload_panel = Content_view (page_content p)\<rparr>"

section \<open>Events\<close>

text \<open>
  The button of the form has no arguments: its handler has the properties the form was last rendered with. React may render \<open>App\<close> again at any
  time without a change of its state (\<open>StrictMode\<close> of \<open>main.tsx\<close> does so in development): \<open>Rendered\<close>.
\<close>

datatype 'f page_event =
    InCategories app_event
  | InSearch search_event
  | InContent "'f content_event"
  | PressUploadButton
  | Rendered

text \<open>The search is told of a new category by the rendering of \<open>App\<close>, never by an event of its own.\<close>

fun page_enabled :: "('f ui_file \<Rightarrow> text_outcome) \<Rightarrow> 'f page \<Rightarrow> 'f page_event \<Rightarrow> bool" where
  "page_enabled decode p (InCategories e) = app_enabled (page_app p) e"
| "page_enabled decode p (InSearch (ChangeCategory c)) = False"
| "page_enabled decode p (InSearch e) = search_enabled (page_search p) e"
| "page_enabled decode p (InContent (PressUpload owner c)) = False"
| "page_enabled decode p (InContent e) = content_enabled decode (page_content p) e"
| "page_enabled decode p PressUploadButton = (\<not> button_disabled (upload_panel (App_view p)))"
| "page_enabled decode p Rendered = True"

text \<open>A change of the list or of the selection, which are states of \<open>App\<close>, renders it again; the field for a new category is not one.\<close>

fun page_step :: "(nat \<Rightarrow> jsstr) \<Rightarrow> 'f page \<Rightarrow> 'f page_event \<Rightarrow> 'f page" where
  "page_step uuid p (InCategories e) =
     (let app' = app_step (page_owner p) (page_app p) e;
          p' = p\<lparr>page_app := app'\<rparr>
      in if categories app' = categories (page_app p) \<and> category app' = category (page_app p) then p' else App_render uuid p')"
| "page_step uuid p (InSearch e) = p\<lparr>page_search := search_step (page_owner p) (page_search p) e\<rparr>"
| "page_step uuid p (InContent e) = p\<lparr>page_content := content_step (page_content p) e\<rparr>"
| "page_step uuid p PressUploadButton =
     (case category (page_app p) of
        None \<Rightarrow> p
      | Some c \<Rightarrow> p\<lparr>page_content := content_step (page_content p) (PressUpload (page_owner p) c)\<rparr>)"
| "page_step uuid p Rendered = App_render uuid p"

lemma App_render_simps [simp]:
  "page_app (App_render uuid p) = page_app p" "page_content (App_render uuid p) = page_content p"
  "page_search (App_render uuid p) = pass_category (category (page_app p)) (page_search p)"
  by (simp_all add: App_render_def split_beta Let_def)

section \<open>What the parts agree on\<close>

definition requests_of :: "jsstr \<Rightarrow> app \<Rightarrow> search \<Rightarrow> 'f content \<Rightarrow> bool" where
  "requests_of owner a s c \<longleftrightarrow> (\<forall>q \<in> set (sent a). q = GetCategories_request owner \<or> (\<exists>k. q = DeleteCategory_request owner k))
     \<and> (\<forall>r \<in> set (issued s). sr_owner r = owner \<and> sr_centroids r = None)
     \<and> (\<forall>q \<in> set (deletions s). \<exists>k i. q = DeleteDocument_request owner k i)
     \<and> (\<forall>u \<in> set (uploads c). ur_owner u = owner) \<and> (\<forall>j \<in> set (jobs c). job_owner j = owner)"

text \<open>The owner is settled: it is stored, and everything the page has sent carries it.\<close>

definition owner_settled :: "jsstr \<Rightarrow> 'f page \<Rightarrow> bool" where
  "owner_settled owner p \<longleftrightarrow> owner \<noteq> [] \<and> stored_owner p = Some owner \<and> page_owner p = owner
     \<and> requests_of owner (page_app p) (page_search p) (page_content p)"

definition page_inv :: "('f ui_file \<Rightarrow> text_outcome) \<Rightarrow> (nat \<Rightarrow> jsstr) \<Rightarrow> jsstr \<Rightarrow> 'f page \<Rightarrow> bool" where
  "page_inv decode uuid owner p \<longleftrightarrow> app_inv (page_app p) \<and> category (page_app p) = Some (prop_category (page_search p))
     \<and> search_inv (page_search p) \<and> content_inv decode (page_content p) \<and> ((\<forall>n. uuid n \<noteq> []) \<longrightarrow> owner_settled owner p)"

fun page_event_ok :: "'f page_event \<Rightarrow> bool" where
  "page_event_ok (InCategories e) = app_ok e"
| "page_event_ok _ = True"

lemma app_step_selected:
  assumes "app_inv s" and "category s \<noteq> None" and "app_enabled s e" and "app_ok e"
  shows "category (app_step owner s e) \<noteq> None"
  using assms by (cases e) (auto simp: ui_defs split: list.splits)

lemma app_step_sent:
  "q \<in> set (sent (app_step owner s e)) \<Longrightarrow> q \<in> set (sent s) \<or> (\<exists>k. q = DeleteCategory_request owner k)"
  by (cases e) (auto simp: ui_defs split: if_splits)

lemma on_category_inv: "search_inv s \<Longrightarrow> search_inv (on_category c s)"
  by (simp add: search_inv_def on_category_def)

lemma on_category_simps [simp]: "issued (on_category c s) = issued s" "prop_category (on_category c s) = c" "deletions (on_category c s) = deletions s"
  by (simp_all add: on_category_def)

lemma on_category_same [simp]: "on_category (prop_category s) s = s"
  by (simp add: on_category_def)

lemma search_step_issued:
  "issued (search_step owner s e) = issued s
   \<or> (\<exists>r. issued (search_step owner s e) = issued s @ [r] \<and> sr_owner r = owner \<and> sr_category r = prop_category s \<and> sr_centroids r = None)"
  by (cases e) (auto simp: ui_defs)

lemma search_step_deletions:
  "q \<in> set (deletions (search_step owner s e)) \<Longrightarrow> q \<in> set (deletions s) \<or> (\<exists>k i. q = DeleteDocument_request owner k i)"
  by (cases e) (auto simp: ui_defs split: if_splits)

lemma search_step_category:
  "\<forall>c. e \<noteq> ChangeCategory c \<Longrightarrow> prop_category (search_step owner s e) = prop_category s"
  by (cases e) (auto simp: ui_defs)

lemma content_step_owner:
  assumes "\<forall>u \<in> set (uploads s). ur_owner u = owner" and "\<forall>j \<in> set (jobs s). job_owner j = owner"
    and "content_enabled decode s e" and "\<forall>c w. e = PressUpload w c \<longrightarrow> w = owner"
  shows "(\<forall>u \<in> set (uploads (content_step s e)). ur_owner u = owner) \<and> (\<forall>j \<in> set (jobs (content_step s e)). job_owner j = owner)"
proof (cases e)
  case (FileDecoded n t)
  then have n: "n < length (jobs s)" using assms(3) by simp
  then have o: "job_owner (jobs s ! n) = owner" using assms(2) by simp
  then show ?thesis using assms(1,2) n
    by (cases rule: resume_cases [of "jobs s ! n" t s])
      (auto simp: FileDecoded drop_job_def upload_request_def dest!: in_set_takeD in_set_dropD set_update_subset_insert [THEN subsetD])
qed (use assms in \<open>auto simp: ui_defs upload_request_def dest: in_set_takeD in_set_dropD\<close>)

text \<open>A rendering keeps the stored owner; without the storage it would take a new one.\<close>

lemma page_render_inv:
  assumes "page_inv decode uuid owner (p\<lparr>page_search := on_category c (page_search p)\<rparr>)" and "category (page_app p) = Some c"
  shows "page_inv decode uuid owner (App_render uuid p)"
proof -
  have "owner_settled owner (App_render uuid p)" if "\<forall>n. uuid n \<noteq> []"
    using assms that by (auto simp: page_inv_def owner_settled_def App_render_def App_owner_def requests_of_def pass_category_def)
  then show ?thesis using assms by (simp add: page_inv_def pass_category_def)
qed

lemma page_step_inv:
  assumes inv: "page_inv decode uuid owner p" and en: "page_enabled decode p e" and ok: "page_event_ok e"
  shows "page_inv decode uuid owner (page_step uuid p e)"
proof (cases e)
  case (InCategories a)
  let ?app = "app_step (page_owner p) (page_app p) a"
  have a: "app_inv ?app"
    using app_list.inv_step [of "page_app p" a "page_owner p"] assms InCategories by (simp add: page_inv_def)
  obtain c where c: "category ?app = Some c"
    using app_step_selected [of "page_app p" a "page_owner p"] assms InCategories by (auto simp: page_inv_def)
  have sent: "owner_settled owner (p\<lparr>page_app := ?app\<rparr>)" if "owner_settled owner p"
    using that app_step_sent [of _ "page_owner p" "page_app p" a] by (auto simp: owner_settled_def requests_of_def)
  show ?thesis
  proof (cases "categories ?app = categories (page_app p) \<and> category ?app = category (page_app p)")
    case True
    then show ?thesis using inv a sent by (simp add: InCategories page_inv_def Let_def)
  next
    case False
    have "page_inv decode uuid owner (p\<lparr>page_app := ?app, page_search := on_category c (page_search p)\<rparr>)"
      using inv a c sent on_category_inv [of "page_search p" c] by (auto simp: page_inv_def owner_settled_def requests_of_def)
    then have "page_inv decode uuid owner (App_render uuid (p\<lparr>page_app := ?app\<rparr>))"
      using c by (intro page_render_inv [where c = c]) simp_all
    then show ?thesis using False by (auto simp: InCategories Let_def)
  qed
next
  case (InSearch b)
  then have ne: "\<forall>c. b \<noteq> ChangeCategory c" and en: "search_enabled (page_search p) b"
    using en by (cases b; simp)+
  have s: "search_inv (search_step (page_owner p) (page_search p) b)"
    using search_page.inv_step [of "page_search p" b "page_owner p"] inv en by (simp add: page_inv_def)
  have "owner_settled owner (page_step uuid p e)" if o: "owner_settled owner p"
  proof -
    have d: "\<exists>k i. q = DeleteDocument_request owner k i" if "q \<in> set (deletions (search_step owner (page_search p) b))" for q
      using search_step_deletions [OF that] o by (auto simp: owner_settled_def requests_of_def)
    show ?thesis
      using o d search_step_issued [of owner "page_search p" b] by (auto simp: InSearch owner_settled_def requests_of_def)
  qed
  then show ?thesis
    using inv s search_step_category [OF ne, of "page_owner p" "page_search p"] by (simp add: InSearch page_inv_def)
next
  case (InContent b)
  then have en: "content_enabled decode (page_content p) b" and np: "\<forall>c w. b \<noteq> PressUpload w c"
    using en by (cases b; simp)+
  have c: "content_inv decode (content_step (page_content p) b)"
    using upload_machine.inv_step [of decode "page_content p" b] inv en by (simp add: page_inv_def)
  have "owner_settled owner (page_step uuid p e)" if o: "owner_settled owner p"
  proof -
    have "(\<forall>u \<in> set (uploads (content_step (page_content p) b)). ur_owner u = owner)
        \<and> (\<forall>j \<in> set (jobs (content_step (page_content p) b)). job_owner j = owner)"
      by (rule content_step_owner [OF _ _ en]) (use o np in \<open>simp_all add: owner_settled_def requests_of_def\<close>)
    then show ?thesis using o by (simp add: InContent owner_settled_def requests_of_def)
  qed
  then show ?thesis using inv c by (simp add: InContent page_inv_def)
next
  case PressUploadButton
  obtain c where c: "category (page_app p) = Some c" using inv by (auto simp: page_inv_def)
  have en: "content_enabled decode (page_content p) (PressUpload (page_owner p) c)"
    using en by (simp add: PressUploadButton App_view_def)
  have i: "content_inv decode (content_step (page_content p) (PressUpload (page_owner p) c))"
    using upload_machine.inv_step [OF _ en] inv by (simp add: page_inv_def)
  have "owner_settled owner (page_step uuid p e)" if o: "owner_settled owner p"
  proof -
    have "(\<forall>u \<in> set (uploads (content_step (page_content p) (PressUpload (page_owner p) c))). ur_owner u = owner)
        \<and> (\<forall>j \<in> set (jobs (content_step (page_content p) (PressUpload (page_owner p) c))). job_owner j = owner)"
      by (rule content_step_owner [OF _ _ en]) (use o in \<open>simp_all add: owner_settled_def requests_of_def\<close>)
    then show ?thesis using o c by (simp add: PressUploadButton owner_settled_def requests_of_def del: content_step.simps)
  qed
  then show ?thesis using inv i c by (simp add: PressUploadButton page_inv_def del: content_step.simps)
next
  case Rendered
  obtain c where c: "category (page_app p) = Some c" "prop_category (page_search p) = c" using inv by (auto simp: page_inv_def)
  have "page_inv decode uuid owner (App_render uuid p)"
    using inv c by (intro page_render_inv [where c = c]) auto
  then show ?thesis by (simp add: Rendered)
qed

definition first_owner :: "(nat \<Rightarrow> jsstr) \<Rightarrow> jsstr option \<Rightarrow> jsstr" where
  "first_owner uuid stored = fst (App_owner (uuid 0) stored)"

interpretation whole_page: invariant "page_enabled decode" "page_step uuid" "page_mount uuid stored" page_event_ok
    "page_inv decode uuid (first_owner uuid stored)"
  for decode uuid stored
proof
  show "page_inv decode uuid (first_owner uuid stored) (page_mount uuid stored)"
    by (auto simp: page_inv_def page_mount_def first_owner_def App_owner_def app_inv_def app_mount_def search_init_def search_inv_def
      content_init_def content_inv_def owner_settled_def requests_of_def split: option.splits)
qed (rule page_step_inv)

section \<open>Where the requests come from\<close>

text \<open>
  A search and an upload name the owner and the category that were handed down when the user asked for them: an event of the page,
  together with the state it met.
\<close>

fun search_from :: "'f page \<times> 'f page_event \<Rightarrow> SearchRequest \<Rightarrow> bool" where
  "search_from (p, e) r \<longleftrightarrow> (\<exists>b. e = InSearch b) \<and> category (page_app p) = Some (sr_category r) \<and> sr_owner r = page_owner p"

fun upload_from :: "'f page \<times> 'f page_event \<Rightarrow> UploadRequest \<Rightarrow> bool" where
  "upload_from (p, e) u \<longleftrightarrow> e = PressUploadButton \<and> category (page_app p) = Some (ur_category u) \<and> ur_owner u = page_owner p"

fun job_from :: "'f page \<times> 'f page_event \<Rightarrow> 'f upload_job \<Rightarrow> bool" where
  "job_from (p, e) j \<longleftrightarrow> e = PressUploadButton \<and> category (page_app p) = Some (job_category j) \<and> job_owner j = page_owner p"

interpretation page_origin: press_origin decode upload_from job_from
  for decode :: "'f ui_file \<Rightarrow> text_outcome"
proof
  fix x :: "'f page \<times> 'f page_event" and j todo docs
  show "job_from x j \<Longrightarrow> job_from x (j\<lparr>job_todo := todo, job_documents := docs\<rparr>)" by (cases x) simp
  show "job_from x j \<Longrightarrow> upload_from x (upload_request (job_owner j) (job_category j) docs)"
    by (cases x) (simp add: upload_request_def)
qed

lemma page_uploads:
  assumes inv: "page_inv decode uuid owner p" and en: "page_enabled decode p e"
    and "pressed_for upload_from job_from vs (page_content p)"
  shows "pressed_for upload_from job_from (vs @ [(p, e)]) (page_content (page_step uuid p e))"
proof (cases e)
  case (InContent b)
  have "content_enabled decode (page_content p) b" and "\<forall>w c. b \<noteq> PressUpload w c" using en InContent by (cases b; simp)+
  moreover have "content_inv decode (page_content p)" using inv by (simp add: page_inv_def)
  ultimately show ?thesis using page_origin.no_press [OF assms(3)] by (simp add: InContent)
next
  case PressUploadButton
  obtain c where c: "category (page_app p) = Some c" using inv by (auto simp: page_inv_def)
  have "jobs (page_content p) = []"
    using inv en by (auto simp: PressUploadButton App_view_def page_inv_def content_inv_def upload_disabled_def)
  then show ?thesis
    using page_origin.press [OF assms(3)] by (simp add: PressUploadButton c upload_request_def)
next
  case (InCategories a)
  then show ?thesis using page_origin.later [OF assms(3)] by (auto simp: Let_def)
qed (use page_origin.later [OF assms(3)] in auto)

lemma page_searches:
  assumes inv: "page_inv decode uuid owner p" and "list_all2 search_from ps (issued (page_search p))" and "subseq ps vs"
  shows "\<exists>ps. subseq ps (vs @ [(p, e)]) \<and> list_all2 search_from ps (issued (page_search (page_step uuid p e)))"
proof -
  have keep: "\<exists>ps. subseq ps (vs @ [(p, e)]) \<and> list_all2 search_from ps (issued s)" if "issued s = issued (page_search p)" for s
    using that assms(2) subseq_later [OF assms(3), of "(p, e)"] by metis
  have i: "issued (pass_category c s) = issued s" for c s by (simp add: pass_category_def split: option.splits)
  show ?thesis
  proof (cases e)
    case (InSearch b)
    consider "issued (page_search (page_step uuid p e)) = issued (page_search p)"
      | r where "issued (page_search (page_step uuid p e)) = issued (page_search p) @ [r]" "search_from (p, e) r"
      using search_step_issued [of "page_owner p" "page_search p" b] inv by (auto simp: InSearch page_inv_def)
    then show ?thesis
    proof cases
      case 2
      then show ?thesis using list_all2_snoc [OF assms(2) 2(2)] subseq_snoc_both [OF assms(3), of "(p, e)"] by metis
    qed (rule keep)
  qed (rule keep; simp add: i Let_def split: option.splits)+
qed

lemma page_requests:
  "run (page_enabled decode) (page_step uuid) (page_mount uuid stored) es = Some p \<Longrightarrow> list_all page_event_ok es \<Longrightarrow>
     pressed_for upload_from job_from (visits (page_step uuid) (page_mount uuid stored) es) (page_content p)
     \<and> (\<exists>ps. subseq ps (visits (page_step uuid) (page_mount uuid stored) es) \<and> list_all2 search_from ps (issued (page_search p)))"
proof (induction es arbitrary: p rule: rev_induct)
  case Nil
  then have "p = page_mount uuid stored" by simp
  then have "page_content p = content_init" "issued (page_search p) = []" by (simp_all add: page_mount_def search_init_def split_beta Let_def)
  then show ?case using pressed_for_init by auto
next
  case (snoc e es)
  then obtain u where u: "run (page_enabled decode) (page_step uuid) (page_mount uuid stored) es = Some u" "page_enabled decode u e"
      "p = page_step uuid u e"
    by (auto simp: run_snoc)
  have ok: "list_all page_event_ok es" using snoc.prems(2) by simp
  have inv: "page_inv decode uuid (first_owner uuid stored) u" by (rule whole_page.run_inv [OF u(1) ok])
  show ?case
    using page_uploads [OF inv u(2)] page_searches [OF inv] snoc.IH [OF u(1) ok] unfolding u(3) visits_snoc [OF u(1)] by blast
qed

section \<open>Properties\<close>

text \<open>
  C37: The parts of the page agree, whatever the user does, the network answers and however often React renders, as long as
  \<open>crypto.randomUUID\<close> gives a nonempty string and the server sends no category twice. A category is selected, and it is the one the
  search names. The owner of the first rendering (the stored one, or the identifier drawn then) stays: it is the stored one and that of the last
  rendering, though every rendering reads the storage again, and every request of the page carries it. Every search and every
  upload sent names the category that was selected when the user asked for it, in the order in which the user did.
\<close>

theorem page_is_consistent:
  assumes "run (page_enabled decode) (page_step uuid) (page_mount uuid stored) es = Some p" and "list_all page_event_ok es"
    and "\<And>n. uuid n \<noteq> []"
  shows "category (page_app p) = Some (prop_category (page_search p))
    \<and> searching_in (search_panel (App_view p)) = prop_category (page_search p)
    \<and> stored_owner p = Some (fst (App_owner (uuid 0) stored)) \<and> page_owner p = fst (App_owner (uuid 0) stored)
    \<and> requests_of (fst (App_owner (uuid 0) stored)) (page_app p) (page_search p) (page_content p)
    \<and> (\<exists>ps. subseq ps (visits (page_step uuid) (page_mount uuid stored) es) \<and> list_all2 search_from ps (issued (page_search p)))
    \<and> (\<exists>ps. subseq ps (visits (page_step uuid) (page_mount uuid stored) es) \<and> list_all2 upload_from ps (uploads (page_content p)))"
  using whole_page.run_inv [OF assms(1,2)] page_requests [OF assms(1,2)] assms(3)
  by (auto simp: page_inv_def owner_settled_def first_owner_def pressed_for_def App_view_def Search_view_def)

definition example_uuid :: "nat \<Rightarrow> jsstr" where
  "example_uuid n = [of_nat n + 1]"

definition example_page_events :: "jsstr page_event list" where
  "example_page_events =
     [InCategories (CategoriesArrive example_names), InSearch (TypeQuery [113]), InSearch PressSearch, Rendered,
      InCategories (PressItem [98]), InSearch PressEnter, InContent (TypeText [104]), PressUploadButton]"

theorem page_is_consistent_witness:
  "\<exists>p ps. run (page_enabled plain_decode) (page_step example_uuid) (page_mount example_uuid None) example_page_events = Some p
    \<and> renderings p = 4 \<and> page_owner p = [1] \<and> stored_owner p = Some [1]
    \<and> map sr_category (issued (page_search p)) = [[97], [98]] \<and> map ur_category (uploads (page_content p)) = [[98]]
    \<and> requests_of [1] (page_app p) (page_search p) (page_content p)
    \<and> subseq ps (visits (page_step example_uuid) (page_mount example_uuid None) example_page_events)
    \<and> list_all2 upload_from ps (uploads (page_content p))"
proof -
  obtain p where run: "run (page_enabled plain_decode) (page_step example_uuid) (page_mount example_uuid None) example_page_events = Some p"
      and e: "renderings p = 4" "map sr_category (issued (page_search p)) = [[97], [98]]" "map ur_category (uploads (page_content p)) = [[98]]"
    by (simp add: example_page_events_def example_names_def page_mount_def App_render_def App_owner_def app_mount_def search_init_def
      content_init_def settle_def pass_category_def upload_disabled_def trim_def js_space_def App_view_def upload_request_def
      example_uuid_def ui_defs)
  have ok: "list_all page_event_ok example_page_events"
    by (simp add: example_page_events_def example_names_def settle_def)
  have u: "example_uuid n \<noteq> []" for n by (simp add: example_uuid_def)
  have o: "fst (App_owner (example_uuid 0) None) = [1]" by (simp add: App_owner_def example_uuid_def)
  obtain ps where ps: "subseq ps (visits (page_step example_uuid) (page_mount example_uuid None) example_page_events)"
      "list_all2 upload_from ps (uploads (page_content p))"
    using page_is_consistent [OF run ok u] unfolding o by blast
  show ?thesis using run e ps page_is_consistent [OF run ok u] unfolding o by (intro exI [of _ p] exI [of _ ps]) simp
qed

end
