(* ===== verification/Paging.thy ===== *)
theory Paging
  imports UiPage Search
begin

text \<open>
  Browser and server together: the pages of results. The browser asks for one page at a time, each with its own request and its own
  search on the server; this theory shows when these searches fit together.
\<close>

section \<open>Requests on the server\<close>

text \<open>
  What \<open>json.Unmarshal\<close> makes of a request of the browser, by the tags of the struct: a field that is not sent is zero, and
  \<open>prefix\<close> has no field. The text goes from UTF-16 to code points on the way (the argument).
\<close>

definition received :: "(jsstr \<Rightarrow> gotext) \<Rightarrow> UiApi.SearchRequest \<Rightarrow> Search.SearchRequest" where
  "received utf r =
     \<lparr>q_Owner = utf (sr_owner r), q_Category = utf (sr_category r), q_Text = utf (sr_text r), q_Count = nat (sr_count r),
      q_Offset = nat (case sr_offset r of Some n \<Rightarrow> n | None \<Rightarrow> 0), q_Centroids = (case sr_centroids r of Some n \<Rightarrow> n | None \<Rightarrow> 0)\<rparr>"

section \<open>One ranking\<close>

text \<open>
  Among the centroids searched from (those of one category) no two are equally similar to the query, and neither are embeddings of two
  documents among the embeddings assigned to them.
\<close>

definition tie :: "fl \<Rightarrow> fl \<Rightarrow> bool" where
  "tie x y \<longleftrightarrow> rank_le x y \<and> rank_le y x"

definition untied :: "u8 list \<Rightarrow> tables \<Rightarrow> Centroid list \<Rightarrow> bool" where
  "untied q T cs \<longleftrightarrow>
     (\<forall>c \<in> set cs. \<forall>c' \<in> set cs. tie (similarity q (centroid_Vector c)) (similarity q (centroid_Vector c')) \<longrightarrow> c = c')
   \<and> (\<forall>e \<in> set (embeddings_of T (map centroid_ID cs)). \<forall>e' \<in> set (embeddings_of T (map centroid_ID cs)).
        tie (similarity q (embedding_Vector e)) (similarity q (embedding_Vector e')) \<longrightarrow> embedding_DocumentID e = embedding_DocumentID e')"

text \<open>Without ties the centroids searched are determined.\<close>

lemma searched_subset:
  assumes "searched q k cs ids" and "searched q k cs ids'" and "distinct cs"
    and "\<forall>c \<in> set cs. \<forall>c' \<in> set cs. tie (similarity q (centroid_Vector c)) (similarity q (centroid_Vector c')) \<longrightarrow> c = c'"
  shows "set ids \<subseteq> set ids'"
proof -
  obtain near far where n: "mset (near @ far) = mset cs" "ids = map centroid_ID near" "length near = nat (min k (int (length cs)))"
      "\<forall>a \<in> set near. \<forall>b \<in> set far. rank_le (similarity q (centroid_Vector b)) (similarity q (centroid_Vector a))"
    using assms(1) unfolding searched_def by blast
  obtain near' far' where n': "mset (near' @ far') = mset cs" "ids' = map centroid_ID near'" "length near' = nat (min k (int (length cs)))"
      "\<forall>a \<in> set near'. \<forall>b \<in> set far'. rank_le (similarity q (centroid_Vector b)) (similarity q (centroid_Vector a))"
    using assms(2) unfolding searched_def by blast
  have d: "distinct (near @ far)" "distinct (near' @ far')" and s: "set near \<union> set far = set cs" "set near' \<union> set far' = set cs"
    using n(1) n'(1) assms(3) by (metis mset_eq_imp_distinct_iff, metis mset_eq_imp_distinct_iff, metis set_append set_mset_mset, metis set_append set_mset_mset)
  then have card: "card (set near) = card (set near')" using n(3) n'(3) by (simp add: distinct_card)
  have "a \<in> set near'" if a: "a \<in> set near" for a
  proof (rule ccontr)
    assume na: "a \<notin> set near'"
    have "\<not> set near' \<subseteq> set near"
    proof
      assume "set near' \<subseteq> set near"
      then have "set near' \<subset> set near" using a na by blast
      then have "card (set near') < card (set near)" by (simp add: psubset_card_mono)
      then show False using card by simp
    qed
    then obtain b where b: "b \<in> set near'" "b \<notin> set near" by blast
    then have "b \<in> set far" "a \<in> set far'" using s a na by auto
    then have "tie (similarity q (centroid_Vector a)) (similarity q (centroid_Vector b))"
      using n(4) n'(4) a b(1) by (simp add: tie_def)
    moreover have "a \<in> set cs" "b \<in> set cs" using s a b(1) by auto
    ultimately show False using assms(4) a b(2) by blast
  qed
  then show ?thesis using n(2) n'(2) by auto
qed

text \<open>A hit is at least as good as every candidate whose document does not come before it.\<close>

lemma top_hits_next:
  assumes "top_hits k cands H" and "i < length H" and "b \<in> set cands" and "\<forall>j < i. fst (H ! j) \<noteq> fst b"
  shows "rank_le (snd b) (snd (H ! i))"
proof (cases "fst b \<in> fst ` set H")
  case True
  then obtain j where j: "j < length H" "fst (H ! j) = fst b" by (metis image_iff in_set_conv_nth)
  then have "rank_le (snd b) (snd (H ! j))" using assms(1,3) by (auto simp: top_hits_def)
  moreover have "i \<le> j" using assms(4) j(2) by (metis linorder_not_le)
  then have "rank_le (snd (H ! j)) (snd (H ! i))"
    using assms(1) j(1) by (cases "i = j") (auto simp: top_hits_def sorted_wrt_iff_nth_less)
  ultimately show ?thesis by (rule rank_le_trans)
next
  case False
  then show ?thesis using assms(1-3) by (simp add: top_hits_def)
qed

definition untied_candidates :: "id ranked \<Rightarrow> bool" where
  "untied_candidates cands \<longleftrightarrow> (\<forall>a \<in> set cands. \<forall>b \<in> set cands. tie (snd a) (snd b) \<longrightarrow> fst a = fst b)"

text \<open>Without ties a shorter list of best documents is a prefix of a longer one.\<close>

lemma top_hits_prefix:
  assumes "top_hits k cands H" and "top_hits m cands H'" and "k \<le> m" and "untied_candidates cands"
  shows "length H = min k (length H') \<and> (\<forall>i < length H. fst (H ! i) = fst (H' ! i))"
proof
  show l: "length H = min k (length H')" using assms(1-3) by (simp add: top_hits_def)
  have mem: "set H \<subseteq> set cands" "set H' \<subseteq> set cands" and d: "distinct (map fst H)" "distinct (map fst H')"
    using assms(1,2) by (auto simp: top_hits_def)
  have "i < length H \<longrightarrow> fst (H ! i) = fst (H' ! i)" for i
  proof (induction i rule: less_induct)
    case (less i)
    show ?case
    proof
      assume i: "i < length H"
      then have i': "i < length H'" using l by simp
      have same: "fst (H ! j) = fst (H' ! j)" if "j < i" for j using less that i by simp
      have "fst (H ! j) \<noteq> fst (H' ! i)" if "j < i" for j
        using same [OF that] that i' d(2) by (simp add: distinct_conv_nth)
      then have "rank_le (snd (H' ! i)) (snd (H ! i))"
        using mem(2) i' by (intro top_hits_next [OF assms(1) i]) auto
      moreover have "fst (H' ! j) \<noteq> fst (H ! i)" if "j < i" for j
        using same [OF that, symmetric] that i d(1) by (simp add: distinct_conv_nth)
      then have "rank_le (snd (H ! i)) (snd (H' ! i))"
        using mem(1) i by (intro top_hits_next [OF assms(2) i']) auto
      ultimately show "fst (H ! i) = fst (H' ! i)"
        using assms(4) mem i i' unfolding untied_candidates_def tie_def by (meson nth_mem subset_eq)
    qed
  qed
  then show "\<forall>i < length H. fst (H ! i) = fst (H' ! i)" by blast
qed

section \<open>Two pages\<close>

lemma in_drop_at: "x \<in> set (drop n xs) \<Longrightarrow> \<exists>i < length xs. n \<le> i \<and> xs ! i = x"
proof -
  assume "x \<in> set (drop n xs)"
  then obtain j where "j < length (drop n xs)" "drop n xs ! j = x" by (auto simp: in_set_conv_nth)
  then show ?thesis by (intro exI [of _ "n + j"]) auto
qed

definition page_ids :: "Search.DocumentSearch list \<Rightarrow> id set" where
  "page_ids page = hit_DocumentID ` set page"

lemma hit_pairs_ids: "hit_pairs page = hs \<Longrightarrow> page_ids page = fst ` set hs \<and> length page = length hs"
  by (force simp: hit_pairs_def page_ids_def)

lemma hit_pairs_similarity: "h \<in> set page \<Longrightarrow> (hit_DocumentID h, hit_Similarity h) \<in> set (hit_pairs page)"
  by (auto simp: hit_pairs_def)

text \<open>What two pages of one ranking have to do with each other, the second some whole pages further on.\<close>

definition pages_fit :: "nat \<Rightarrow> Search.DocumentSearch list \<Rightarrow> Search.DocumentSearch list \<Rightarrow> bool" where
  "pages_fit n page page' \<longleftrightarrow> page_ids page \<inter> page_ids page' = {} \<and> length page \<le> n
     \<and> (page' \<noteq> [] \<longrightarrow> length page = n \<and> (\<forall>h \<in> set page. \<forall>h' \<in> set page'. rank_le (hit_Similarity h') (hit_Similarity h)))"

lemma pages_of_ranking:
  assumes "top_hits (off + n) cands H" and "top_hits (off' + n) cands H'" and "off + n \<le> off'" and "untied_candidates cands"
    and "hit_pairs page = drop off H" and "hit_pairs page' = drop off' H'"
  shows "pages_fit n page page'"
proof -
  have p: "length H = min (off + n) (length H')" "\<And>i. i < length H \<Longrightarrow> fst (H ! i) = fst (H' ! i)"
    using top_hits_prefix [OF assms(1,2) _ assms(4)] assms(3) by auto
  have d: "distinct (map fst H')" and mem: "set H' \<subseteq> set cands" using assms(2) by (auto simp: top_hits_def)
  have later: "fst (H ! i) \<noteq> fst (H' ! j)" if "i < length H" "off' \<le> j" "j < length H'" for i j
  proof -
    have "i < j" using that p(1) assms(3) by simp
    then show ?thesis using p(2) [OF that(1)] d that(3) by (simp add: distinct_conv_nth)
  qed
  have at: "\<exists>i < length H. off \<le> i \<and> H ! i = x" if "x \<in> set (drop off H)" for x
    using in_drop_at [OF that] .
  have at': "\<exists>j < length H'. off' \<le> j \<and> H' ! j = x" if "x \<in> set (drop off' H')" for x
    using in_drop_at [OF that] .
  have "fst x \<noteq> fst y" if x: "x \<in> set (drop off H)" and y: "y \<in> set (drop off' H')" for x y
    using at [OF x] at' [OF y] later by blast
  then have "fst ` set (drop off H) \<inter> fst ` set (drop off' H') = {}" by blast
  then have 1: "page_ids page \<inter> page_ids page' = {}" and 2: "length page \<le> n"
    using hit_pairs_ids [OF assms(5)] hit_pairs_ids [OF assms(6)] p(1) by auto
  have 3: "length page = n" if "page' \<noteq> []"
  proof -
    have "off' < length H'" using that hit_pairs_ids [OF assms(6)] by (cases "off' < length H'") auto
    then show ?thesis using hit_pairs_ids [OF assms(5)] p(1) assms(3) by simp
  qed
  have 4: "rank_le (hit_Similarity h') (hit_Similarity h)" if h: "h \<in> set page" "h' \<in> set page'" for h h'
  proof -
    obtain i where i: "i < length H" "off \<le> i" "H ! i = (hit_DocumentID h, hit_Similarity h)"
      using at hit_pairs_similarity [OF h(1)] assms(5) by metis
    obtain j where j: "j < length H'" "off' \<le> j" "H' ! j = (hit_DocumentID h', hit_Similarity h')"
      using at' hit_pairs_similarity [OF h(2)] assms(6) by metis
    have "fst (H ! l) \<noteq> fst (H' ! j)" if "l < i" for l using later [of l j] that i(1) j by simp
    then have "rank_le (snd (H' ! j)) (snd (H ! i))" using mem j(1) by (intro top_hits_next [OF assms(1) i(1)]) auto
    then show ?thesis by (simp add: i j)
  qed
  show ?thesis using 1 2 3 4 by (simp add: pages_fit_def)
qed

lemma pages_of_tables:
  assumes "page_ok q T n off k cs page" and "page_ok q T n off' k cs page'" and "off + n \<le> off'" and "off' + n < 2 ^ 64"
    and "untied q T cs" and "distinct cs"
  shows "pages_fit n page page'"
proof -
  have s: "uint64_add n off = off + n" "uint64_add n off' = off' + n" using assms(3,4) by (simp_all add: uint64_add_def)
  obtain ids H where 1: "searched q k cs ids" "top_hits (off + n) (candidates q (embeddings_of T ids)) H" "hit_pairs page = drop off H"
    using assms(1) unfolding page_ok_def s by blast
  obtain ids' H' where 2: "searched q k cs ids'" "top_hits (off' + n) (candidates q (embeddings_of T ids')) H'" "hit_pairs page' = drop off' H'"
    using assms(2) unfolding page_ok_def s by blast
  have "\<forall>c \<in> set cs. \<forall>c' \<in> set cs. tie (similarity q (centroid_Vector c)) (similarity q (centroid_Vector c')) \<longrightarrow> c = c'"
    using assms(5) unfolding untied_def by blast
  then have "set ids = set ids'" using searched_subset 1(1) 2(1) assms(6) by (metis subset_antisym)
  then have e: "embeddings_of T ids' = embeddings_of T ids" by (simp add: embeddings_of_def)
  obtain near far where "mset (near @ far) = mset cs" "ids = map centroid_ID near" using 1(1) unfolding searched_def by blast
  then have "set ids \<subseteq> set (map centroid_ID cs)" by (metis Un_upper1 image_mono list.set_map set_append set_mset_mset)
  then have "set (embeddings_of T ids) \<subseteq> set (embeddings_of T (map centroid_ID cs))" by (auto simp: embeddings_of_def)
  then have "untied_candidates (candidates q (embeddings_of T ids))"
    using assms(5) unfolding untied_candidates_def untied_def candidates_def by (auto simp: subset_eq)
  then show ?thesis using pages_of_ranking 1(2,3) 2(2,3) assms(3) unfolding e by blast
qed

lemma page_requests_apart:
  assumes "page_request r" and "page_request r'" and "the (sr_offset r) < the (sr_offset r')"
  shows "q_Offset (received utf r) + 3 \<le> q_Offset (received utf r') \<and> q_Count (received utf r) = 3 \<and> q_Count (received utf r') = 3"
proof -
  obtain k k' where "sr_offset r = Some (k * 3)" "0 \<le> k" "sr_offset r' = Some (k' * 3)"
    using assms(1,2) by (auto simp: page_request_def itemsPerPage_def)
  then show ?thesis using assms by (simp add: received_def page_request_def itemsPerPage_def)
qed

section \<open>Properties\<close>

text \<open>
  C5: The pages the browser asks for fit together: of two requests of a run of the page for the same query and category that both succeed, the
  later page has no document of the earlier one, holds nothing better, and is empty unless the earlier page is full, which is when
  the browser offers it. It takes that both are answered from the same consistent tables with caches that agree with them (another database or
  an older cache may rank differently), that the embedding of the query is longer than its header and as long as every stored vector, that the list of
  hits can be allocated, that \<open>crypto.randomUUID\<close> is never empty and no list of categories has duplicates, and that in the searched category no two centroids and no embeddings of two documents are equally similar to
  the query: with ties a document can come twice or never.
\<close>

theorem pages_continue_ranking:
  assumes "run (page_enabled decode) (page_step uuid) (page_mount uuid stored) es = Some p" and "list_all page_event_ok es"
    and "\<And>n. uuid n \<noteq> []" and "r \<in> set (issued (page_search p))" and "r' \<in> set (issued (page_search p))"
    and "sr_category r = sr_category r'" and "sr_text r = sr_text r'" and "the (sr_offset r) < the (sr_offset r')"
    and "ai_embed [runes ''search_query: '' @ q_Text (received utf r)] = Inr (q # rest)" and "8 < length q"
    and "sorting S1" and "sorting S2" and "lawful_reads tbl D" and "tables_ok T" and "same_length q T"
    and "\<And>c. named T (q_Owner (received utf r)) (q_Category (received utf r)) c \<Longrightarrow> untied q T (centroids_of T (category_ID c))"
    and "q_Offset (received utf r') + 3 + BATCH_SIZE_DATABASE \<le> largest" and "largest < 2 ^ 63"
    and "tbl (snd s) = T" and "cache_fresh clk (fst s) T"
    and "Search D S1 S2 largest ai_embed clk (received utf r) s = (Done (Inr page), t)"
    and "tbl (snd s') = T" and "cache_fresh clk' (fst s') T"
    and "Search D S1 S2 largest ai_embed clk' (received utf r') s' = (Done (Inr page'), t')"
  shows "pages_fit 3 page page'"
proof -
  have inv: "page_inv decode uuid (first_owner uuid stored) p" by (rule whole_page.run_inv [OF assms(1,2)])
  then have rq: "page_request r" "page_request r'" "sr_owner r = sr_owner r'" "sr_centroids r' = sr_centroids r"
    using assms(3-5) by (auto simp: page_inv_def search_inv_def owner_settled_def requests_of_def list_all_iff)
  then have o: "q_Offset (received utf r) + 3 \<le> q_Offset (received utf r')" "q_Count (received utf r) = 3" "q_Count (received utf r') = 3"
    using page_requests_apart [of r r' utf] assms(8) by simp_all
  have same: "q_Owner (received utf r') = q_Owner (received utf r)" "q_Category (received utf r') = q_Category (received utf r)"
      "q_Text (received utf r') = q_Text (received utf r)"
    using rq(3) assms(6,7) by (simp_all add: received_def)
  have c: "clamp_count 3 = 3" by (simp add: clamp_count_def)
  have cap: "uint64_add (uint64_add (clamp_count (q_Count (received utf r))) (q_Offset (received utf r))) BATCH_SIZE_DATABASE \<le> largest"
      "uint64_add (uint64_add (clamp_count (q_Count (received utf r'))) (q_Offset (received utf r'))) BATCH_SIZE_DATABASE \<le> largest"
    using o assms(17,18) by (simp_all add: c uint64_add_def)
  have 1: "search_answer q T (received utf r) page"
    using Search_answer [where tbl = tbl and s = s, OF assms(9-13) _ _ _ cap(1) assms(21)] assms(14,15,19,20) by simp
  have e': "ai_embed [runes ''search_query: '' @ q_Text (received utf r')] = Inr (q # rest)" using assms(9) same(3) by simp
  have 2: "search_answer q T (received utf r') page'"
    using Search_answer [where tbl = tbl and s = s', OF e' assms(10-13) _ _ _ cap(2) assms(24)] assms(14,15,22,23) by simp
  have k: "q_Centroids (received utf r') = q_Centroids (received utf r)"
    using rq(4) by (simp add: received_def)
  show ?thesis
  proof (cases "\<exists>c. named T (q_Owner (received utf r)) (q_Category (received utf r)) c \<and> centroids_of T (category_ID c) \<noteq> []")
    case True
    then obtain c1 c2 where n: "named T (q_Owner (received utf r)) (q_Category (received utf r)) c1"
        "page_ok q T 3 (q_Offset (received utf r)) (clamp_centroids (q_Centroids (received utf r))) (centroids_of T (category_ID c1)) page"
        "named T (q_Owner (received utf r)) (q_Category (received utf r)) c2"
        "page_ok q T 3 (q_Offset (received utf r')) (clamp_centroids (q_Centroids (received utf r))) (centroids_of T (category_ID c2)) page'"
      using 1 2 unfolding search_answer_def same k o(2,3) c by auto
    have "c2 = c1" using named_unique [OF _ n(3,1)] assms(14) by (simp add: tables_ok_def)
    moreover have "distinct (centroids_of T (category_ID c1))"
      using assms(14) by (auto simp: centroids_of_def tables_ok_def keys_ok_def distinct_map)
    moreover have "q_Offset (received utf r') + 3 < 2 ^ 64" using assms(17,18) by simp
    ultimately show ?thesis using pages_of_tables n(2,4) o(1) assms(16) [OF n(1)] by metis
  next
    case False
    then have "page = []" "page' = []" using 1 2 unfolding search_answer_def same by auto
    then show ?thesis by (simp add: pages_fit_def page_ids_def)
  qed
qed

text \<open>
  Four documents whose vectors have one component, the first number of the header: 1, 0, -1 and NaN. Their similarities to the vector of
  1 are these numbers.
\<close>

lemma isqrt_square: "0 \<le> n \<Longrightarrow> isqrt (n * n) = n"
proof -
  assume n: "0 \<le> n"
  have b: "0 \<le> isqrt (n * n)" "isqrt (n * n) * isqrt (n * n) \<le> n * n" "n * n < (isqrt (n * n) + 1) * (isqrt (n * n) + 1)"
    using isqrt_bounds [of "n * n"] n by simp_all
  have "isqrt (n * n) \<le> n" using b n by (metis mult_strict_mono' not_le)
  moreover have "n < isqrt (n * n) + 1" using b n by (meson mult_mono not_le add_nonneg_nonneg zero_le_one order_trans)
  ultimately show ?thesis by simp
qed

lemma ilog2_1: "ilog2 1 = 0"
  by (rule ilog2_unique) (simp_all add: pow2_def)

lemma round_sqrt_1: "round_sqrt F64 1 = 1"
proof -
  have q: "pow2 (- 52) = 1 / 2 ^ 52" by (simp add: pow2_def)
  have i: "isqrt (2 ^ 104) = 2 ^ 52" using isqrt_square [of "2 ^ 52"] by simp
  show ?thesis using i by (simp add: round_sqrt_def sqrt_exp_def ilog2_1 q Let_def)
qed

definition level :: "u32 \<Rightarrow> u8 list" where
  "level w = PutUint32 w @ PutUint32 w @ [0]"

lemma length_level [simp]: "length (level w) = 9"
  by (simp add: level_def)

lemma vector_of_level: "vector_of (level w) = [Dequantize F64 0 (fl_conv F64 (Float32frombits w)) (fl_conv F64 (Float32frombits w))]"
proof -
  have d: "drop 4 (level w) = PutUint32 w @ [0]" "drop 8 (level w) = [0]" by (simp_all add: level_def)
  show ?thesis unfolding vector_of_def DequantizeVector_def d by (simp add: level_def)
qed

lemma level_bits: "Float32frombits 0x3F800000 = Fin 1" "Float32frombits 0xBF800000 = Fin (-1)" "Float32frombits 0 = Fin 0" "Float32frombits 0x7FC00000 = NaN"
  by (simp_all add: Float32frombits_def pow2_def signed_zero_def)

lemma mk_units: "mk f 1 = Fin 1" "mk f (-1) = Fin (-1)"
  using mk_representable [OF representable_1 [of f]] mk_representable [of f "-1"] representable_1 [of f] by (simp_all add: representable_def)

lemma level_vectors:
  "vector_of (level 0x3F800000) = [Fin 1]" "vector_of (level 0xBF800000) = [Fin (-1)]" "vector_of (level 0) = [Fin 0]" "vector_of (level 0x7FC00000) = [NaN]"
  by (simp_all add: vector_of_level level_bits mk_units Dequantize_def fl_add_def fl_sub_def fl_mul_def fl_div_def signed_zero_def)

lemma level_similarity:
  "similarity (level 0x3F800000) (level 0x3F800000) = Fin 1" "similarity (level 0x3F800000) (level 0xBF800000) = Fin (-1)"
  "similarity (level 0x3F800000) (level 0) = Fin 0" "similarity (level 0x3F800000) (level 0x7FC00000) = NaN"
  by (simp_all add: similarity_def level_vectors normalizeVector_def norm_of_def round_sqrt_1 mk_units dot_def
    fl_add_def fl_sub_def fl_mul_def fl_div_def fl_eq_def signed_zero_def)

definition page_document :: "id \<Rightarrow> Document" where
  "page_document n = \<lparr>document_ID = n, document_Name = [99], document_ExternalID = [], document_Document = None, document_CategoryID = 1\<rparr>"

definition page_embedding :: "id \<Rightarrow> u32 \<Rightarrow> Embedding" where
  "page_embedding n w = \<lparr>embedding_ID = n, embedding_Vector = level w, embedding_DocumentID = n, embedding_CentroidID = 1\<rparr>"

definition page_tables :: tables where
  "page_tables = \<lparr>t_owners = [\<lparr>owner_ID = 1, owner_Name = [1]\<rparr>],
     t_categories = [\<lparr>category_ID = 1, category_Name = [98], category_OwnerID = 1\<rparr>],
     t_centroids = [\<lparr>centroid_ID = 1, centroid_Vector = level 0x3F800000, centroid_CategoryID = 1\<rparr>],
     t_documents = map page_document [1, 2, 3, 4],
     t_embeddings = [page_embedding 1 0, page_embedding 2 0x7FC00000, page_embedding 3 0x3F800000, page_embedding 4 0xBF800000], t_next = 5\<rparr>"

lemma page_tables_ok: "tables_ok page_tables \<and> same_length (level 0x3F800000) page_tables"
  by (simp add: page_tables_def page_document_def page_embedding_def tables_ok_def keys_ok_def indexes_ok_def references_ok_def same_category_def
    same_length_def id_sets)

lemma page_tables_untied: "untied (level 0x3F800000) page_tables (centroids_of page_tables 1)"
  by (simp add: untied_def page_tables_def centroids_of_def embeddings_of_def page_embedding_def level_similarity tie_def rank_le_def fl_rank_def)

lemma page_tables_named: "named page_tables [Suc 0] [98] c \<longleftrightarrow> c = \<lparr>category_ID = 1, category_Name = [98], category_OwnerID = 1\<rparr>"
  by (auto simp: named_def page_tables_def)

lemma page_tables_page:
  assumes "search_answer (level 0x3F800000) page_tables req page" and "q_Owner req = [Suc 0]" and "q_Category req = [98]" and "q_Centroids req = 0"
    and "q_Count req = 3" and "q_Offset req \<le> 3"
  shows "length page = min (3 + q_Offset req) 4 - q_Offset req"
proof -
  have cs: "centroids_of page_tables (Suc 0) = t_centroids page_tables" by (simp add: page_tables_def centroids_of_def)
  have lim: "uint64_add (clamp_count 3) (q_Offset req) = 3 + q_Offset req" using assms(6) by (simp add: uint64_add_def clamp_count_def)
  have "\<exists>c. named page_tables [Suc 0] [98] c \<and> centroids_of page_tables (category_ID c) \<noteq> []"
    unfolding page_tables_named by (simp add: centroids_of_def page_tables_def)
  then obtain ids H where i: "searched (level 0x3F800000) (clamp_centroids 0) (t_centroids page_tables) ids"
      and H: "top_hits (3 + q_Offset req) (candidates (level 0x3F800000) (embeddings_of page_tables ids)) H" "hit_pairs page = drop (q_Offset req) H"
    using assms(1) unfolding search_answer_def page_ok_def assms(2-5) page_tables_named lim by (fastforce simp: cs)
  have "ids = [1]" using i by (auto simp: searched_def page_tables_def clamp_centroids_def length_Suc_conv)
  then have "fst ` set (candidates (level 0x3F800000) (embeddings_of page_tables ids)) = {1, 2, 3, 4}"
    by (auto simp: candidates_def embeddings_of_def page_tables_def page_embedding_def)
  then have "length H = min (3 + q_Offset req) 4" using H(1) by (simp add: top_hits_def)
  moreover have "length page = length (hit_pairs page)" by (simp add: hit_pairs_def)
  ultimately show ?thesis using H(2) by simp
qed

definition two_pages_events :: "jsstr page_event list" where
  "two_pages_events =
     [InCategories (CategoriesArrive (Response True [] (BodyJson \<lparr>category_names = Some [[98]]\<rparr>))), InSearch PressSearch,
      InSearch (SearchArrives 0 example_page), InSearch PressNext]"

definition code_units :: "jsstr \<Rightarrow> gotext" where
  "code_units t = map unat t"

abbreviation page_search_of :: "UiApi.SearchRequest \<Rightarrow> (error + Search.DocumentSearch list) outcome \<times> memory server" where
  "page_search_of r \<equiv> Search memory_store insertionSort insertionSort 5000 (\<lambda>_. Inr [level 0x3F800000]) (\<lambda>_. 0) (received code_units r)
     (NewCache, \<lparr>mem = page_tables, script = []\<rparr>)"

lemma page_search_succeeds:
  assumes "sr_owner r = [1]" and "sr_category r = [98]" and "sr_centroids r = None" and "sr_count r = 3" and "sr_offset r = Some k"
    and "0 \<le> k" and "k \<le> 3"
  shows "\<exists>page t. page_search_of r = (Done (Inr page), t) \<and> length page = min (3 + nat k) 4 - nat k"
proof -
  let ?s = "(NewCache, \<lparr>mem = page_tables, script = []\<rparr>) :: memory server"
  let ?ai = "(\<lambda>_. Inr [level 0x3F800000]) :: gotext list \<Rightarrow> error + u8 list list"
  let ?r = "received code_units r"
  have e: "?ai [runes ''search_query: '' @ q_Text ?r] = Inr (level 0x3F800000 # [])" by simp
  have t: "tables_ok (mem (snd ?s))" "same_length (level 0x3F800000) (mem (snd ?s))" "cache_fresh (\<lambda>_. 0) (fst ?s) (mem (snd ?s))"
    using page_tables_ok by simp_all
  have cap: "uint64_add (uint64_add (clamp_count (q_Count ?r)) (q_Offset ?r)) BATCH_SIZE_DATABASE \<le> 5000"
    using assms by (simp add: received_def clamp_count_def uint64_add_def BATCH_SIZE_DATABASE_def)
  obtain page where "fst (page_search_of r) = Done (Inr page)"
    using Search_succeeds [where tbl = mem and I = "\<lambda>d. script d = []" and s = ?s and ai_embed = ?ai and req = ?r,
      OF e _ insertionSort_sorting insertionSort_sorting memory_reads memory_steady t(3,1,2) cap] by auto
  then obtain u where run: "page_search_of r = (Done (Inr page), u)" by (metis prod.collapse)
  have "search_answer (level 0x3F800000) page_tables ?r page"
    using Search_answer [where tbl = mem and s = ?s, OF e _ insertionSort_sorting insertionSort_sorting memory_reads t(3,1,2) cap run] by simp
  then have "length page = min (3 + q_Offset ?r) 4 - q_Offset ?r"
    by (rule page_tables_page) (use assms in \<open>simp_all add: received_def code_units_def\<close>)
  then show ?thesis using run assms(5) by (simp add: received_def)
qed

theorem pages_continue_ranking_witness:
  "\<exists>p. run (page_enabled plain_decode) (page_step example_uuid) (page_mount example_uuid None) two_pages_events = Some p
    \<and> (\<exists>page page'. fst (page_search_of (issued (page_search p) ! 0)) = Done (Inr page)
      \<and> fst (page_search_of (issued (page_search p) ! 1)) = Done (Inr page')
      \<and> length page = 3 \<and> length page' = 1 \<and> pages_fit 3 page page')"
proof -
  let ?s = "(NewCache, \<lparr>mem = page_tables, script = []\<rparr>) :: memory server"
  let ?ai = "(\<lambda>_. Inr [level 0x3F800000]) :: gotext list \<Rightarrow> error + u8 list list"
  obtain p where run: "run (page_enabled plain_decode) (page_step example_uuid) (page_mount example_uuid None) two_pages_events = Some p"
      and i: "issued (page_search p) =
        [\<lparr>sr_owner = [1], sr_category = [98], sr_prefix = Some [98], sr_text = [], sr_count = 3, sr_offset = Some 0, sr_centroids = None\<rparr>,
         \<lparr>sr_owner = [1], sr_category = [98], sr_prefix = Some [98], sr_text = [], sr_count = 3, sr_offset = Some 3, sr_centroids = None\<rparr>]"
    by (simp add: two_pages_events_def example_page_def page_mount_def App_render_def App_owner_def app_mount_def search_init_def settle_def
      pass_category_def trim_def example_uuid_def ui_defs)
  let ?r = "issued (page_search p) ! 0" and ?r' = "issued (page_search p) ! 1"
  have ok: "list_all page_event_ok two_pages_events" by (simp add: two_pages_events_def settle_def)
  have u: "example_uuid n \<noteq> []" for n by (simp add: example_uuid_def)
  have r: "?r \<in> set (issued (page_search p))" "?r' \<in> set (issued (page_search p))" "sr_category ?r = sr_category ?r'"
      "sr_text ?r = sr_text ?r'" "the (sr_offset ?r) < the (sr_offset ?r')"
    by (simp_all add: i)
  have e: "?ai [runes ''search_query: '' @ q_Text (received code_units ?r)] = Inr (level 0x3F800000 # [])" "8 < length (level 0x3F800000)" by simp_all
  have n: "untied (level 0x3F800000) page_tables (centroids_of page_tables (category_ID c))"
    if "named page_tables (q_Owner (received code_units ?r)) (q_Category (received code_units ?r)) c" for c
  proof -
    have "named page_tables [Suc 0] [98] c" using that by (simp add: i received_def code_units_def)
    then show ?thesis using page_tables_untied by (simp add: page_tables_named)
  qed
  have l: "q_Offset (received code_units ?r') + 3 + BATCH_SIZE_DATABASE \<le> 5000" "(5000 :: nat) < 2 ^ 63"
    by (simp_all add: i received_def BATCH_SIZE_DATABASE_def)
  have f: "mem (snd ?s) = page_tables" "cache_fresh (\<lambda>_. 0) (fst ?s) page_tables" by simp_all
  obtain page t where 1: "page_search_of ?r = (Done (Inr page), t)" "length page = 3"
    using page_search_succeeds [of ?r 0] by (auto simp: i)
  obtain page' t' where 2: "page_search_of ?r' = (Done (Inr page'), t')" "length page' = 1"
    using page_search_succeeds [of ?r' 3] by (auto simp: i)
  have "pages_fit 3 page page'"
    by (rule pages_continue_ranking [where tbl = mem and s = ?s and s' = ?s and ai_embed = ?ai,
      OF run ok u r e insertionSort_sorting insertionSort_sorting memory_reads conjunct1 [OF page_tables_ok] conjunct2 [OF page_tables_ok] n l
        f 1(1) f 2(1)])
  then show ?thesis using run 1 2 by (intro exI [of _ p] conjI exI [of _ page] exI [of _ page']) simp_all
qed

end
