(* ===== verification/HttpClient.thy ===== *)
theory HttpClient
  imports Format Machine
begin

text \<open>
  \<open>ai/httpclient\<close>: the addresses of a provider of language models, of which every request takes one with the fewest open requests, and the
  manager of the HTTP clients, which replaces a client after a number of requests and closes the old one after its last. Goroutines use
  both at the same time; what a mutex protects is one step of a machine.
\<close>

section \<open>Addresses of a provider\<close>

text \<open>A pointer to \<open>httpurl\<close> is its number. The provider is the slice of its addresses.\<close>

record httpurl =
  hu_id :: nat
  hu_uri :: gotext
  connections :: int

definition MaxInt64 :: int where "MaxInt64 = 2 ^ 63 - 1"

text \<open>\<open>rand.Shuffle\<close> calls its argument with pairs of indexes, which are an argument here.\<close>

definition shuffle :: "(nat \<times> nat) list \<Rightarrow> 'a list \<Rightarrow> 'a list" where
  "shuffle swaps xs = foldl (\<lambda>xs (i, j). xs[i := xs ! j, j := xs ! i]) xs swaps"

fun lowest :: "httpurl option \<Rightarrow> int \<Rightarrow> httpurl list \<Rightarrow> httpurl option" where
  "lowest lowestConnections lowestCount [] = lowestConnections"
| "lowest lowestConnections lowestCount (u # us) =
     (if connections u < lowestCount then lowest (Some u) (connections u) us else lowest lowestConnections lowestCount us)"

definition add_connections :: "nat \<Rightarrow> int \<Rightarrow> httpurl list \<Rightarrow> httpurl list" where
  "add_connections i n = map (\<lambda>u. if hu_id u = i then u\<lparr>connections := connections u + n\<rparr> else u)"

text \<open>The address and the pointer that its \<open>done\<close> holds on to; nothing for a provider without addresses.\<close>

definition Url :: "(nat \<times> nat) list \<Rightarrow> httpurl list \<Rightarrow> (gotext \<times> nat) option outcome \<times> httpurl list" where
  "Url swaps us =
     (if us = [] then (Done None, us)
      else case lowest None MaxInt64 (shuffle swaps us) of
             None \<Rightarrow> (Panic ''nil pointer dereference'', shuffle swaps us)
           | Some u \<Rightarrow> (Done (Some (hu_uri u, hu_id u)), add_connections (hu_id u) 1 (shuffle swaps us)))"

definition UrlDone :: "nat \<Rightarrow> httpurl list \<Rightarrow> httpurl list" where
  "UrlDone i us = add_connections i (-1) us"

text \<open>\<open>NewProvider\<close> on the list of addresses: empty ones are skipped, at least one is needed. \<open>url.Parse\<close> is an argument.\<close>

fun parse_urls :: "(gotext \<Rightarrow> error + gotext) \<Rightarrow> httpurl list \<Rightarrow> gotext list \<Rightarrow> error + httpurl list" where
  "parse_urls url_Parse uri [] = Inr uri"
| "parse_urls url_Parse uri (cfgUrl # cfgUrls) =
     (if cfgUrl = [] then parse_urls url_Parse uri cfgUrls
      else case url_Parse cfgUrl of
             Inl e \<Rightarrow> Inl (errors_Join (errors_New ''unable to parse ollama url'') e)
           | Inr u \<Rightarrow> parse_urls url_Parse (uri @ [\<lparr>hu_id = length uri, hu_uri = u, connections = 0\<rparr>]) cfgUrls)"

definition NewProvider :: "(gotext \<Rightarrow> error + gotext) \<Rightarrow> gotext list \<Rightarrow> error + httpurl list" where
  "NewProvider url_Parse ApiBase =
     (case parse_urls url_Parse [] ApiBase of
        Inl e \<Rightarrow> Inl e
      | Inr uri \<Rightarrow> if length uri = 0 then Inl (errors_New ''AI provider url missing'') else Inr uri)"

section \<open>Open requests\<close>

record provider =
  urls :: "httpurl list"
  open_requests :: "nat list" \<comment> \<open>the pointers whose \<open>done\<close> has not been called\<close>

datatype provider_event = Acquire "(nat \<times> nat) list" | Finished nat

fun provider_enabled :: "provider \<Rightarrow> provider_event \<Rightarrow> bool" where
  "provider_enabled p (Acquire swaps) = (\<forall>(i, j) \<in> set swaps. i < length (urls p) \<and> j < length (urls p))"
| "provider_enabled p (Finished i) = (i \<in> set (open_requests p))"

fun provider_step :: "provider \<Rightarrow> provider_event \<Rightarrow> provider" where
  "provider_step p (Acquire swaps) =
     (case Url swaps (urls p) of
        (Done (Some (_, i)), us) \<Rightarrow> p\<lparr>urls := us, open_requests := i # open_requests p\<rparr>
      | (_, us) \<Rightarrow> p\<lparr>urls := us\<rparr>)"
| "provider_step p (Finished i) = p\<lparr>urls := UrlDone i (urls p), open_requests := remove1 i (open_requests p)\<rparr>"

definition provider_inv :: "provider \<Rightarrow> bool" where
  "provider_inv p \<longleftrightarrow> distinct (map hu_id (urls p)) \<and> set (open_requests p) \<subseteq> hu_id ` set (urls p)
     \<and> (\<forall>u \<in> set (urls p). connections u = int (count_list (open_requests p) (hu_id u)))"

lemma mset_shuffle: "\<forall>(i, j) \<in> set swaps. i < length xs \<and> j < length xs \<Longrightarrow> mset (shuffle swaps xs) = mset xs"
proof (induction swaps arbitrary: xs)
  case (Cons s swaps)
  obtain i j where s: "s = (i, j)" by fastforce
  have "mset (xs[i := xs ! j, j := xs ! i]) = mset xs" using Cons.prems by (intro mset_swap) (auto simp: s)
  moreover have "shuffle (s # swaps) xs = shuffle swaps (xs[i := xs ! j, j := xs ! i])" by (simp add: shuffle_def s)
  moreover have "mset (shuffle swaps (xs[i := xs ! j, j := xs ! i])) = mset (xs[i := xs ! j, j := xs ! i])"
    using Cons.prems by (intro Cons.IH) simp
  ultimately show ?case by simp
qed (simp add: shuffle_def)

lemma lowest_spec:
  "lowest b n us = r \<Longrightarrow>
     r = b \<and> (\<forall>u \<in> set us. n \<le> connections u)
     \<or> (\<exists>u. r = Some u \<and> u \<in> set us \<and> connections u < n \<and> (\<forall>v \<in> set us. connections u \<le> connections v))"
proof (induction b n us rule: lowest.induct)
  case (2 b n u us)
  show ?case
  proof (cases "connections u < n")
    case True
    then have "lowest (Some u) (connections u) us = r" using "2.prems" by simp
    from "2.IH"(1) [OF True this] show ?thesis using True by (auto intro: order_trans)
  next
    case False
    then have "lowest b n us = r" using "2.prems" by simp
    from "2.IH"(2) [OF False this] show ?thesis using False by auto
  qed
qed simp

lemma add_connections_simps [simp]:
  "map hu_id (add_connections i n us) = map hu_id us" "length (add_connections i n us) = length us"
  "hu_id ` set (add_connections i n us) = hu_id ` set us"
  by (induction us) (auto simp: add_connections_def)

lemma add_connections_counted:
  assumes "\<forall>u \<in> set us. connections u = f (hu_id u)"
  shows "\<forall>u \<in> set (add_connections i n us). connections u = f (hu_id u) + (if hu_id u = i then n else 0)"
  using assms by (auto simp: add_connections_def)

lemma count_list_remove1: "count_list (remove1 x xs) y = count_list xs y - (if x = y then 1 else 0)"
  by (induction xs) auto

lemma count_list_pos: "x \<in> set xs \<Longrightarrow> 0 < count_list xs x"
  by (metis count_list_0_iff gr0I)

text \<open>The address an acquired request gets.\<close>

lemma Url_picks:
  assumes "provider_inv p" and "provider_enabled p (Acquire swaps)" and "urls p \<noteq> []" and "int (length (open_requests p)) < MaxInt64"
  shows "\<exists>u \<in> set (urls p). Url swaps (urls p) = (Done (Some (hu_uri u, hu_id u)), add_connections (hu_id u) 1 (shuffle swaps (urls p)))
    \<and> (\<forall>v \<in> set (urls p). connections u \<le> connections v)"
proof -
  let ?us = "shuffle swaps (urls p)"
  have m: "mset ?us = mset (urls p)" using assms(2) by (intro mset_shuffle) simp
  then have s: "set ?us = set (urls p)" by (metis set_mset_mset)
  have small: "connections v < MaxInt64" if "v \<in> set (urls p)" for v
    using assms(1,4) that count_le_length [of "open_requests p" "hu_id v"] by (fastforce simp: provider_inv_def)
  obtain v where "v \<in> set ?us" using assms(3) s by (metis last_in_set)
  then obtain u where "lowest None MaxInt64 ?us = Some u" "u \<in> set ?us" "\<forall>v \<in> set ?us. connections u \<le> connections v"
    using lowest_spec [of None MaxInt64 ?us] small s by fastforce
  then show ?thesis using assms(3) s by (auto simp: Url_def)
qed

lemma provider_step_inv:
  assumes "provider_inv p" and "provider_enabled p e"
  shows "provider_inv (provider_step p e)"
proof (cases e)
  case (Acquire swaps)
  let ?us = "shuffle swaps (urls p)"
  have m: "mset ?us = mset (urls p)" using assms(2) Acquire by (intro mset_shuffle) simp
  then have s: "set ?us = set (urls p)" by (metis set_mset_mset)
  have d: "distinct (map hu_id ?us)" using assms(1) m by (metis provider_inv_def mset_map mset_eq_imp_distinct_iff)
  have c: "\<forall>u \<in> set ?us. connections u = int (count_list (open_requests p) (hu_id u))" using assms(1) s by (simp add: provider_inv_def)
  show ?thesis
  proof (cases "lowest None MaxInt64 ?us")
    case None
    then show ?thesis using assms(1) d c s by (auto simp: Acquire Url_def provider_inv_def)
  next
    case (Some u)
    then have "u \<in> set ?us" using lowest_spec [of None MaxInt64 ?us] by auto
    then have u: "hu_id u \<in> hu_id ` set (urls p)" using s by blast
    have "\<forall>v \<in> set (add_connections (hu_id u) 1 ?us). connections v = int (count_list (hu_id u # open_requests p) (hu_id v))"
      using add_connections_counted [OF c, of "hu_id u" 1] by auto
    then show ?thesis using assms(1) d s u Some by (cases "urls p = []") (auto simp: Acquire Url_def provider_inv_def)
  qed
next
  case (Finished i)
  then have i: "i \<in> set (open_requests p)" using assms(2) by simp
  have c: "\<forall>u \<in> set (urls p). connections u = int (count_list (open_requests p) (hu_id u))" using assms(1) by (simp add: provider_inv_def)
  have "\<forall>u \<in> set (add_connections i (-1) (urls p)). connections u = int (count_list (remove1 i (open_requests p)) (hu_id u))"
    using add_connections_counted [OF c, of i "-1"] count_list_pos [OF i] by (auto simp: count_list_remove1 of_nat_diff)
  then show ?thesis using assms(1) by (auto simp: Finished UrlDone_def provider_inv_def dest: in_set_remove1 [THEN iffD1, rotated] notin_set_remove1)
qed

lemma parse_urls_fresh:
  assumes "parse_urls url_Parse uri bases = Inr us" and "map hu_id uri = [0..<length uri]" and "\<forall>u \<in> set uri. connections u = 0"
  shows "map hu_id us = [0..<length us] \<and> (\<forall>u \<in> set us. connections u = 0)"
  using assms
  by (induction url_Parse uri bases rule: parse_urls.induct) (auto split: if_splits sum.splits)

definition provider_start :: "httpurl list \<Rightarrow> provider" where
  "provider_start us = \<lparr>urls = us, open_requests = []\<rparr>"

lemma NewProvider_inv: "NewProvider url_Parse bases = Inr us \<Longrightarrow> provider_inv (provider_start us) \<and> us \<noteq> []"
  using parse_urls_fresh [of url_Parse "[]" bases us]
  by (auto simp: NewProvider_def provider_start_def provider_inv_def split: sum.splits if_splits)

lemma length_shuffle [simp]: "length (shuffle swaps xs) = length xs"
  by (induction swaps arbitrary: xs) (auto simp: shuffle_def)

lemma provider_step_length: "length (urls (provider_step p e)) = length (urls p)"
  by (cases e) (auto simp: Url_def UrlDone_def split: option.splits)

interpretation provider_machine: invariant provider_enabled provider_step "provider_start us" "\<lambda>_. True"
  "\<lambda>p. provider_inv (provider_start us) \<longrightarrow> provider_inv p \<and> length (urls p) = length us"
  for us
  by unfold_locales (auto simp: provider_step_inv provider_step_length provider_start_def)

lemma sum_count_list:
  "finite A \<Longrightarrow> set xs \<subseteq> A \<Longrightarrow> (\<Sum>a \<in> A. count_list xs a) = length xs"
proof (induction xs)
  case (Cons x xs)
  have "(\<Sum>a \<in> A. count_list (x # xs) a) = (\<Sum>a \<in> A. count_list xs a + (if a = x then 1 else 0))"
    by (rule sum.cong) auto
  also have "\<dots> = (\<Sum>a \<in> A. count_list xs a) + 1" using Cons.prems by (simp add: sum.distrib)
  finally show ?case using Cons by simp
qed simp

lemma least_share:
  assumes "provider_inv p" and "\<forall>v \<in> set (urls p). n \<le> connections v"
  shows "int (length (urls p)) * n \<le> int (length (open_requests p))"
proof -
  let ?A = "hu_id ` set (urls p)"
  have d: "distinct (map hu_id (urls p))" and o: "set (open_requests p) \<subseteq> ?A" using assms(1) by (simp_all add: provider_inv_def)
  have "card ?A = length (urls p)" using d by (metis distinct_card length_map list.set_map)
  then have "int (length (urls p)) * n = (\<Sum>a \<in> ?A. n)" by simp
  also have "\<dots> \<le> (\<Sum>a \<in> ?A. int (count_list (open_requests p) a))"
    using assms by (intro sum_mono) (auto simp: provider_inv_def)
  also have "\<dots> = int (length (open_requests p))" using sum_count_list [OF _ o] by (simp flip: of_nat_sum)
  finally show ?thesis .
qed

text \<open>
  C23: Every request of a provider goes to an address with the fewest open requests, whatever requests are open and however the addresses
  are shuffled: the counter of an address is the number of its requests that have not ended, and the chosen one carries no more than its share of them.
\<close>

theorem least_loaded_address:
  assumes "NewProvider url_Parse bases = Inr us" and "run provider_enabled provider_step (provider_start us) es = Some p"
    and "provider_enabled p (Acquire swaps)" and "int (length (open_requests p)) < MaxInt64"
  shows "\<exists>u \<in> set (urls p). fst (Url swaps (urls p)) = Done (Some (hu_uri u, hu_id u))
    \<and> (\<forall>v \<in> set (urls p). connections u \<le> connections v)
    \<and> connections u = int (count_list (open_requests p) (hu_id u))
    \<and> int (length (urls p)) * connections u \<le> int (length (open_requests p))"
proof -
  have p: "provider_inv p" "urls p \<noteq> []"
    using provider_machine.run_inv [OF assms(2)] NewProvider_inv [OF assms(1)] by (auto simp: list_all_iff)
  obtain u where u: "u \<in> set (urls p)" "Url swaps (urls p) = (Done (Some (hu_uri u, hu_id u)), add_connections (hu_id u) 1 (shuffle swaps (urls p)))"
      "\<forall>v \<in> set (urls p). connections u \<le> connections v"
    using Url_picks [OF p(1) assms(3) p(2) assms(4)] by blast
  then show ?thesis using least_share [OF p(1) u(3)] p(1) by (intro bexI [OF _ u(1)]) (auto simp: provider_inv_def)
qed

theorem least_loaded_address_witness:
  "\<exists>us p. NewProvider Inr [[97], [], [98]] = Inr us \<and> run provider_enabled provider_step (provider_start us) [Acquire [(0, 1)], Acquire []] = Some p
    \<and> (\<exists>u \<in> set (urls p). fst (Url [] (urls p)) = Done (Some (hu_uri u, hu_id u)) \<and> connections u = 1)"
proof -
  let ?us = "[\<lparr>hu_id = 0, hu_uri = [97], connections = 0\<rparr>, \<lparr>hu_id = 1, hu_uri = [98], connections = 0\<rparr>]"
  let ?p = "\<lparr>urls = [\<lparr>hu_id = 1, hu_uri = [98], connections = 1\<rparr>, \<lparr>hu_id = 0, hu_uri = [97], connections = 1\<rparr>], open_requests = [0, 1]\<rparr>"
  have n: "NewProvider Inr [[97], [], [98]] = Inr ?us" by (simp add: NewProvider_def)
  have r: "run provider_enabled provider_step (provider_start ?us) [Acquire [(0, 1)], Acquire []] = Some ?p"
    by (simp add: provider_start_def Url_def shuffle_def add_connections_def MaxInt64_def)
  have "\<exists>u \<in> set (urls ?p). fst (Url [] (urls ?p)) = Done (Some (hu_uri u, hu_id u)) \<and> connections u = int (count_list (open_requests ?p) (hu_id u))"
    using least_loaded_address [OF n r, of "[]"] by (auto simp: MaxInt64_def)
  then have "\<exists>u \<in> set (urls ?p). fst (Url [] (urls ?p)) = Done (Some (hu_uri u, hu_id u)) \<and> connections u = 1" by auto
  then show ?thesis using n r by blast
qed

section \<open>The manager of the clients\<close>

definition HTTP_CLIENT_MAX_REQUESTS :: nat where "HTTP_CLIENT_MAX_REQUESTS = 500"

record clientInstance =
  ci_address :: gotext
  ci_dialled :: bool \<comment> \<open>\<open>close\<close> is set\<close>
  ci_closed :: bool
  activeRequests :: int
  totalRequests :: nat

text \<open>Where a goroutine is that wants a client: the map has been read, a new client is not saved yet, a client is in use.\<close>

datatype caller = Idle | Looked gotext "nat option" | Saving nat | Holding nat

record manager =
  instances :: "clientInstance list"
  clients :: "gotext \<rightharpoonup> nat"
  callers :: "caller list"

definition new_client :: "gotext \<Rightarrow> clientInstance" where
  "new_client address = \<lparr>ci_address = address, ci_dialled = False, ci_closed = False, activeRequests = 1, totalRequests = 1\<rparr>"

definition may_take :: "clientInstance \<Rightarrow> bool" where
  "may_take c \<longleftrightarrow> totalRequests c < HTTP_CLIENT_MAX_REQUESTS"

definition take_client :: "clientInstance \<Rightarrow> clientInstance" where
  "take_client c = c\<lparr>totalRequests := totalRequests c + 1, activeRequests := activeRequests c + 1\<rparr>"

definition Close :: "clientInstance \<Rightarrow> clientInstance" where
  "Close c =
     (let c' = c\<lparr>activeRequests := activeRequests c - 1\<rparr>
      in if activeRequests c' \<le> 0 \<and> HTTP_CLIENT_MAX_REQUESTS \<le> totalRequests c' \<and> ci_dialled c' then c'\<lparr>ci_closed := True\<rparr> else c')"

text \<open>\<open>GetHttpClient\<close> in the parts its locks make atomic, the dialling of a connection, and \<open>Close\<close>.\<close>

datatype manager_event = Lookup nat gotext | Take nat | Save nat | Dial nat | CloseClient nat

definition uses :: "nat \<Rightarrow> caller \<Rightarrow> bool" where
  "uses i k \<longleftrightarrow> k = Saving i \<or> k = Holding i"

fun manager_enabled :: "manager \<Rightarrow> manager_event \<Rightarrow> bool" where
  "manager_enabled m (Lookup t address) = (t < length (callers m) \<and> callers m ! t = Idle)"
| "manager_enabled m (Take t) = (t < length (callers m) \<and> (case callers m ! t of Looked _ _ \<Rightarrow> True | _ \<Rightarrow> False))"
| "manager_enabled m (Save t) = (t < length (callers m) \<and> (case callers m ! t of Saving _ \<Rightarrow> True | _ \<Rightarrow> False))"
| "manager_enabled m (Dial t) = (t < length (callers m) \<and> (case callers m ! t of Holding _ \<Rightarrow> True | _ \<Rightarrow> False))"
| "manager_enabled m (CloseClient t) = (t < length (callers m) \<and> (case callers m ! t of Holding _ \<Rightarrow> True | _ \<Rightarrow> False))"

definition create_client :: "nat \<Rightarrow> gotext \<Rightarrow> manager \<Rightarrow> manager" where
  "create_client t address m =
     m\<lparr>instances := instances m @ [new_client address], callers := (callers m)[t := Saving (length (instances m))]\<rparr>"

definition at_client :: "nat \<Rightarrow> (clientInstance \<Rightarrow> clientInstance) \<Rightarrow> manager \<Rightarrow> manager" where
  "at_client i f m = m\<lparr>instances := (instances m)[i := f (instances m ! i)]\<rparr>"

fun manager_step :: "manager \<Rightarrow> manager_event \<Rightarrow> manager" where
  "manager_step m (Lookup t address) = m\<lparr>callers := (callers m)[t := Looked address (clients m address)]\<rparr>"
| "manager_step m (Take t) =
     (case callers m ! t of
        Looked address (Some i) \<Rightarrow>
          if may_take (instances m ! i) then (at_client i take_client m)\<lparr>callers := (callers m)[t := Holding i]\<rparr>
          else create_client t address m
      | Looked address None \<Rightarrow> create_client t address m
      | _ \<Rightarrow> m)"
| "manager_step m (Save t) =
     (case callers m ! t of
        Saving i \<Rightarrow> m\<lparr>clients := (clients m)(ci_address (instances m ! i) \<mapsto> i), callers := (callers m)[t := Holding i]\<rparr>
      | _ \<Rightarrow> m)"
| "manager_step m (Dial t) =
     (case callers m ! t of Holding i \<Rightarrow> at_client i (\<lambda>c. c\<lparr>ci_dialled := True\<rparr>) m | _ \<Rightarrow> m)"
| "manager_step m (CloseClient t) =
     (case callers m ! t of Holding i \<Rightarrow> (at_client i Close m)\<lparr>callers := (callers m)[t := Idle]\<rparr> | _ \<Rightarrow> m)"

definition NewClientManager :: "nat \<Rightarrow> manager" where
  "NewClientManager n = \<lparr>instances = [], clients = Map.empty, callers = replicate n Idle\<rparr>"

section \<open>Clients in use\<close>

definition in_use :: "nat \<Rightarrow> manager \<Rightarrow> nat" where
  "in_use i m = length (filter (uses i) (callers m))"

definition client_ok :: "nat \<Rightarrow> clientInstance \<Rightarrow> bool" where
  "client_ok n c \<longleftrightarrow> activeRequests c = int n \<and> totalRequests c \<le> HTTP_CLIENT_MAX_REQUESTS
     \<and> (ci_closed c \<longrightarrow> n = 0 \<and> totalRequests c = HTTP_CLIENT_MAX_REQUESTS)"

fun points_below :: "nat \<Rightarrow> caller \<Rightarrow> bool" where
  "points_below n (Looked _ (Some i)) = (i < n)"
| "points_below n (Saving i) = (i < n)"
| "points_below n (Holding i) = (i < n)"
| "points_below n _ = True"

definition manager_inv :: "manager \<Rightarrow> bool" where
  "manager_inv m \<longleftrightarrow> (\<forall>i \<in> ran (clients m). i < length (instances m))
     \<and> (\<forall>k \<in> set (callers m). points_below (length (instances m)) k)
     \<and> (\<forall>i < length (instances m). client_ok (in_use i m) (instances m ! i))"

lemma filter_update:
  assumes "t < length xs"
  shows "length (filter P (xs[t := x])) + (if P (xs ! t) then 1 else 0) = length (filter P xs) + (if P x then 1 else 0)"
proof -
  have "length (filter P (take t xs @ xs ! t # drop (Suc t) xs)) = length (filter P xs)" using assms by (metis id_take_nth_drop)
  moreover have "xs[t := x] = take t xs @ x # drop (Suc t) xs" using assms by (simp add: upd_conv_take_nth_drop)
  ultimately show ?thesis by auto
qed

lemma in_use_update:
  assumes "t < length (callers m)" and "callers m' = (callers m)[t := k]"
  shows "in_use i m' + (if uses i (callers m ! t) then 1 else 0) = in_use i m + (if uses i k then 1 else 0)"
  using filter_update [OF assms(1), of "uses i" k] by (simp add: in_use_def assms(2))

lemma uses_simps [simp]:
  "uses i Idle \<longleftrightarrow> False" "uses i (Looked a c) \<longleftrightarrow> False" "uses i (Saving j) \<longleftrightarrow> i = j" "uses i (Holding j) \<longleftrightarrow> i = j"
  by (auto simp: uses_def)

lemma points_below_mono: "points_below n k \<Longrightarrow> n \<le> n' \<Longrightarrow> points_below n' k"
  by (induction n k rule: points_below.induct) auto

lemma in_use_new:
  assumes "\<forall>k \<in> set (callers m). points_below n k"
  shows "in_use n m = 0"
proof -
  have "\<not> uses n k" if "k \<in> set (callers m)" for k using assms that by (cases k) auto
  then show ?thesis by (simp add: in_use_def filter_empty_conv)
qed

lemma manager_inv_moved:
  assumes "manager_inv m" and "callers m' = (callers m)[t := k]" and "length (instances m) \<le> length (instances m')"
    and "points_below (length (instances m')) k" and "\<forall>i \<in> ran (clients m'). i < length (instances m')"
    and "\<And>i. i < length (instances m') \<Longrightarrow> client_ok (in_use i m') (instances m' ! i)"
  shows "manager_inv m'"
proof -
  have "\<forall>k \<in> set (callers m'). points_below (length (instances m')) k"
  proof
    fix x assume "x \<in> set (callers m')"
    then consider "x = k" | "x \<in> set (callers m)" using assms(2) set_update_subset_insert [of "callers m" t k] by auto
    then show "points_below (length (instances m')) x"
      using assms(1,3,4) points_below_mono by cases (auto simp: manager_inv_def)
  qed
  then show ?thesis using assms(5,6) by (simp add: manager_inv_def)
qed

lemma create_client_inv:
  assumes "manager_inv m" and "t < length (callers m)" and "\<And>i. \<not> uses i (callers m ! t)"
  shows "manager_inv (create_client t address m)"
proof (rule manager_inv_moved [OF assms(1), where t = t])
  let ?m = "create_client t address m"
  show c: "callers ?m = (callers m)[t := Saving (length (instances m))]" by (simp add: create_client_def)
  fix i assume i: "i < length (instances ?m)"
  have u: "in_use i ?m = in_use i m + (if i = length (instances m) then 1 else 0)"
    using in_use_update [OF assms(2) c, of i] assms(3) by simp
  show "client_ok (in_use i ?m) (instances ?m ! i)"
  proof (cases "i = length (instances m)")
    case True
    then have "in_use i m = 0" using assms(1) by (intro in_use_new) (simp add: manager_inv_def)
    then show ?thesis using u True by (simp add: create_client_def client_ok_def new_client_def HTTP_CLIENT_MAX_REQUESTS_def)
  next
    case False
    then show ?thesis using u i assms(1) by (simp add: create_client_def manager_inv_def nth_append)
  qed
qed (use assms(1) in \<open>auto simp: create_client_def manager_inv_def\<close>)

lemma at_client_inv:
  assumes "manager_inv m" and "t < length (callers m)" and "i < length (instances m)" and "points_below (length (instances m)) k"
    and "\<And>j. j \<noteq> i \<Longrightarrow> uses j k = uses j (callers m ! t)"
    and "\<And>n n'. client_ok n (instances m ! i) \<Longrightarrow> n' + (if uses i (callers m ! t) then 1 else 0) = n + (if uses i k then 1 else 0) \<Longrightarrow>
      client_ok n' (f (instances m ! i))"
  shows "manager_inv ((at_client i f m)\<lparr>callers := (callers m)[t := k]\<rparr>)"
proof (rule manager_inv_moved [OF assms(1), where t = t])
  let ?m = "(at_client i f m)\<lparr>callers := (callers m)[t := k]\<rparr>"
  show c: "callers ?m = (callers m)[t := k]" by simp
  fix j assume j: "j < length (instances ?m)"
  then have j': "j < length (instances m)" by (simp add: at_client_def)
  then have ok: "client_ok (in_use j m) (instances m ! j)" using assms(1) by (simp add: manager_inv_def)
  note u = in_use_update [OF assms(2) c, of j]
  show "client_ok (in_use j ?m) (instances ?m ! j)"
  proof (cases "j = i")
    case True
    then have "client_ok (in_use i ?m) (f (instances m ! i))" using assms(6) ok u by blast
    then show ?thesis using True assms(3) by (simp add: at_client_def)
  next
    case False
    then have "in_use j ?m = in_use j m" using u assms(5) [OF False] by (simp split: if_splits)
    then show ?thesis using ok False by (simp add: at_client_def)
  qed
qed (use assms in \<open>auto simp: at_client_def manager_inv_def\<close>)

lemma client_ok_take: "client_ok n c \<Longrightarrow> may_take c \<Longrightarrow> client_ok (Suc n) (take_client c)"
  by (auto simp: client_ok_def may_take_def take_client_def)

lemma client_ok_close: "client_ok (Suc n) c \<Longrightarrow> client_ok n (Close c)"
  by (auto simp: client_ok_def Close_def Let_def)

lemma client_ok_dial: "client_ok n c \<Longrightarrow> client_ok n (c\<lparr>ci_dialled := True\<rparr>)"
  by (simp add: client_ok_def)

lemma manager_step_inv:
  assumes "manager_inv m" and "manager_enabled m e"
  shows "manager_inv (manager_step m e)"
proof (cases e)
  case (Lookup t address)
  then have t: "t < length (callers m)" "callers m ! t = Idle" using assms(2) by simp_all
  have u: "in_use i (manager_step m e) = in_use i m" for i
    using in_use_update [OF t(1), of "manager_step m e" "Looked address (clients m address)" i] t(2) by (simp add: Lookup)
  show ?thesis
  proof (rule manager_inv_moved [OF assms(1), where t = t and k = "Looked address (clients m address)"])
    show "points_below (length (instances (manager_step m e))) (Looked address (clients m address))"
      using assms(1) by (cases "clients m address") (auto simp: Lookup manager_inv_def ran_def)
    show "client_ok (in_use i (manager_step m e)) (instances (manager_step m e) ! i)" if "i < length (instances (manager_step m e))" for i
      using assms(1) that u [of i] by (simp add: Lookup manager_inv_def)
  qed (use assms(1) in \<open>simp_all add: Lookup manager_inv_def\<close>)
next
  case (Take t)
  then obtain address c where t: "t < length (callers m)" "callers m ! t = Looked address c"
    using assms(2) by (auto split: caller.splits)
  have new: "manager_inv (create_client t address m)" using assms(1) t by (intro create_client_inv) simp_all
  show ?thesis
  proof (cases c)
    case (Some i)
    then have i: "i < length (instances m)" using assms(1) t unfolding manager_inv_def by (metis nth_mem points_below.simps(1))
    show ?thesis
    proof (cases "may_take (instances m ! i)")
      case True
      have "manager_inv ((at_client i take_client m)\<lparr>callers := (callers m)[t := Holding i]\<rparr>)"
        using assms(1) t i client_ok_take [OF _ True] by (intro at_client_inv) auto
      then show ?thesis using True t Some by (simp add: Take)
    qed (use new t Some in \<open>simp add: Take\<close>)
  qed (use new t in \<open>simp add: Take\<close>)
next
  case (Save t)
  then obtain i where t: "t < length (callers m)" "callers m ! t = Saving i" using assms(2) by (auto split: caller.splits)
  then have i: "i < length (instances m)" using assms(1) unfolding manager_inv_def by (metis nth_mem points_below.simps(2))
  have u: "in_use j (manager_step m e) = in_use j m" for j
    using in_use_update [OF t(1), of "manager_step m e" "Holding i" j] t(2) by (simp add: Save)
  show ?thesis
  proof (rule manager_inv_moved [OF assms(1), where t = t and k = "Holding i"])
    show "client_ok (in_use j (manager_step m e)) (instances (manager_step m e) ! j)" if "j < length (instances (manager_step m e))" for j
      using assms(1) that u [of j] t by (simp add: Save manager_inv_def)
    show "\<forall>j \<in> ran (clients (manager_step m e)). j < length (instances (manager_step m e))"
      using assms(1) i t by (auto simp: Save manager_inv_def ran_def split: if_splits)
  qed (use i t in \<open>simp_all add: Save\<close>)
next
  case (Dial t)
  then obtain i where t: "t < length (callers m)" "callers m ! t = Holding i" using assms(2) by (auto split: caller.splits)
  then have i: "i < length (instances m)" using assms(1) unfolding manager_inv_def by (metis nth_mem points_below.simps(3))
  have "manager_inv ((at_client i (\<lambda>c. c\<lparr>ci_dialled := True\<rparr>) m)\<lparr>callers := (callers m)[t := Holding i]\<rparr>)"
    using assms(1) t i by (intro at_client_inv) (auto intro: client_ok_dial)
  moreover have "(callers m)[t := Holding i] = callers m" using t by (metis list_update_id)
  ultimately show ?thesis using t by (simp add: Dial at_client_def)
next
  case (CloseClient t)
  then obtain i where t: "t < length (callers m)" "callers m ! t = Holding i" using assms(2) by (auto split: caller.splits)
  then have i: "i < length (instances m)" using assms(1) unfolding manager_inv_def by (metis nth_mem points_below.simps(3))
  have "manager_inv ((at_client i Close m)\<lparr>callers := (callers m)[t := Idle]\<rparr>)"
    using assms(1) t i by (intro at_client_inv) (auto intro: client_ok_close)
  then show ?thesis using t by (simp add: CloseClient)
qed

interpretation client_manager: invariant manager_enabled manager_step "NewClientManager n" "\<lambda>_. True" manager_inv
  for n
proof
  show "manager_inv (NewClientManager n)" by (simp add: manager_inv_def NewClientManager_def ran_def)
qed (rule manager_step_inv)

text \<open>
  C24: However the goroutines interleave, nobody holds a client that has been closed, and none ever will: a client counts exactly the
  goroutines that use it, takes at most 500 requests in its life, and is closed only when all of them have ended.
\<close>

theorem closed_clients_unused:
  assumes "run manager_enabled manager_step (NewClientManager n) es = Some m" and "i < length (instances m)"
  shows "activeRequests (instances m ! i) = int (in_use i m) \<and> totalRequests (instances m ! i) \<le> HTTP_CLIENT_MAX_REQUESTS
    \<and> (ci_closed (instances m ! i) \<longrightarrow> in_use i m = 0 \<and> \<not> may_take (instances m ! i))"
  using client_manager.run_inv [OF assms(1)] assms(2) by (auto simp: list_all_iff manager_inv_def client_ok_def may_take_def)

definition one_client :: "manager_event list" where
  "one_client = [Lookup 0 [97], Take 0, Save 0, Dial 0, Lookup 1 [97], Take 1, CloseClient 0]"

theorem closed_clients_unused_witness:
  "\<exists>m. run manager_enabled manager_step (NewClientManager 2) one_client = Some m
    \<and> length (instances m) = 1 \<and> totalRequests (instances m ! 0) = 2 \<and> activeRequests (instances m ! 0) = int (in_use 0 m) \<and> in_use 0 m = 1"
proof -
  obtain m where run: "run manager_enabled manager_step (NewClientManager 2) one_client = Some m"
      and m: "length (instances m) = 1" "totalRequests (instances m ! 0) = 2" "callers m = [Idle, Holding 0]"
    by (simp add: one_client_def NewClientManager_def create_client_def at_client_def new_client_def may_take_def take_client_def Close_def
      HTTP_CLIENT_MAX_REQUESTS_def numeral_2_eq_2)
  have "activeRequests (instances m ! 0) = int (in_use 0 m)" using closed_clients_unused [OF run, of 0] m(1) by simp
  then show ?thesis using run m by (simp add: in_use_def)
qed

text \<open>A client that is open, in nobody's hands and out of reach.\<close>

definition lost :: "nat \<Rightarrow> manager \<Rightarrow> bool" where
  "lost i m \<longleftrightarrow> i < length (instances m) \<and> ci_dialled (instances m ! i) \<and> \<not> ci_closed (instances m ! i)
     \<and> i \<notin> ran (clients m) \<and> (\<forall>k \<in> set (callers m). \<not> uses i k \<and> (\<forall>a. k \<noteq> Looked a (Some i)))"

lemma lost_step:
  assumes "lost i m" and "manager_enabled m e"
  shows "lost i (manager_step m e)"
proof -
  have k: "\<not> uses i (callers m ! t)" "callers m ! t \<noteq> Looked a (Some i)" if "t < length (callers m)" for t a
    using assms(1) that by (auto simp: lost_def)
  have upd: "lost i m'"
    if "callers m' = (callers m)[t := c]" "instances m' ! i = instances m ! i" "length (instances m) \<le> length (instances m')"
      "i \<notin> ran (clients m')" "\<not> uses i c" "\<And>a. c \<noteq> Looked a (Some i)" for m' t c
  proof -
    have "set (callers m') \<subseteq> insert c (set (callers m))" unfolding that(1) by (rule set_update_subset_insert)
    then have "\<forall>k \<in> set (callers m'). \<not> uses i k \<and> (\<forall>a. k \<noteq> Looked a (Some i))" using assms(1) that(5,6) unfolding lost_def by blast
    then show ?thesis using assms(1) that(2-4) by (simp add: lost_def)
  qed
  have i: "i < length (instances m)" "i \<notin> ran (clients m)" using assms(1) by (simp_all add: lost_def)
  show ?thesis
  proof (cases e)
    case (Lookup t a)
    then show ?thesis using i by (intro upd [of _ t "Looked a (clients m a)"]) (auto simp: ranI)
  next
    case (Take t)
    then obtain a c where t: "t < length (callers m)" "callers m ! t = Looked a c" using assms(2) by (auto split: caller.splits)
    have new: "lost i (create_client t a m)"
      using i by (intro upd [of _ t "Saving (length (instances m))"]) (auto simp: create_client_def nth_append)
    have old: "lost i ((at_client j take_client m)\<lparr>callers := (callers m)[t := Holding j]\<rparr>)" if "j \<noteq> i" for j
      using i that by (intro upd [of _ t "Holding j"]) (auto simp: at_client_def)
    show ?thesis using k(2) [OF t(1), of a] new old t by (auto simp: Take split: option.splits)
  next
    case (Save t)
    then obtain j where t: "t < length (callers m)" "callers m ! t = Saving j" using assms(2) by (auto split: caller.splits)
    then have "j \<noteq> i" using k(1) [OF t(1)] by auto
    then show ?thesis using i t by (intro upd [of _ t "Holding j"]) (auto simp: Save ran_def)
  next
    case (Dial t)
    then obtain j where t: "t < length (callers m)" "callers m ! t = Holding j" using assms(2) by (auto split: caller.splits)
    then have j: "j \<noteq> i" using k(1) [OF t(1)] by auto
    have "(callers m)[t := Holding j] = callers m" using t by (metis list_update_id)
    then show ?thesis using i t j by (intro upd [of _ t "Holding j"]) (auto simp: Dial at_client_def)
  next
    case (CloseClient t)
    then obtain j where t: "t < length (callers m)" "callers m ! t = Holding j" using assms(2) by (auto split: caller.splits)
    then have "j \<noteq> i" using k(1) [OF t(1)] by auto
    then show ?thesis using i t by (intro upd [of _ t Idle]) (auto simp: CloseClient at_client_def)
  qed
qed

lemma lost_run: "lost i m \<Longrightarrow> run manager_enabled manager_step m es = Some m' \<Longrightarrow> lost i m'"
  by (induction es arbitrary: m) (auto split: if_splits intro: lost_step)

text \<open>Two goroutines look for a client of an address that has none, before either has saved its own.\<close>

definition race_events :: "gotext \<Rightarrow> manager_event list" where
  "race_events a = [Lookup 0 a, Lookup 1 a, Take 0, Take 1, Save 0, Dial 0, Save 1, CloseClient 0]"

lemma race_lost: "\<exists>m. run manager_enabled manager_step (NewClientManager 2) (race_events a) = Some m \<and> lost 0 m"
  by (simp add: race_events_def NewClientManager_def create_client_def at_client_def new_client_def Close_def HTTP_CLIENT_MAX_REQUESTS_def
    lost_def ran_def numeral_2_eq_2)

text \<open>
  Two goroutines that ask for the first client of an address at the same time each make one, and the one saved first is lost: its connection
  is open, nobody uses it, and whatever happens later nobody takes it again or closes it.
\<close>

theorem first_client_is_lost:
  assumes "run manager_enabled manager_step (NewClientManager 2) (race_events a @ es) = Some m"
  shows "lost 0 m"
  using assms race_lost [of a] lost_run by (auto simp: run_append)

theorem first_client_is_lost_witness:
  "\<exists>m. run manager_enabled manager_step (NewClientManager 2) (race_events [97] @ [Lookup 0 [97], Take 0]) = Some m \<and> lost 0 m"
proof -
  obtain m where "run manager_enabled manager_step (NewClientManager 2) (race_events [97] @ [Lookup 0 [97], Take 0]) = Some m"
    by (simp add: race_events_def NewClientManager_def create_client_def at_client_def new_client_def Close_def HTTP_CLIENT_MAX_REQUESTS_def
      may_take_def take_client_def numeral_2_eq_2)
  then show ?thesis using first_client_is_lost by blast
qed

end
