(* ===== verification/AiClients.thy ===== *)
theory AiClients
  imports Http HttpClient
begin

text \<open>
  \<open>ai\<close>, \<open>ai/ollama\<close> and \<open>ai/openai\<close>: which of the configured services answers, the request for embeddings and the stream of a chat. The two
  packages differ in paths and in the lines of their streams. What the network does, JSON, zstd and \<open>url.Parse\<close> are arguments, and the
  address a request uses is the one its provider picked (\<open>HttpClient\<close>). \<open>Generate\<close> and the unstreamed \<open>Chat\<close> are not called by the server.
\<close>

section \<open>Configuration\<close>

record ProviderConfig =
  Model :: gotext
  ApiBase :: "gotext list"
  ApiKey :: gotext
  NumCtx :: int
  RequestCompression :: bool

record AIConfig =
  cfg_Embed :: "ProviderConfig option"
  cfg_Generate :: "ProviderConfig option"
  cfg_Chat :: "ProviderConfig option"

definition GetNumCtx :: "ProviderConfig \<Rightarrow> int" where
  "GetNumCtx c = (if NumCtx c \<le> 0 then - MaxInt else NumCtx c)"

text \<open>\<open>Ollama\<close> and \<open>OpenAI\<close>\<close>

record client =
  Cfg :: AIConfig
  c_chat :: "httpurl list option"
  c_generate :: "httpurl list option"
  c_embed :: "httpurl list option"

definition open_provider :: "(gotext \<Rightarrow> error + gotext) \<Rightarrow> string \<Rightarrow> ProviderConfig option \<Rightarrow> error + httpurl list option" where
  "open_provider url_Parse msg cfg =
     (case cfg of
        None \<Rightarrow> Inr None
      | Some c \<Rightarrow>
          (case NewProvider url_Parse (ApiBase c) of
             Inl e \<Rightarrow> Inl (errors_Join (errors_New msg) e)
           | Inr us \<Rightarrow> Inr (Some us)))"

definition New_client :: "(gotext \<Rightarrow> error + gotext) \<Rightarrow> AIConfig \<Rightarrow> error + client" where
  "New_client url_Parse cfg =
     (case open_provider url_Parse ''embed config'' (cfg_Embed cfg) of
        Inl e \<Rightarrow> Inl e
      | Inr emb \<Rightarrow>
          (case open_provider url_Parse ''chat config'' (cfg_Chat cfg) of
             Inl e \<Rightarrow> Inl e
           | Inr ch \<Rightarrow>
               (case open_provider url_Parse ''generate config'' (cfg_Generate cfg) of
                  Inl e \<Rightarrow> Inl e
                | Inr gen \<Rightarrow> Inr \<lparr>Cfg = cfg, c_chat = ch, c_generate = gen, c_embed = emb\<rparr>)))"

record ai =
  ollama :: client
  openai :: client

definition New_ai :: "(gotext \<Rightarrow> error + gotext) \<Rightarrow> AIConfig \<Rightarrow> AIConfig \<Rightarrow> error + ai" where
  "New_ai url_Parse ollamaCfg openaiCfg =
     (case New_client url_Parse ollamaCfg of
        Inl e \<Rightarrow> Inl (errors_Join (errors_New ''Ollama client'') e)
      | Inr o' \<Rightarrow>
          (case New_client url_Parse openaiCfg of
             Inl e \<Rightarrow> Inl (errors_Join (errors_New ''OpenAI client'') e)
           | Inr p \<Rightarrow> Inr \<lparr>ollama = o', openai = p\<rparr>))"

definition CanEmbed :: "client \<Rightarrow> bool" where "CanEmbed c \<longleftrightarrow> c_embed c \<noteq> None"
definition CanChat :: "client \<Rightarrow> bool" where "CanChat c \<longleftrightarrow> c_chat c \<noteq> None"

text \<open>Reading a field of a \<open>*Provider\<close>\<close>

definition field_of :: "(ProviderConfig \<Rightarrow> 'r) \<Rightarrow> ProviderConfig option \<Rightarrow> 'r outcome" where
  "field_of f c = (case c of Some p \<Rightarrow> Done (f p) | None \<Rightarrow> Panic ''nil pointer dereference'')"

definition EmbedCtxNum :: "ai \<Rightarrow> int outcome" where
  "EmbedCtxNum a =
     (if CanEmbed (ollama a) then field_of GetNumCtx (cfg_Embed (Cfg (ollama a)))
      else if CanEmbed (openai a) then field_of GetNumCtx (cfg_Embed (Cfg (openai a)))
      else Done (- MaxInt))"

definition EmbedModel :: "ai \<Rightarrow> gotext outcome" where
  "EmbedModel a =
     (if CanEmbed (ollama a) then field_of Model (cfg_Embed (Cfg (ollama a)))
      else if CanEmbed (openai a) then field_of Model (cfg_Embed (Cfg (openai a)))
      else Done [])"

section \<open>Embeddings\<close>

record EmbedRequest =
  er_Model :: gotext
  er_Input :: "gotext list"
  er_num_ctx :: "int option" \<comment> \<open>\<open>Options["num_ctx"]\<close>\<close>

record 'b wire_request =
  wr_uri :: gotext
  wr_path :: string
  wr_body :: 'b
  wr_zstd :: bool
  wr_token :: gotext

record 'b wire_response =
  ws_status :: nat
  ws_zstd :: bool
  ws_body :: "error + 'b" \<comment> \<open>what reading the body gives\<close>

record 'b network =
  marshal_request :: "EmbedRequest \<Rightarrow> error + 'b"
  compress :: "'b \<Rightarrow> 'b"
  new_request :: "gotext \<Rightarrow> error option"
  send :: "'b wire_request \<Rightarrow> error + 'b wire_response"
  decompress :: "'b \<Rightarrow> error + 'b"
  unmarshal_vectors :: "'b \<Rightarrow> error + fl list list"

text \<open>
  \<open>Embed\<close> of a client with the address \<open>uri\<close>. Every vector of the response is quantized while the response is decoded; the text of the
  error for a bad status is left out.
\<close>

definition Embed_http :: "'b network \<Rightarrow> (fl \<Rightarrow> u8) \<Rightarrow> string \<Rightarrow> gotext \<Rightarrow> ProviderConfig \<Rightarrow> EmbedRequest \<Rightarrow> error + u8 list list" where
  "Embed_http W imp path uri cfg request =
     (let request' = (case er_num_ctx request of None \<Rightarrow> request\<lparr>er_num_ctx := Some (NumCtx cfg)\<rparr> | Some _ \<Rightarrow> request)
      in case marshal_request W request' of
           Inl e \<Rightarrow> Inl (errors_Join (errors_New ''failed to marshal request body'') e)
         | Inr b \<Rightarrow>
             let body = (if RequestCompression cfg then compress W b else b)
             in case new_request W uri of
                  Some e \<Rightarrow> Inl (errors_Join (errors_New ''failed to create request'') e)
                | None \<Rightarrow>
                    (case send W \<lparr>wr_uri = uri, wr_path = path, wr_body = body, wr_zstd = RequestCompression cfg, wr_token = ApiKey cfg\<rparr> of
                       Inl e \<Rightarrow> Inl (joined ''failed to send request'' e)
                     | Inr resp \<Rightarrow>
                         (case ws_body resp of
                            Inl e \<Rightarrow> Inl (errors_Join (errors_New ''failed to read response body'') e)
                          | Inr raw \<Rightarrow>
                              (case (if ws_zstd resp then decompress W raw else Inr raw) of
                                 Inl e \<Rightarrow> Inl (errors_Join (errors_New ''failed to decompress response'') e)
                               | Inr text_body \<Rightarrow>
                                   if ws_status resp \<noteq> 200 then Inl (errors_New ''bad status'')
                                   else case unmarshal_vectors W text_body of
                                          Inl e \<Rightarrow> Inl (errors_Join (errors_New ''failed to unmarshal response'') e)
                                        | Inr vectors \<Rightarrow> Inr (map (QuantizeVector imp F32) vectors)))))"

definition Embed :: "'b network \<Rightarrow> (fl \<Rightarrow> u8) \<Rightarrow> gotext \<Rightarrow> ai \<Rightarrow> EmbedRequest \<Rightarrow> (error + u8 list list) outcome" where
  "Embed W imp uri a request =
     (if CanEmbed (ollama a) then field_of (\<lambda>cfg. Embed_http W imp ''/api/embed'' uri cfg request) (cfg_Embed (Cfg (ollama a)))
      else if CanEmbed (openai a) then field_of (\<lambda>cfg. Embed_http W imp ''/v1/embeddings'' uri cfg request) (cfg_Embed (Cfg (openai a)))
      else Done (Inl (errors_New ''no embed provider configured'')))"

section \<open>Streams\<close>

text \<open>
  \<open>bufio.Scanner\<close> with its default split function, on the bytes of a body up to its end or up to where the connection broke (the scanner treats
  both alike): every line without its newline and a carriage return before it, then what is left after the last newline, if anything. A
  line that fills the scanner's buffer of 65536 bytes ends the scan, without a token for it.
\<close>

definition dropCR :: "gotext \<Rightarrow> gotext" where
  "dropCR l = (if l \<noteq> [] \<and> last l = 13 then butlast l else l)"

fun scan_lines :: "gotext \<Rightarrow> gotext \<Rightarrow> gotext list" where
  "scan_lines cur [] = (if cur = [] \<or> 65536 \<le> length cur then [] else [dropCR cur])"
| "scan_lines cur (b # bs) =
     (if 65536 \<le> length cur then []
      else if b = newline then dropCR cur # scan_lines [] bs
      else scan_lines (cur @ [b]) bs)"

text \<open>
  The goroutine behind \<open>ChatStream\<close> on the lines the scanner delivers: what it writes to the pipe and the error it closes the pipe with. The error of
  the scanner is not read. When the connection breaks inside a line, its first part is delivered as a line and will as a rule not be
  JSON; when it breaks between two lines, or when a line is too long, the loop ends as at the end of a body.
\<close>

record chat_chunk =
  chunk_Content :: gotext
  chunk_Done :: bool

fun ollama_stream :: "(gotext \<Rightarrow> error + chat_chunk) \<Rightarrow> gotext \<Rightarrow> gotext list \<Rightarrow> gotext \<times> error option" where
  "ollama_stream unmarshal written [] = (written, None)"
| "ollama_stream unmarshal written (line # ls) =
     (case unmarshal line of
        Inl e \<Rightarrow> (written, Some e)
      | Inr res \<Rightarrow>
          if chunk_Done res then (written @ chunk_Content res, None)
          else ollama_stream unmarshal (written @ chunk_Content res) ls)"

record choice =
  Index :: int
  Content :: gotext
  FinishReason :: gotext

text \<open>The choices of a chunk in order of their index, up to the first that finishes; whether one did.\<close>

fun write_choices :: "gotext \<Rightarrow> choice list \<Rightarrow> gotext \<times> bool" where
  "write_choices written [] = (written, False)"
| "write_choices written (c # cs) =
     (if FinishReason c \<noteq> [] then (written @ Content c, True) else write_choices (written @ Content c) cs)"

fun openai_stream ::
    "(choice list \<Rightarrow> choice list) \<Rightarrow> (gotext \<Rightarrow> error + choice list) \<Rightarrow> gotext \<Rightarrow> gotext list \<Rightarrow> gotext \<times> error option" where
  "openai_stream sort_choices unmarshal written [] = (written, None)"
| "openai_stream sort_choices unmarshal written (line # ls) =
     (let text_body = dropWhile (\<lambda>c. c \<noteq> 123) line
      in if text_body = [] then openai_stream sort_choices unmarshal written ls
         else case unmarshal text_body of
                Inl e \<Rightarrow> (written, Some e)
              | Inr choices \<Rightarrow>
                  (case write_choices written (sort_choices choices) of
                     (written', True) \<Rightarrow> (written', None)
                   | (written', False) \<Rightarrow> openai_stream sort_choices unmarshal written' ls))"

text \<open>Before the lines: the request failed, or was answered with another status than 200. An answer is a status and the bytes of its body.\<close>

definition open_stream :: "error + nat \<times> gotext \<Rightarrow> (gotext \<Rightarrow> gotext list \<Rightarrow> gotext \<times> error option) \<Rightarrow> gotext \<times> error option" where
  "open_stream answer stream =
     (case answer of
        Inl e \<Rightarrow> ([], Some (errors_Join (errors_New ''failed to send request'') e))
      | Inr (status, received) \<Rightarrow>
          if status \<noteq> 200 then ([], Some (errors_New ''response returned bad status code'')) else stream [] (scan_lines [] received))"

text \<open>\<open>nil\<close> without a provider for chats.\<close>

definition ChatStream ::
    "(string \<Rightarrow> ChatMessage list \<Rightarrow> error + nat \<times> gotext) \<Rightarrow> (gotext \<Rightarrow> gotext list \<Rightarrow> gotext \<times> error option) \<Rightarrow>
     (gotext \<Rightarrow> gotext list \<Rightarrow> gotext \<times> error option) \<Rightarrow> ai \<Rightarrow> ChatMessage list \<Rightarrow> (gotext \<times> error option) option" where
  "ChatStream post ollama_lines openai_lines a messages =
     (if CanChat (ollama a) then Some (open_stream (post ''/api/chat'' messages) ollama_lines)
      else if CanChat (openai a) then Some (open_stream (post ''/v1/chat/completions'' messages) openai_lines)
      else None)"

section \<open>One provider for an upload\<close>

lemma New_client_cfg: "New_client url_Parse cfg = Inr c \<Longrightarrow> Cfg c = cfg \<and> (CanEmbed c \<longleftrightarrow> cfg_Embed cfg \<noteq> None) \<and> (CanChat c \<longleftrightarrow> cfg_Chat cfg \<noteq> None)"
  by (auto simp: New_client_def open_provider_def CanEmbed_def CanChat_def split: sum.splits option.splits)

text \<open>
  The context length the texts are cut by, the model named in the request and the service that gets it belong to the same
  provider: Ollama's if it has one for embeddings, else OpenAI's. Nothing panics on a client that was made.
\<close>

theorem one_provider_embeds:
  assumes "New_ai url_Parse ollamaCfg openaiCfg = Inr a"
  shows "case (cfg_Embed ollamaCfg, cfg_Embed openaiCfg) of
      (Some p, _) \<Rightarrow> EmbedCtxNum a = Done (GetNumCtx p) \<and> EmbedModel a = Done (Model p) \<and> Embed W imp uri a rq = Done (Embed_http W imp ''/api/embed'' uri p rq)
    | (None, Some p) \<Rightarrow> EmbedCtxNum a = Done (GetNumCtx p) \<and> EmbedModel a = Done (Model p) \<and> Embed W imp uri a rq = Done (Embed_http W imp ''/v1/embeddings'' uri p rq)
    | (None, None) \<Rightarrow> EmbedCtxNum a = Done (- MaxInt) \<and> (\<exists>e. Embed W imp uri a rq = Done (Inl e))"
proof -
  obtain c1 c2 where "New_client url_Parse ollamaCfg = Inr c1" "New_client url_Parse openaiCfg = Inr c2" and a: "a = \<lparr>ollama = c1, openai = c2\<rparr>"
    using assms by (auto simp: New_ai_def split: sum.splits)
  then have "Cfg c1 = ollamaCfg" "CanEmbed c1 \<longleftrightarrow> cfg_Embed ollamaCfg \<noteq> None" "Cfg c2 = openaiCfg" "CanEmbed c2 \<longleftrightarrow> cfg_Embed openaiCfg \<noteq> None"
    by (simp_all add: New_client_cfg)
  then show ?thesis
    by (cases "cfg_Embed ollamaCfg"; cases "cfg_Embed openaiCfg") (simp_all add: a EmbedCtxNum_def EmbedModel_def Embed_def field_of_def)
qed

section \<open>The limit of a section\<close>

lemma groups_negative:
  "mw < 0 \<Longrightarrow> section_text pre g \<noteq> [] \<Longrightarrow> groups mw pre g ss = g # map (\<lambda>s. [s]) ss"
proof (induction ss arbitrary: g)
  case (Cons s ss)
  have "0 \<le> words g" by (induction g) (simp_all add: words_def)
  moreover have "section_text pre [s] \<noteq> []" by (simp add: section_text_empty)
  ultimately show ?case using Cons by simp
qed simp

lemma Split_groups: "Split pre t ctx = map (section_text pre) (groups (max_words ctx) pre [] (split_lines t))"
  using split_loop_groups [of "max_words ctx" pre "[]" "[]" "split_lines t"] by (simp add: Split_def section_text_def)

lemma Split_negative:
  assumes "max_words ctx < 0"
  shows "Split pre t ctx = (if pre = [] then [] else [pre]) @ map (\<lambda>s. pre @ runes '' '' @ s) (split_lines t)"
proof -
  let ?mw = "max_words ctx"
  obtain s ss where ss: "split_lines t = s # ss" by (cases "split_lines t") simp_all
  have st: "section_text pre [] = pre" "section_text pre [x] = pre @ runes '' '' @ x" for x by (simp_all add: section_text_def)
  show ?thesis
  proof (cases "pre = []")
    case True
    have "section_text pre [s] \<noteq> []" by (simp add: section_text_empty)
    then have "groups ?mw pre [s] ss = [s] # map (\<lambda>s. [s]) ss" using assms by (intro groups_negative)
    then show ?thesis using True by (simp add: Split_groups ss section_text_def comp_def)
  next
    case False
    then have "groups ?mw pre [] (s # ss) = [] # map (\<lambda>s. [s]) (s # ss)" using assms by (intro groups_negative) (simp_all add: st)
    then show ?thesis using False by (simp add: Split_groups ss st comp_def del: groups.simps)
  qed
qed

lemma max_words_unset: "max_words (- MaxInt) < 0"
  by (simp add: max_words_def wrap64_def MaxInt_def)

lemma max_words_exact: "0 < n \<Longrightarrow> n * 9 < 2 ^ 63 \<Longrightarrow> max_words n = n * 9 div 40"
  by (cases "n * 9 < 10") (simp_all add: max_words_def wrap64_def signed_divide_int_def zdiv_zmult2_eq [symmetric] pos_imp_zdiv_pos_iff)

text \<open>
  C26: What the configured length of the context means for the sections a text is cut into. When it is positive (and small enough for nine times it not
  to wrap), every section is the prefix and a group of consecutive sentences that together have at most nine fortieths of it as words, the prefix not
  counted, except that a single sentence may have more. When it is not set, the number that stands for it wraps around to a negative limit and
  every sentence becomes a section of its own, after one that is the prefix alone.
\<close>

theorem unset_context_cuts_every_sentence:
  assumes "NumCtx cfg \<le> 0" and "0 < NumCtx cfg'" and "NumCtx cfg' * 9 < 2 ^ 63"
  shows "Split pre t (GetNumCtx cfg) = (if pre = [] then [] else [pre]) @ map (\<lambda>s. pre @ runes '' '' @ s) (split_lines t)
    \<and> (\<exists>gs. Split pre t (GetNumCtx cfg') = map (section_text pre) gs \<and> concat gs = split_lines t
        \<and> (\<forall>g \<in> set gs. words g \<le> NumCtx cfg' * 9 div 40 \<or> length g \<le> 1))"
proof -
  have m: "max_words (GetNumCtx cfg') = NumCtx cfg' * 9 div 40" using assms max_words_exact by (simp add: GetNumCtx_def)
  let ?gs = "groups (max_words (GetNumCtx cfg')) pre [] (split_lines t)"
  have "\<forall>g \<in> set ?gs. words g \<le> max_words (GetNumCtx cfg') \<or> length g \<le> 1" by (rule groups_fit) simp
  then have "\<exists>gs. Split pre t (GetNumCtx cfg') = map (section_text pre) gs \<and> concat gs = split_lines t
      \<and> (\<forall>g \<in> set gs. words g \<le> NumCtx cfg' * 9 div 40 \<or> length g \<le> 1)"
    unfolding m by (intro exI [of _ ?gs]) (simp add: Split_groups groups_concat m)
  then show ?thesis using assms(1) Split_negative [OF max_words_unset] by (simp add: GetNumCtx_def)
qed

section \<open>The text of a chat\<close>

fun through_done :: "chat_chunk list \<Rightarrow> chat_chunk list" where
  "through_done [] = []"
| "through_done (c # cs) = c # (if chunk_Done c then [] else through_done cs)"

definition chat_text :: "chat_chunk list \<Rightarrow> gotext" where
  "chat_text cs = concat (map chunk_Content (through_done cs))"

lemma chat_text_Cons: "chat_text (c # cs) = chunk_Content c @ (if chunk_Done c then [] else chat_text cs)"
  by (simp add: chat_text_def)

text \<open>A line as a server sends it: it fits the buffer and does not end in a carriage return.\<close>

definition sent_line :: "gotext \<Rightarrow> bool" where
  "sent_line l \<longleftrightarrow> newline \<notin> set l \<and> length l < 65536 \<and> dropCR l = l"

lemma scan_lines_part:
  "newline \<notin> set l \<Longrightarrow> length cur + length l < 65536 \<Longrightarrow> scan_lines cur (l @ bs) = scan_lines (cur @ l) bs"
proof (induction l arbitrary: cur)
  case (Cons b l)
  then show ?case using Cons.IH [of "cur @ [b]"] by simp
qed simp

lemma scan_lines_sent: "sent_line l \<Longrightarrow> scan_lines [] (l @ newline # bs) = l # scan_lines [] bs"
  using scan_lines_part [of l "[]" "newline # bs"] by (simp add: sent_line_def)

lemma scan_lines_long: "newline \<notin> set l \<Longrightarrow> 65536 \<le> length cur + length l \<Longrightarrow> scan_lines cur l = []"
proof (induction l arbitrary: cur)
  case (Cons b l)
  then show ?case using Cons.IH [of "cur @ [b]"] by simp
qed simp

lemma scan_lines_rest:
  assumes "newline \<notin> set l"
  shows "scan_lines [] l = (if l = [] \<or> 65536 \<le> length l then [] else [dropCR l])"
  using scan_lines_part [of l "[]" "[]"] scan_lines_long [of l "[]"] assms by auto

lemma scan_lines_all:
  "list_all sent_line ls \<Longrightarrow> scan_lines [] (concat (map (\<lambda>l. l @ [newline]) ls) @ rest) = ls @ scan_lines [] rest"
  by (induction ls) (auto simp: scan_lines_sent)

lemma ollama_stream_text:
  "list_all2 (\<lambda>l c. unmarshal l = Inr c) ls cs \<Longrightarrow>
    ollama_stream unmarshal written (ls @ ls') =
      (if \<exists>c \<in> set cs. chunk_Done c then (written @ chat_text cs, None) else ollama_stream unmarshal (written @ chat_text cs) ls')"
proof (induction ls arbitrary: cs written)
  case Nil
  then show ?case by (simp add: chat_text_def)
next
  case (Cons l ls)
  then obtain c cs' where c: "cs = c # cs'" "unmarshal l = Inr c" "list_all2 (\<lambda>l c. unmarshal l = Inr c) ls cs'"
    by (auto simp: list_all2_Cons1)
  then show ?case using Cons.IH [OF c(3), of "written @ chunk_Content c"] by (simp add: chat_text_Cons)
qed


text \<open>Without a model for chats the handler panics.\<close>

theorem chat_without_model_panics:
  assumes "\<not> CanChat (ollama a)" and "\<not> CanChat (openai a)" and "rq_Method rq \<in> {''POST'', ''GET''}" and "rq_Body rq = Inr b"
    and "unmarshal b = Inr req" and "Chat D (\<lambda>m. m) req s = (Done (Inr m), s')"
  shows "ChatHttp D (ChatStream post ol pl a) unmarshal rq s = (Panic ''nil pointer dereference'', s')"
proof -
  have c: "Chat D f req s = (Done (Inr (f m)), s')" for f :: "ChatMessage list \<Rightarrow> (gotext \<times> error option) option"
    using assms(6) by (auto simp: Chat_def succeed_def on_ok_def fail_with_def split: if_splits prod.splits sum.splits)
  show ?thesis using assms by (auto simp: ChatHttp_def c ChatStream_def)
qed

definition chat_ai :: ai where
  "chat_ai = (let p = \<lparr>Model = [109], ApiBase = [[97]], ApiKey = [], NumCtx = 0, RequestCompression = False\<rparr>;
       c = \<lparr>cfg_Embed = None, cfg_Generate = None, cfg_Chat = Some p\<rparr>;
       n = \<lparr>cfg_Embed = None, cfg_Generate = None, cfg_Chat = None\<rparr>
     in projr (New_ai Inr c n))"

text \<open>Two chunks come, and the connection breaks inside the third line.\<close>

definition chat_lines :: "gotext \<Rightarrow> error + chat_chunk" where
  "chat_lines l = (if l \<noteq> [] \<and> last l = 125 then Inr \<lparr>chunk_Content = butlast l, chunk_Done = False\<rparr>
     else Inl (errors_New ''unexpected end of JSON input''))"


theorem unset_context_cuts_every_sentence_witness:
  "Split (runes ''N. '') (runes ''a b'') (GetNumCtx \<lparr>Model = [], ApiBase = [], ApiKey = [], NumCtx = 0, RequestCompression = False\<rparr>)
     = [runes ''N. '', runes ''N.  a b'']
   \<and> (\<exists>gs. Split (runes ''N. '') (runes ''a b'') (GetNumCtx \<lparr>Model = [], ApiBase = [], ApiKey = [], NumCtx = 2048, RequestCompression = False\<rparr>)
        = map (section_text (runes ''N. '')) gs \<and> concat gs = [runes ''a b''] \<and> (\<forall>g \<in> set gs. words g \<le> 460 \<or> length g \<le> 1))"
proof -
  have "split_lines (runes ''a b'') = [runes ''a b'']" by (simp add: runes_def)
  then show ?thesis
    using unset_context_cuts_every_sentence [of "\<lparr>Model = [], ApiBase = [], ApiKey = [], NumCtx = 0, RequestCompression = False\<rparr>"
      "\<lparr>Model = [], ApiBase = [], ApiKey = [], NumCtx = 2048, RequestCompression = False\<rparr>" "runes ''N. ''" "runes ''a b''"]
    by (simp add: runes_def)
qed

end
