(* ===== verification/SplitTree.thy ===== *)
theory SplitTree
  imports DivideConquer
begin

text \<open>
  The recursion of \<open>divideNconquer\<close> as a whole: it always ends. Every split has at least two subsets; an empty one ends the process,
  otherwise each subset is smaller than the dataset, so the depth is at most the number of rows.
\<close>

section \<open>Draws of a whole clustering\<close>

text \<open>The draws suffice for every call that takes place.\<close>

fun draws_fit ::
    "nat \<Rightarrow> draws \<Rightarrow> (nat list \<Rightarrow> bool) \<Rightarrow> size_sort \<Rightarrow> (fl \<Rightarrow> u8) \<Rightarrow> nat \<Rightarrow> nat list \<Rightarrow> u8 list list \<Rightarrow> bool" where
  "draws_fit 0 draw canceled S imp targetSize path X \<longleftrightarrow> True"
| "draws_fit (Suc fuel) draw canceled S imp targetSize path X \<longleftrightarrow>
     X = [] \<or> good_draws draw path (length X) (split_count (length X) targetSize)
     \<and> (length X \<le> targetSize \<or> canceled path
        \<or> (case kMeans (draw path 3) S imp (sample_rows (draw path 2) X) (int (split_count (length X) targetSize)) of
             Some (Done centroids) \<Rightarrow>
               (case split_dataset centroids X of
                  Done subsets \<Rightarrow>
                    list_all (\<lambda>(i, sub). draws_fit fuel draw canceled S imp targetSize (path @ [i]) sub) (enumerate 0 subsets)
                | _ \<Rightarrow> True)
           | _ \<Rightarrow> True))"

section \<open>Its end\<close>

text \<open>A list of centroids for \<open>n\<close> rows of \<open>w\<close> bytes.\<close>

definition centroids_for :: "nat \<Rightarrow> nat \<Rightarrow> u8 list list \<Rightarrow> bool" where
  "centroids_for w n cs \<longleftrightarrow> cs \<noteq> [] \<and> length cs \<le> n \<and> (\<forall>c \<in> set cs. length c = w)"

definition ends_for :: "nat \<Rightarrow> nat \<Rightarrow> u8 list list outcome option \<Rightarrow> bool" where
  "ends_for w n r \<longleftrightarrow> (\<exists>x. r = Some x \<and> (\<forall>cs. x = Done cs \<longrightarrow> centroids_for w n cs))"

lemma together_ends:
  assumes "list_all2 (ends_for w) ns rs" and "rs \<noteq> []"
  shows "ends_for w (sum_list ns) (together rs)"
proof (cases "List.find (\<lambda>r. \<exists>e. r = Some (Panic e)) rs")
  case (Some r)
  then have "\<exists>e. r = Some (Panic e)" by (auto simp: find_Some_iff)
  then show ?thesis using Some by (auto simp: together_def ends_for_def)
next
  case None
  then have np: "Some (Panic e) \<notin> set rs" for e by (auto simp: find_None_iff)
  have nn: "None \<notin> set rs" using assms(1) by (induction rule: list_all2_induct) (auto simp: ends_for_def)
  let ?f = "\<lambda>r. case r of Some (Done xs) \<Rightarrow> xs | _ \<Rightarrow> []"
  have "\<forall>r \<in> set rs. \<exists>cs. r = Some (Done cs)" using np nn by (metis not_Some_eq outcome.exhaust)
  with assms(1) have l: "list_all2 (centroids_for w) ns (map ?f rs)"
    by (induction rule: list_all2_induct) (auto simp: ends_for_def)
  then have "length (concat (map ?f rs)) \<le> sum_list ns"
    by (induction rule: list_all2_induct) (auto simp: centroids_for_def)
  moreover have "\<forall>c \<in> set (concat (map ?f rs)). length c = w"
    using l by (induction rule: list_all2_induct) (auto simp: centroids_for_def)
  moreover have "concat (map ?f rs) \<noteq> []"
    using l assms(2) by (cases rs) (auto simp: list_all2_Cons2 centroids_for_def)
  ultimately show ?thesis using None nn by (simp add: together_def ends_for_def centroids_for_def)
qed

lemma subset_smaller:
  assumes "\<forall>s \<in> set subs. s \<noteq> []" and "length (concat subs) = n" and "2 \<le> length subs" and "s \<in> set subs"
  shows "length s < n"
proof -
  obtain xs ys where s: "subs = xs @ s # ys" using assms(4) by (meson split_list)
  then have "xs @ ys \<noteq> []" using assms(3) by auto
  then obtain t where "t \<in> set (xs @ ys)" by (meson last_in_set)
  then have "concat (xs @ ys) \<noteq> []" using assms(1) s by auto
  then have "0 < length (concat (xs @ ys))" by blast
  then show ?thesis using assms(2) s by auto
qed

lemma divide_ends_at:
  assumes "good_data w X" and "sorting S" and "SPLIT_SIZE \<le> targetSize"
    and "draws_fit fuel draw canceled S imp targetSize path X" and "length X < fuel"
  shows "ends_for w (length X) (divideNconquer fuel draw canceled S imp targetSize path X)"
  using assms(1,4,5)
proof (induction fuel arbitrary: path X)
  case (Suc fuel)
  let ?k = "split_count (length X) targetSize"
  have ne: "X \<noteq> []" using Suc.prems(1) by (simp add: good_data_def)
  have draws: "good_draws draw path (length X) ?k" using Suc.prems(2) ne by simp
  obtain c where init: "init_centroid draw path S imp X = Some (Done c)" "length c = w"
    using init_centroid_Done [OF Suc.prems(1) draws assms(2)] by blast
  show ?case
  proof (cases "length X \<le> targetSize \<or> canceled path")
    case True
    then show ?thesis using init ne by (auto simp: ends_for_def centroids_for_def Suc_le_eq)
  next
    case False
    have k: "2 \<le> ?k" "?k < length X" "?k < SAMPLE_SIZE"
      using split_count_bounds [of "length X" targetSize] False assms(3) by (auto simp: SPLIT_SIZE_def)
    obtain cs where cs: "kMeans (draw path 3) S imp (sample_rows (draw path 2) X) (int ?k) = Some (Done cs)"
        "length cs = ?k" "good_data w cs"
      using kMeans_sample_Done [OF Suc.prems(1) draws assms(2) _ k(2,3)] k(1) by auto
    define subs where "subs = map (\<lambda>j. filter (\<lambda>r. nearest_index cs r = j) X) [0..<?k]"
    have split: "split_dataset cs X = Done subs" using split_eq [OF cs(3) Suc.prems(1)] cs(2) by (simp add: subs_def)
    have "\<forall>r \<in> set X. nearest_index cs r < ?k" using nearest_index_less cs(2,3) by (metis good_data_def)
    then have m: "mset (concat subs) = mset X" unfolding subs_def by (rule mset_filter_parts)
    then have len: "length (concat subs) = length X" by (metis size_mset)
    let ?run = "\<lambda>(i, sub). divideNconquer fuel draw canceled S imp targetSize (path @ [i]) sub"
    have eval: "divideNconquer (Suc fuel) draw canceled S imp targetSize path X = together (map ?run (enumerate 0 subs))"
      using init(1) False cs(1) split by simp
    show ?thesis
    proof (cases "\<exists>s \<in> set subs. s = []")
      case True
      then obtain i where "i < length subs" "subs ! i = []" by (auto simp: in_set_conv_nth)
      then have "(i, []) \<in> set (enumerate 0 subs)" by (auto simp: in_set_enumerate_eq)
      then have "?run (i, []) \<in> ?run ` set (enumerate 0 subs)" by (rule imageI)
      moreover have "fuel \<noteq> 0" using Suc.prems(3) ne by (cases X) auto
      then have "?run (i, []) = Some (Panic ''index out of range'')" by (cases fuel) (simp_all add: init_empty)
      ultimately have "Some (Panic ''index out of range'') \<in> set (map ?run (enumerate 0 subs))" by (simp only: set_map)
      from together_panic [OF this] show ?thesis unfolding eval ends_for_def by blast
    next
      case False
      then have full: "\<forall>s \<in> set subs. s \<noteq> []" by blast
      have fit: "list_all (\<lambda>(i, sub). draws_fit fuel draw canceled S imp targetSize (path @ [i]) sub) (enumerate 0 subs)"
        using Suc.prems(2) ne \<open>\<not> (length X \<le> targetSize \<or> canceled path)\<close> cs(1) split by simp
      have sub: "ends_for w (length s) (?run (i, s))" if i: "(i, s) \<in> set (enumerate 0 subs)" for i s
      proof -
        have s: "s \<in> set subs" using i by (auto simp: in_set_enumerate_eq)
        then have "set s \<subseteq> set X" using m by (metis UN_upper set_concat set_mset_mset)
        then have "good_data w s" using full s Suc.prems(1) by (auto simp: good_data_def)
        moreover have "length s < fuel"
          using subset_smaller [OF full len _ s] k(1) Suc.prems(3) by (simp add: subs_def)
        moreover have "draws_fit fuel draw canceled S imp targetSize (path @ [i]) s" using fit i by (auto simp: list_all_iff)
        ultimately show ?thesis using Suc.IH by simp
      qed
      have "list_all2 (ends_for w) (map length subs) (map ?run (enumerate 0 subs))"
        using sub by (auto simp: list_all2_conv_all_nth nth_enumerate_eq in_set_enumerate_eq)
      moreover have "length (enumerate 0 subs) \<noteq> 0" using k(1) by (simp add: subs_def)
      then have "enumerate 0 subs \<noteq> []" by (metis length_0_conv)
      ultimately have "ends_for w (sum_list (map length subs)) (together (map ?run (enumerate 0 subs)))"
        by (intro together_ends) simp_all
      then show ?thesis unfolding eval using len by (simp add: length_concat)
    qed
  qed
qed simp

section \<open>Properties\<close>

text \<open>
  C14: The clustering of a dataset always ends, and its recursion is at most as deep as there are rows: with more fuel than rows it has
  ended the process or returned centroids of the width of the rows, at least one and at most as many as there are rows.
\<close>

theorem clustering_ends:
  assumes "good_data w X" and "sorting S" and "SPLIT_SIZE \<le> targetSize"
    and "draws_fit fuel draw canceled S imp targetSize [] X" and "length X < fuel"
  shows "\<exists>r. divideNconquer fuel draw canceled S imp targetSize [] X = Some r
    \<and> (\<forall>cs. r = Done cs \<longrightarrow> cs \<noteq> [] \<and> length cs \<le> length X \<and> (\<forall>c \<in> set cs. length c = w))"
  using divide_ends_at [OF assms] by (auto simp: ends_for_def centroids_for_def)

theorem clustering_ends_witness:
  "\<exists>r. divideNconquer 4 (\<lambda>_ _. [0, 1, 2]) (\<lambda>_. False) insertionSort (\<lambda>_. 0) 5 [] [replicate 9 1, replicate 9 2, replicate 9 3] = Some r
    \<and> (\<forall>cs. r = Done cs \<longrightarrow> cs \<noteq> [] \<and> length cs \<le> 3)"
proof -
  let ?X = "[replicate 9 1, replicate 9 2, replicate 9 3] :: u8 list list"
  have g: "good_data 9 ?X" by (simp add: good_data_def)
  have "draws_fit 4 (\<lambda>_ _. [0, 1, 2]) (\<lambda>_. False) insertionSort (\<lambda>_. 0) 5 [] ?X"
    unfolding draws_fit.simps(2) [of 3, simplified] by (simp add: good_draws_def SAMPLE_SIZE_def BATCH_SIZE_CACHE_def SUPERSET_MUL_def split_count_def)
  from clustering_ends [OF g insertionSort_sorting _ this] show ?thesis by (fastforce simp: SPLIT_SIZE_def numeral_3_eq_3)
qed

end
