(* ===== verification/Refreshing.thy ===== *)
theory Refreshing
  imports Refresh SplitTree Server
begin

text \<open>
  The refresh as a whole: \<open>KMeansDivideAndConquer\<close> in \<open>dnc/dnc.go\<close> from its first query to the last one, and \<open>RefreshCentroids\<close> in
  \<open>server/centroids.go\<close>, which runs it for one category after the other. It runs beside the requests, so its
  queries are steps between which the tables change, and each of them may fail. Then what a refresh keeps, whatever happens in
  between: consistent tables, and locks that are given back.
\<close>

section \<open>Processes\<close>

text \<open>
  What a process has come to and the state it has left: \<open>None\<close> while it runs on with no fuel left; otherwise a result, an error or a panic,
  which ends the program.
\<close>

type_synonym ('s, 'a) process = "'s \<Rightarrow> (error + 'a) outcome option \<times> 's"

definition give :: "'a \<Rightarrow> ('s, 'a) process" where
  "give x s = (Some (Done (Inr x)), s)"

definition ask :: "('s \<Rightarrow> (error + 'a) \<times> 's) \<Rightarrow> ('s, 'a) process" where
  "ask q s = (let (r, s') = q s in (Some (Done r), s'))"

definition act :: "('s \<Rightarrow> 's) \<Rightarrow> ('s, unit) process" where
  "act f s = (Some (Done (Inr ())), f s)"

definition compute :: "'a outcome option \<Rightarrow> ('s, 'a) process" where
  "compute r s =
     (case r of None \<Rightarrow> None | Some (Panic p) \<Rightarrow> Some (Panic p) | Some (Done x) \<Rightarrow> Some (Done (Inr x)), s)"

definition and_then :: "('s, 'a) process \<Rightarrow> ('a \<Rightarrow> ('s, 'b) process) \<Rightarrow> ('s, 'b) process" where
  "and_then a k s =
     (case a s of
        (Some (Done (Inr x)), s') \<Rightarrow> k x s'
      | (Some (Done (Inl e)), s') \<Rightarrow> (Some (Done (Inl e)), s')
      | (Some (Panic p), s') \<Rightarrow> (Some (Panic p), s')
      | (None, s') \<Rightarrow> (None, s'))"

text \<open>An error as a value, to look at; an error that is only logged; an error that gets a message.\<close>

definition attempt :: "('s, 'a) process \<Rightarrow> ('s, error + 'a) process" where
  "attempt a s = (case a s of (Some (Done r), s') \<Rightarrow> (Some (Done (Inr r)), s') | (Some (Panic p), s') \<Rightarrow> (Some (Panic p), s') | (None, s') \<Rightarrow> (None, s'))"

definition ignored :: "('s, 'a) process \<Rightarrow> ('s, unit) process" where
  "ignored a = and_then (attempt a) (\<lambda>_. give ())"

definition with_error :: "(error \<Rightarrow> error) \<Rightarrow> ('s, 'a) process \<Rightarrow> ('s, 'a) process" where
  "with_error f a s = (case a s of (Some (Done (Inl e)), s') \<Rightarrow> (Some (Done (Inl (f e))), s') | r \<Rightarrow> r)"

section \<open>Queries\<close>

text \<open>
  The queries and calls of the refresh, in the order of the code. \<open>FindInBatches\<close> is asked for the rows that come after a given one; an
  empty answer ends it. \<open>Save\<close> answers with the rows as they are stored then.
\<close>

record 's refresh_store =
  list_categories :: "'s \<Rightarrow> (error + id list) \<times> 's"
  begin_lock :: "'s \<Rightarrow> 's"
  lock_category :: "id \<Rightarrow> 's \<Rightarrow> (error + unit) \<times> 's"
  rollback :: "'s \<Rightarrow> 's"
  commit :: "'s \<Rightarrow> 's"
  count_embeddings :: "id \<Rightarrow> 's \<Rightarrow> (error + nat) \<times> 's"
  take_vector :: "'s \<Rightarrow> (error + u8 list) \<times> 's"
  create_file :: "'s \<Rightarrow> (error + unit) \<times> 's"
  next_embeddings :: "id \<Rightarrow> id \<Rightarrow> 's \<Rightarrow> (error + Embedding list) \<times> 's"
  category_centroids :: "id \<Rightarrow> 's \<Rightarrow> (error + Centroid list) \<times> 's"
  save_rows :: "Centroid list \<Rightarrow> 's \<Rightarrow> (error + Centroid list) \<times> 's"
  assign_centroid :: "id \<times> id list \<Rightarrow> 's \<Rightarrow> (error + unit) \<times> 's"
  ctx_err :: "'s \<Rightarrow> (error + unit) \<times> 's"
  centroid_totals :: "'s \<Rightarrow> (error + small_result list) \<times> 's"
  next_of_centroid :: "id \<Rightarrow> id \<Rightarrow> 's \<Rightarrow> (error + Embedding list) \<times> 's"

text \<open>
  What else the refresh depends on: the draws of the clustering and the calls that find the context cancelled, the two sorts, the conversion of
  quantization, the order in which the centroids arrive on \<open>Y\<close>, the order of the updates of a batch, and what becomes of a file whose rows have
  not the expected width. \<open>a_fuel\<close> bounds the depth of the recursion and the number of batches of a query.
\<close>

record refresh_args =
  a_fuel :: nat
  a_draws :: draws
  a_canceled :: "nat list \<Rightarrow> bool"
  a_size_sort :: size_sort
  a_small_sort :: small_sort
  a_convert :: "fl \<Rightarrow> u8"
  a_arrival :: "u8 list list \<Rightarrow> u8 list list"
  a_order :: order
  a_mixed :: "nat \<Rightarrow> u8 list list \<Rightarrow> u8 list list outcome option"

section \<open>Refreshing a category\<close>

fun find_in_batches ::
    "nat \<Rightarrow> (id \<Rightarrow> 's \<Rightarrow> (error + Embedding list) \<times> 's) \<Rightarrow> (Embedding list \<Rightarrow> 'a \<Rightarrow> ('s, 'a) process) \<Rightarrow> id \<Rightarrow> 'a \<Rightarrow> ('s, 'a) process" where
  "find_in_batches 0 q f after x = (\<lambda>s. (None, s))"
| "find_in_batches (Suc n) q f after x =
     and_then (ask (q after)) (\<lambda>b.
       if b = [] then give x
       else and_then (f b x) (find_in_batches n q f (embedding_ID (last b))))"

definition write_batch :: "Embedding list \<Rightarrow> u8 list list \<Rightarrow> ('s, u8 list list) process" where
  "write_batch b rows = give (rows @ map embedding_Vector b)"

text \<open>The rows are written to a file and read back in the width \<open>w + 8\<close>.\<close>

definition cluster :: "refresh_args \<Rightarrow> nat \<Rightarrow> u8 list list \<Rightarrow> u8 list list outcome option" where
  "cluster A w rows =
     (if list_all (\<lambda>r. length r = 8 + w) rows
      then divideNconquer (a_fuel A) (a_draws A) (a_canceled A) (a_size_sort A) (a_convert A) CENTROID_SIZE [] rows
      else a_mixed A w rows)"

fun assign_groups :: "'s refresh_store \<Rightarrow> (id \<times> id list) list \<Rightarrow> ('s, unit) process" where
  "assign_groups R [] = give ()"
| "assign_groups R (u # us) =
     and_then (ask (ctx_err R)) (\<lambda>_. and_then (ignored (ask (assign_centroid R u))) (\<lambda>_. assign_groups R us))"

definition assign_batch ::
    "'s refresh_store \<Rightarrow> refresh_args \<Rightarrow> u8 list list \<Rightarrow> id list \<Rightarrow> Embedding list \<Rightarrow> unit \<Rightarrow> ('s, unit) process" where
  "assign_batch R A newCentroids ids b x =
     and_then (compute (Some (NewMatrix (map embedding_Vector b)))) (\<lambda>dataMatrix.
     and_then (compute (Some (nearest newCentroids [dataMatrix]))) (\<lambda>centroidIndexes.
     assign_groups R (a_order A (group_updates ids (zip centroidIndexes b) []))))"

fun assign_dropped :: "'s refresh_store \<Rightarrow> (id \<times> id list) list \<Rightarrow> ('s, unit) process" where
  "assign_dropped R [] = give ()"
| "assign_dropped R (u # us) =
     and_then (with_error (joined ''failed to update embeddings centroid'') (ask (assign_centroid R u))) (\<lambda>_. assign_dropped R us)"

definition drop_batch ::
    "'s refresh_store \<Rightarrow> refresh_args \<Rightarrow> u8 list list \<Rightarrow> Embedding list \<Rightarrow> unit \<Rightarrow> ('s, unit) process" where
  "drop_batch R A newCentroids b x =
     and_then (compute (Some (NewMatrix (map embedding_Vector b)))) (\<lambda>dataMatrix.
     and_then (compute (Some (nearest newCentroids [dataMatrix]))) (\<lambda>centroidIds.
     assign_dropped R (a_order A (all_updates (zip centroidIds b) []))))"

fun drop_old :: "'s refresh_store \<Rightarrow> refresh_args \<Rightarrow> u8 list list \<Rightarrow> small_result list \<Rightarrow> ('s, unit) process" where
  "drop_old R A newCentroids [] = give ()"
| "drop_old R A newCentroids (old # olds) =
     and_then (attempt (ask (ctx_err R))) (\<lambda>canceled.
       case canceled of
         Inl e \<Rightarrow> give ()
       | Inr _ \<Rightarrow>
           and_then (ignored (find_in_batches (a_fuel A) (next_of_centroid R (r_ID old)) (drop_batch R A newCentroids) 0 ()))
             (\<lambda>_. drop_old R A newCentroids olds))"

definition drop_small :: "'s refresh_store \<Rightarrow> refresh_args \<Rightarrow> ('s, unit) process" where
  "drop_small R A =
     and_then (with_error (joined ''failed to read centroid total embeddings'') (ask (centroid_totals R))) (\<lambda>results.
       if length results \<le> 1 then give ()
       else let ordered = a_small_sort A by_total results;
                (oldCentroids, kept) = cut_small ordered [] (butlast ordered);
                newCentroids = map r_Vector kept
            in and_then (compute (Some (NewMatrix newCentroids))) (\<lambda>_. drop_old R A newCentroids oldCentroids))"

definition sum_batch :: "Embedding list \<Rightarrow> fl list \<times> nat \<Rightarrow> ('s, fl list \<times> nat) process" where
  "sum_batch b x = compute (Some (sum_vectors (fst x) (snd x) (map embedding_Vector b)))"

definition recenter :: "'s refresh_store \<Rightarrow> refresh_args \<Rightarrow> Centroid \<Rightarrow> ('s, unit) process" where
  "recenter R A x =
     and_then (compute (Some (DequantizeVector F64 (centroid_Vector x)))) (\<lambda>old.
     and_then (with_error (joined ''failed to read database embeddings'')
       (find_in_batches (a_fuel A) (next_of_centroid R (centroid_ID x)) sum_batch 0 (replicate (length old) (Fin 0), 0))) (\<lambda>(dataSum, cnt).
     and_then (ask (save_rows R [x\<lparr>centroid_Vector :=
       QuantizeVector (a_convert A) F64 (map (\<lambda>v. fl_div F64 v (mk F64 (of_nat cnt))) dataSum)\<rparr>])) (\<lambda>_.
     give ())))"

fun recenter_all :: "'s refresh_store \<Rightarrow> refresh_args \<Rightarrow> Centroid list \<Rightarrow> ('s, unit) process" where
  "recenter_all R A [] = give ()"
| "recenter_all R A (x # xs) =
     and_then (attempt (ask (ctx_err R))) (\<lambda>canceled.
       case canceled of
         Inl e \<Rightarrow> give ()
       | Inr _ \<Rightarrow> and_then (ignored (recenter R A x)) (\<lambda>_. recenter_all R A xs))"

text \<open>From the new centroids on: they are saved, then the embeddings move to them.\<close>

definition apply_centroids :: "'s refresh_store \<Rightarrow> refresh_args \<Rightarrow> id \<Rightarrow> u8 list list \<Rightarrow> Centroid list \<Rightarrow> ('s, unit) process" where
  "apply_centroids R A categoryID newCentroids saved =
     and_then (compute (Some (NewMatrix newCentroids))) (\<lambda>_.
     and_then (with_error (joined ''failed to read database embeddings'')
       (find_in_batches (a_fuel A) (next_embeddings R categoryID) (assign_batch R A newCentroids (map centroid_ID saved)) 0 ())) (\<lambda>_.
     and_then (with_error (joined ''failed to drop small centroids'') (drop_small R A)) (\<lambda>_.
     recenter_all R A saved)))"

definition store_centroids :: "'s refresh_store \<Rightarrow> refresh_args \<Rightarrow> id \<Rightarrow> u8 list list \<Rightarrow> ('s, unit) process" where
  "store_centroids R A categoryID newCentroids =
     and_then (with_error (joined ''failed to read database centroids'') (ask (category_centroids R categoryID))) (\<lambda>dbCentroids.
     and_then (with_error (joined ''failed to update database centroids'')
       (ask (save_rows R (set_vectors categoryID dbCentroids newCentroids)))) (\<lambda>saved.
     apply_centroids R A categoryID newCentroids saved))"

definition KMeansDivideAndConquer :: "'s refresh_store \<Rightarrow> refresh_args \<Rightarrow> id \<Rightarrow> ('s, unit) process" where
  "KMeansDivideAndConquer R A categoryID =
     and_then (with_error (joined ''failed to count documents'') (ask (count_embeddings R categoryID))) (\<lambda>total.
     and_then (with_error (joined ''failed to get embedding'') (ask (take_vector R))) (\<lambda>vector.
     and_then (compute (Some (DequantizeVector F32 vector))) (\<lambda>values.
     and_then (with_error (errors_Join (errors_New ''failed to create file writer'')) (ask (create_file R))) (\<lambda>_.
     and_then (with_error (joined ''failed to read database embeddings'')
       (find_in_batches (a_fuel A) (next_embeddings R categoryID) write_batch 0 [])) (\<lambda>rows.
     if rows = [] then give ()
     else and_then (compute (cluster A (length values) rows)) (\<lambda>Y.
     store_centroids R A categoryID (a_arrival A Y)))))))"

section \<open>Refreshing all\<close>

text \<open>\<open>strings.Contains(strings.ToLower(err.Error()), "lock")\<close>; no error but those with a text of their own contains it.\<close>

definition lower_char :: "char \<Rightarrow> char" where
  "lower_char c = (if 65 \<le> (of_char c :: nat) \<and> of_char c \<le> (90 :: nat) then char_of (of_char c + 32 :: nat) else c)"

definition mentions_lock :: "error \<Rightarrow> bool" where
  "mentions_lock e \<longleftrightarrow> list_ex (\<lambda>l. case l of Msg t \<Rightarrow> sublist ''lock'' (map lower_char t) | _ \<Rightarrow> False) e"

text \<open>
  Only on PostgreSQL the row of the category is locked in a transaction, and another instance that holds the lock makes the refresh
  skip the category. Errors are logged and end the refresh of all.
\<close>

definition only_if :: "bool \<Rightarrow> ('s \<Rightarrow> 's) \<Rightarrow> ('s, unit) process" where
  "only_if b f = (if b then act f else give ())"

fun refresh_each :: "'s refresh_store \<Rightarrow> (id \<Rightarrow> refresh_args) \<Rightarrow> bool \<Rightarrow> id list \<Rightarrow> ('s, unit) process" where
  "refresh_each R A postgres [] = give ()"
| "refresh_each R A postgres (c # cs) =
     and_then (only_if postgres (begin_lock R)) (\<lambda>_.
     and_then (attempt (ask (lock_category R c))) (\<lambda>locked.
       case locked of
         Inl e \<Rightarrow> and_then (only_if postgres (rollback R)) (\<lambda>_.
           if \<not> is_canceled e \<and> postgres \<and> mentions_lock e then refresh_each R A postgres cs else give ())
       | Inr _ \<Rightarrow>
           and_then (attempt (KMeansDivideAndConquer R (A c) c)) (\<lambda>finished.
             case finished of
               Inl e \<Rightarrow> only_if postgres (rollback R)
             | Inr _ \<Rightarrow> and_then (only_if postgres (commit R)) (\<lambda>_. refresh_each R A postgres cs))))"

definition RefreshCentroids :: "'s refresh_store \<Rightarrow> (id \<Rightarrow> refresh_args) \<Rightarrow> bool \<Rightarrow> ('s, unit) process" where
  "RefreshCentroids R A postgres =
     and_then (attempt (ask (list_categories R))) (\<lambda>categories.
       case categories of Inl e \<Rightarrow> give () | Inr cs \<Rightarrow> refresh_each R A postgres cs)"

end
