(* ===== verification/RefreshRules.thy ===== *)
theory RefreshRules
  imports Refreshing
begin

text \<open>
  What a refresh relies on and what it does to the tables: rules for processes, the laws of the queries, and the knowledge of a refresh about
  the tables. Between two of its queries the tables may change in any way in which the requests of the server change them. What the
  refresh has read may be out of date by then, but what it knows about it is stable: rows keep what they refer to, and
  numbers are not used twice.
\<close>

section \<open>Rules for processes\<close>

text \<open>From \<open>P\<close> the process comes to a result with \<open>Q\<close>, or it ends or is left in \<open>E\<close>.\<close>

definition runs :: "('s \<Rightarrow> bool) \<Rightarrow> ('s \<Rightarrow> bool) \<Rightarrow> ('s, 'a) process \<Rightarrow> ('a \<Rightarrow> 's \<Rightarrow> bool) \<Rightarrow> bool" where
  "runs E P a Q \<longleftrightarrow> (\<forall>s. P s \<longrightarrow> (case a s of (Some (Done (Inr x)), s') \<Rightarrow> Q x s' | (_, s') \<Rightarrow> E s'))"

lemma runs_give: "(\<And>s. P s \<Longrightarrow> Q x s) \<Longrightarrow> runs E P (give x) Q"
  by (simp add: runs_def give_def)

lemma runs_ask: "(\<And>s r s'. P s \<Longrightarrow> q s = (r, s') \<Longrightarrow> case r of Inr x \<Rightarrow> Q x s' | Inl e \<Rightarrow> E s') \<Longrightarrow> runs E P (ask q) Q"
  by (fastforce simp: runs_def ask_def split: prod.splits sum.splits)

lemma runs_act: "(\<And>s. P s \<Longrightarrow> Q () (f s)) \<Longrightarrow> runs E P (act f) Q"
  by (simp add: runs_def act_def)

lemma runs_compute: "(\<And>s. P s \<Longrightarrow> E s) \<Longrightarrow> (\<And>x s. r = Some (Done x) \<Longrightarrow> P s \<Longrightarrow> Q x s) \<Longrightarrow> runs E P (compute r) Q"
  by (simp add: runs_def compute_def split: option.splits outcome.splits)

lemma runs_and_then: "runs E P a R \<Longrightarrow> (\<And>x. runs E (R x) (k x) Q) \<Longrightarrow> runs E P (and_then a k) Q"
  unfolding runs_def and_then_def by (fastforce split: prod.splits option.splits outcome.splits sum.splits)

lemma runs_attempt: "runs E P a Q \<Longrightarrow> runs E P (attempt a) (\<lambda>r s. case r of Inr x \<Rightarrow> Q x s | Inl e \<Rightarrow> E s)"
  unfolding runs_def attempt_def by (fastforce split: prod.splits option.splits outcome.splits sum.splits)

lemma runs_with_error: "runs E P a Q \<Longrightarrow> runs E P (with_error f a) Q"
  unfolding runs_def with_error_def by (fastforce split: prod.splits option.splits outcome.splits sum.splits)

lemma runs_conseq:
  "runs E' P' a Q' \<Longrightarrow> (\<And>s. P s \<Longrightarrow> P' s) \<Longrightarrow> (\<And>x s. Q' x s \<Longrightarrow> Q x s) \<Longrightarrow> (\<And>s. E' s \<Longrightarrow> E s) \<Longrightarrow> runs E P a Q"
  unfolding runs_def by (fastforce split: prod.splits option.splits outcome.splits sum.splits)

lemma runs_ignored: "runs F P a (\<lambda>_. F) \<Longrightarrow> (\<And>s. F s \<Longrightarrow> E s) \<Longrightarrow> runs E P (ignored a) (\<lambda>_. F)"
  unfolding runs_def ignored_def and_then_def attempt_def give_def
  by (fastforce split: prod.splits option.splits outcome.splits sum.splits)

lemma runs_find:
  assumes "\<And>after. runs E Inv (ask (q after)) B" and "\<And>b y. b \<noteq> [] \<Longrightarrow> runs E (B b) (f b y) (\<lambda>_. Inv)"
    and "\<And>s. B [] s \<Longrightarrow> Inv s" and "\<And>s. Inv s \<Longrightarrow> E s"
  shows "runs E Inv (find_in_batches n q f after x) (\<lambda>_. Inv)"
proof (induction n arbitrary: after x)
  case 0
  then show ?case using assms(4) by (simp add: runs_def)
next
  case (Suc n)
  show ?case
    unfolding find_in_batches.simps
    by (rule runs_and_then [OF assms(1)], split if_split) (auto intro: runs_give assms(3) runs_and_then [OF assms(2) Suc.IH])
qed

section \<open>What the queries do\<close>

text \<open>
  \<open>M\<close> relates the tables before a query to those it finds: the same, or evolved. \<open>I\<close> is what holds of the state. A query reads the tables it finds,
  or changes them in its way or not at all.
\<close>

definition reads_amid ::
    "(tables \<Rightarrow> tables \<Rightarrow> bool) \<Rightarrow> ('s \<Rightarrow> tables) \<Rightarrow> ('s \<Rightarrow> bool) \<Rightarrow> ('s \<Rightarrow> (error + 'r) \<times> 's) \<Rightarrow> (tables \<Rightarrow> 'r \<Rightarrow> bool) \<Rightarrow> bool" where
  "reads_amid M tbl I q ok \<longleftrightarrow> (\<forall>s. I s \<longrightarrow> I (snd (q s)) \<and> M (tbl s) (tbl (snd (q s)))
     \<and> (case fst (q s) of Inr r \<Rightarrow> ok (tbl (snd (q s))) r | Inl e \<Rightarrow> True))"

definition writes_amid ::
    "(tables \<Rightarrow> tables \<Rightarrow> bool) \<Rightarrow> ('s \<Rightarrow> tables) \<Rightarrow> ('s \<Rightarrow> bool) \<Rightarrow> ('s \<Rightarrow> (error + 'r) \<times> 's) \<Rightarrow>
      (tables \<Rightarrow> 'r \<Rightarrow> tables \<Rightarrow> bool) \<Rightarrow> bool" where
  "writes_amid M tbl I q effect \<longleftrightarrow> (\<forall>s. I s \<longrightarrow> (\<exists>T. M (tbl s) T \<and> tables_ok T \<and>
     (case fst (q s) of
        Inr r \<Rightarrow> effect T r (tbl (snd (q s))) \<and> (advances T (tbl (snd (q s))) \<longrightarrow> I (snd (q s)))
      | Inl e \<Rightarrow> tbl (snd (q s)) = T \<and> I (snd (q s)))))"

text \<open>The next rows in the order of the identifiers.\<close>

definition next_rows :: "Embedding list \<Rightarrow> id \<Rightarrow> Embedding list \<Rightarrow> bool" where
  "next_rows rows after b \<longleftrightarrow> sorted_wrt (\<lambda>x y. embedding_ID x < embedding_ID y) b \<and> length b \<le> BATCH_SIZE_DATABASE
   \<and> set b \<subseteq> {e \<in> set rows. after < embedding_ID e}
   \<and> (\<forall>e \<in> set rows. after < embedding_ID e \<longrightarrow> e \<in> set b \<or> b \<noteq> [] \<and> embedding_ID (last b) < embedding_ID e)"

text \<open>\<open>Save\<close>: a row without identifier gets a new one; a row with one replaces the stored row, or is inserted.\<close>

fun upsert :: "Centroid \<Rightarrow> Centroid list \<Rightarrow> Centroid list" where
  "upsert x [] = [x]"
| "upsert x (y # ys) = (if centroid_ID x = centroid_ID y then x # ys else y # upsert x ys)"

definition rows_saved :: "Centroid list \<Rightarrow> tables \<Rightarrow> Centroid list \<Rightarrow> tables \<Rightarrow> bool" where
  "rows_saved xs T saved T' \<longleftrightarrow> centroid_CategoryID ` set xs \<subseteq> category_ids T
   \<and> (\<exists>fresh. inj fresh \<and> (\<forall>n. t_next T \<le> fresh n) \<and> saved = save_centroids fresh 0 xs)
   \<and> t_next T \<le> t_next T' \<and> (\<forall>x \<in> set saved. centroid_ID x < t_next T')
   \<and> T' = T\<lparr>t_centroids := fold upsert saved (t_centroids T), t_next := t_next T'\<rparr>"

definition centroid_assigned :: "id \<times> id list \<Rightarrow> tables \<Rightarrow> unit \<Rightarrow> tables \<Rightarrow> bool" where
  "centroid_assigned u T r T' \<longleftrightarrow> T' = T\<lparr>t_embeddings := update_where u (t_embeddings T)\<rparr>
   \<and> ((\<exists>e \<in> set (t_embeddings T). embedding_ID e \<in> set (snd u)) \<longrightarrow> fst u \<in> centroid_ids T)"

definition totals_of :: "tables \<Rightarrow> small_result list \<Rightarrow> bool" where
  "totals_of T rs \<longleftrightarrow> distinct (map r_ID rs)
   \<and> (\<forall>r \<in> set rs. \<exists>c \<in> set (t_centroids T). r_ID r = centroid_ID c \<and> r_Vector r = centroid_Vector c
        \<and> r_Total r = length (filter (\<lambda>e. embedding_CentroidID e = centroid_ID c) (t_embeddings T)) \<and> 0 < r_Total r)"

definition refresh_reads :: "(tables \<Rightarrow> tables \<Rightarrow> bool) \<Rightarrow> ('s \<Rightarrow> tables) \<Rightarrow> ('s \<Rightarrow> bool) \<Rightarrow> 's refresh_store \<Rightarrow> bool" where
  "refresh_reads M tbl I R \<longleftrightarrow>
     reads_amid M tbl I (list_categories R) (\<lambda>T cs. set cs = category_ids T)
   \<and> (\<forall>c. reads_amid M tbl I (lock_category R c) (\<lambda>T _. c \<in> category_ids T))
   \<and> (\<forall>c. reads_amid M tbl I (count_embeddings R c) (\<lambda>T n. n = length (category_embeddings T c)))
   \<and> reads_amid M tbl I (take_vector R) (\<lambda>T v. v \<in> embedding_Vector ` set (t_embeddings T))
   \<and> reads_amid M tbl I (create_file R) (\<lambda>_ _. True)
   \<and> (\<forall>c after. reads_amid M tbl I (next_embeddings R c after) (\<lambda>T. next_rows (category_embeddings T c) after))
   \<and> (\<forall>c. reads_amid M tbl I (category_centroids R c) (\<lambda>T r. r = filter (\<lambda>x. centroid_CategoryID x = c) (t_centroids T)))
   \<and> reads_amid M tbl I (ctx_err R) (\<lambda>_ _. True)
   \<and> reads_amid M tbl I (centroid_totals R) totals_of
   \<and> (\<forall>k after. reads_amid M tbl I (next_of_centroid R k after)
        (\<lambda>T. next_rows (filter (\<lambda>e. embedding_CentroidID e = k) (t_embeddings T)) after))
   \<and> (\<forall>f \<in> {begin_lock R, rollback R, commit R}. \<forall>s. I s \<longrightarrow> I (f s) \<and> M (tbl s) (tbl (f s)))"

definition refresh_laws :: "(tables \<Rightarrow> tables \<Rightarrow> bool) \<Rightarrow> ('s \<Rightarrow> tables) \<Rightarrow> ('s \<Rightarrow> bool) \<Rightarrow> 's refresh_store \<Rightarrow> bool" where
  "refresh_laws M tbl I R \<longleftrightarrow> refresh_reads M tbl I R
   \<and> (\<forall>xs. writes_amid M tbl I (save_rows R xs) (rows_saved xs))
   \<and> (\<forall>u. writes_amid M tbl I (assign_centroid R u) (centroid_assigned u))"

section \<open>What a refresh knows\<close>

definition stable :: "(tables \<Rightarrow> bool) \<Rightarrow> bool" where
  "stable K \<longleftrightarrow> (\<forall>T T'. tables_ok T \<longrightarrow> evolves T T' \<longrightarrow> K T \<longrightarrow> K T')"

lemma stableD: "stable K \<Longrightarrow> tables_ok T \<Longrightarrow> evolves T T' \<Longrightarrow> K T \<Longrightarrow> K T'"
  unfolding stable_def by blast

lemma stable_conj [intro]: "stable K \<Longrightarrow> stable L \<Longrightarrow> stable (\<lambda>T. K T \<and> L T)"
  unfolding stable_def by blast

text \<open>Numbers that were given out; centroids of a category; embeddings of its documents.\<close>

definition numbered :: "id list \<Rightarrow> tables \<Rightarrow> bool" where
  "numbered is T \<longleftrightarrow> (\<forall>i \<in> set is. i < t_next T)"

definition held :: "id \<Rightarrow> Centroid list \<Rightarrow> tables \<Rightarrow> bool" where
  "held c xs T \<longleftrightarrow> c < t_next T \<and> (\<forall>x \<in> set xs. known c x T
     \<and> (c \<in> category_ids T \<longrightarrow> centroid_key x \<in> centroid_key ` set (t_centroids T)))"

definition members :: "id \<Rightarrow> id set \<Rightarrow> tables \<Rightarrow> bool" where
  "members c ks T \<longleftrightarrow> (\<forall>k \<in> ks. k < t_next T \<and> (\<forall>e \<in> set (t_embeddings T). embedding_ID e = k \<longrightarrow>
     (\<forall>d \<in> set (t_documents T). document_ID d = embedding_DocumentID e \<longrightarrow> document_CategoryID d = c)))"

lemma stable_numbered [intro]: "stable (numbered is)"
  by (fastforce simp: stable_def numbered_def evolves_def)

lemma stable_held [intro]: "stable (held c xs)"
  unfolding stable_def
proof (intro allI impI)
  fix T T' assume e: "evolves T T'" and h: "held c xs T"
  have "centroid_key x \<in> centroid_key ` set (t_centroids T')" if x: "x \<in> set xs" and c: "c \<in> category_ids T'" for x
  proof -
    have k: "centroid_CategoryID x = c" using h x by (simp add: held_def known_def)
    have "\<not> t_next T \<le> c" using h by (simp add: held_def)
    then have "c \<in> category_ids T"
        and "\<And>k. (k, c) \<in> centroid_key ` set (t_centroids T) \<Longrightarrow> (k, c) \<in> centroid_key ` set (t_centroids T')"
      using e c unfolding evolves_def categories_stay_def by blast+
    moreover have "centroid_key x = (centroid_ID x, c)" using k by (simp add: centroid_key_def)
    moreover have "centroid_key x \<in> centroid_key ` set (t_centroids T)" using h x calculation(1) by (simp add: held_def)
    ultimately show ?thesis by simp
  qed
  then show "held c xs T'" using e h known_evolves unfolding held_def evolves_def by (metis order_less_le_trans)
qed

lemma stable_members [intro]: "stable (members c ks)"
  unfolding stable_def
proof (intro allI impI)
  fix T T' assume ok: "tables_ok T" and e: "evolves T T'" and m: "members c ks T"
  show "members c ks T'"
    unfolding members_def
  proof (intro ballI conjI impI)
    fix k assume k: "k \<in> ks"
    show "k < t_next T'" using m e k unfolding members_def evolves_def by (meson order_less_le_trans)
    fix y d assume y: "y \<in> set (t_embeddings T')" "embedding_ID y = k"
      and d: "d \<in> set (t_documents T')" "document_ID d = embedding_DocumentID y"
    have "k < t_next T" using m k by (simp add: members_def)
    then obtain y0 where y0: "y0 \<in> set (t_embeddings T)" "embedding_ID y0 = k" "embedding_DocumentID y0 = embedding_DocumentID y"
      using e y by (auto simp: evolves_def rows_from_def embedding_key_def)
    have "embedding_DocumentID y0 \<in> document_ids T" using ok y0(1) by (auto simp: tables_ok_def references_ok_def)
    then have "document_ID d < t_next T" using ok d(2) y0(3) by (auto simp: tables_ok_def keys_ok_def)
    then obtain d0 where "d0 \<in> set (t_documents T)" "document_ID d0 = document_ID d" "document_CategoryID d0 = document_CategoryID d"
      using e d(1) by (auto simp: evolves_def rows_from_def document_key_def)
    moreover have "\<forall>d \<in> set (t_documents T). document_ID d = embedding_DocumentID y0 \<longrightarrow> document_CategoryID d = c"
      using m k y0(1,2) unfolding members_def by blast
    ultimately show "document_CategoryID d = c" using y0(3) d(2) by simp
  qed
qed

lemma category_members: "keys_ok T \<Longrightarrow> set b \<subseteq> set (category_embeddings T c) \<Longrightarrow> members c (embedding_ID ` set b) T"
proof -
  assume ok: "keys_ok T" and b: "set b \<subseteq> set (category_embeddings T c)"
  have d: "distinct (map embedding_ID (t_embeddings T))" "distinct (map document_ID (t_documents T))" using ok by (simp_all add: keys_ok_def)
  show "members c (embedding_ID ` set b) T"
    unfolding members_def
  proof (intro ballI conjI impI)
    fix k assume "k \<in> embedding_ID ` set b"
    then obtain x where x: "x \<in> set b" "k = embedding_ID x" by blast
    then have e: "x \<in> set (t_embeddings T)" "\<exists>d \<in> set (t_documents T). document_ID d = embedding_DocumentID x \<and> document_CategoryID d = c"
      using b by (auto simp: category_embeddings_def)
    show "k < t_next T" using ok e(1) x(2) by (simp add: keys_ok_def)
    fix y d' assume y: "y \<in> set (t_embeddings T)" "embedding_ID y = k" and d': "d' \<in> set (t_documents T)" "document_ID d' = embedding_DocumentID y"
    have "y = x" using distinct_ids_eq [OF d(1) y(1) e(1)] y(2) x(2) by simp
    then show "document_CategoryID d' = c" using e(2) d' d(2) by (auto simp: distinct_map inj_on_def)
  qed
qed

lemma filter_held:
  "keys_ok T \<Longrightarrow> c < t_next T \<Longrightarrow> held c (filter (\<lambda>x. centroid_CategoryID x = c) (t_centroids T)) T"
  using known_stored [of T] by (auto simp: held_def)

section \<open>What a refresh writes\<close>

lemma centroids_replaced_advances:
  assumes T': "T' = T\<lparr>t_centroids := cs, t_next := k\<rparr>" and k: "t_next T \<le> k" and num: "rows_numbered centroid_ID cs k"
    and from_old: "rows_from centroid_key (t_next T) (t_centroids T) cs"
    and sub: "centroid_key ` set (t_centroids T) \<subseteq> centroid_key ` set cs" and cat: "centroid_CategoryID ` set cs \<subseteq> category_ids T"
  shows "advances T T'"
  unfolding advances_def
proof
  assume ok: "tables_ok T"
  then have o: "keys_ok T" "indexes_ok T" "references_ok T" "same_category T" by (simp_all add: tables_ok_def)
  have "keys_ok T'" using o(1) k num by (simp add: T' keys_ok_numbered rows_numbered_mono [where n = "t_next T" and k = k])
  moreover have "centroid_ids T \<subseteq> centroid_ID ` set cs"
  proof
    fix i assume "i \<in> centroid_ids T"
    then obtain x where "x \<in> set (t_centroids T)" "i = centroid_ID x" by (auto simp: centroid_ids_def)
    then have "(i, centroid_CategoryID x) \<in> centroid_key ` set cs" using sub by (force simp: centroid_key_def)
    then show "i \<in> centroid_ID ` set cs" by (auto simp: centroid_key_def)
  qed
  then have "embedding_CentroidID ` set (t_embeddings T) \<subseteq> centroid_ID ` set cs" using o(3) unfolding references_ok_def by (meson order_trans)
  then have "references_ok T'" using o(3) cat by (simp add: T' references_ok_def id_sets)
  moreover have "same_category T'"
    unfolding same_category_def
  proof (intro ballI impI)
    fix e d x assume e: "e \<in> set (t_embeddings T')" "embedding_DocumentID e = document_ID d" "embedding_CentroidID e = centroid_ID x"
      and d: "d \<in> set (t_documents T')" and x: "x \<in> set (t_centroids T')"
    have "embedding_CentroidID e \<in> centroid_ids T" using e(1) o(3) by (auto simp: T' references_ok_def)
    then have "centroid_ID x < t_next T" using o(1) e(3) by (auto simp: keys_ok_def)
    then obtain y where "y \<in> set (t_centroids T)" "centroid_ID y = centroid_ID x" "centroid_CategoryID y = centroid_CategoryID x"
      using from_old x by (auto simp: T' rows_from_def centroid_key_def)
    then show "document_CategoryID d = centroid_CategoryID x" using o(4) e d by (auto simp: T' same_category_def)
  qed
  moreover have "indexes_ok T'" using o(2) by (simp add: T' indexes_ok_def)
  moreover have "evolves T T'" using k from_old sub by (simp add: T' evolves_def categories_stay_same)
  ultimately show "tables_ok T' \<and> evolves T T'" by (simp add: tables_ok_def)
qed

lemma upsert_ids [simp]: "centroid_ID ` set (upsert x ys) = insert (centroid_ID x) (centroid_ID ` set ys)"
  by (induction x ys rule: upsert.induct) auto

lemma upsert_distinct: "distinct (map centroid_ID ys) \<Longrightarrow> distinct (map centroid_ID (upsert x ys))"
proof (induction x ys rule: upsert.induct)
  case (2 x y ys)
  have "centroid_ID y \<noteq> centroid_ID x \<Longrightarrow> centroid_ID y \<notin> centroid_ID ` set (upsert x ys)" using 2 by simp
  then show ?case using 2 by auto
qed simp

lemma upsert_set: "set (upsert x ys) \<subseteq> insert x (set ys)"
  by (induction x ys rule: upsert.induct) auto

lemma upsert_new [simp]: "x \<in> set (upsert x ys)"
  by (induction x ys rule: upsert.induct) auto

lemma upsert_others: "y \<in> set ys \<Longrightarrow> centroid_ID y \<noteq> centroid_ID x \<Longrightarrow> y \<in> set (upsert x ys)"
  by (induction x ys rule: upsert.induct) auto

text \<open>A row that is new or has the key of a stored one.\<close>

definition row_fits :: "tables \<Rightarrow> id \<Rightarrow> Centroid \<Rightarrow> bool" where
  "row_fits T k x \<longleftrightarrow> centroid_ID x < k \<and> centroid_CategoryID x \<in> category_ids T
   \<and> (t_next T \<le> centroid_ID x \<or> centroid_key x \<in> centroid_key ` set (t_centroids T))"

definition centroids_like :: "tables \<Rightarrow> id \<Rightarrow> Centroid list \<Rightarrow> bool" where
  "centroids_like T k cs \<longleftrightarrow> rows_numbered centroid_ID cs k \<and> rows_from centroid_key (t_next T) (t_centroids T) cs
   \<and> centroid_key ` set (t_centroids T) \<subseteq> centroid_key ` set cs \<and> centroid_CategoryID ` set cs \<subseteq> category_ids T"

lemma upsert_like:
  assumes "keys_ok T" and "centroids_like T k cs" and "row_fits T k x"
  shows "centroids_like T k (upsert x cs)"
proof -
  note defs = centroids_like_def rows_numbered_def
  have num: "distinct (map centroid_ID cs)" "\<forall>y \<in> set cs. centroid_ID y < k" using assms(2) by (simp_all add: defs)
  have s: "set (upsert x cs) \<subseteq> insert x (set cs)" by (rule upsert_set)
  have "centroid_key y \<in> centroid_key ` set (upsert x cs)" if y: "y \<in> set (t_centroids T)" for y
  proof -
    obtain z where z: "z \<in> set cs" "centroid_key z = centroid_key y" using assms(2) y by (force simp: centroids_like_def)
    show ?thesis
    proof (cases "centroid_ID z = centroid_ID x")
      case True
      have "centroid_ID y < t_next T" using assms(1) y by (simp add: keys_ok_def centroid_ids_def)
      then have "\<not> t_next T \<le> centroid_ID x" using True z(2) by (simp add: centroid_key_def)
      then obtain w where "w \<in> set (t_centroids T)" "centroid_key w = centroid_key x" using assms(3) by (auto simp: row_fits_def)
      then have "centroid_key x = centroid_key y"
        using True z(2) y assms(1) by (auto simp: centroid_key_def keys_ok_def distinct_map inj_on_def)
      then show ?thesis using upsert_new [of x cs] by (metis imageI)
    next
      case False
      then show ?thesis using upsert_others [OF z(1), of x] z(2) by (metis imageI)
    qed
  qed
  then have "centroid_key ` set (t_centroids T) \<subseteq> centroid_key ` set (upsert x cs)" by (rule image_subsetI)
  moreover have "rows_from centroid_key (t_next T) (t_centroids T) (upsert x cs)"
    using assms(2,3) s by (auto simp: centroids_like_def rows_from_def row_fits_def centroid_key_def)
  moreover have "\<forall>y \<in> set (upsert x cs). centroid_ID y < k" using num(2) s assms(3) unfolding row_fits_def by blast
  then have "rows_numbered centroid_ID (upsert x cs) k" using upsert_distinct [OF num(1), of x] by (simp add: rows_numbered_def)
  moreover have "centroid_CategoryID ` set (upsert x cs) \<subseteq> category_ids T"
  proof -
    have "centroid_CategoryID ` set (upsert x cs) \<subseteq> insert (centroid_CategoryID x) (centroid_CategoryID ` set cs)"
      using image_mono [OF s, of centroid_CategoryID] by simp
    moreover have "centroid_CategoryID x \<in> category_ids T" and "centroid_CategoryID ` set cs \<subseteq> category_ids T"
      using assms(2,3) by (simp_all add: centroids_like_def row_fits_def)
    then have "insert (centroid_CategoryID x) (centroid_CategoryID ` set cs) \<subseteq> category_ids T" by simp
    ultimately show ?thesis by (rule order_trans)
  qed
  ultimately show ?thesis unfolding centroids_like_def by (intro conjI)
qed

lemma fold_upsert_like:
  "keys_ok T \<Longrightarrow> centroids_like T k cs \<Longrightarrow> \<forall>x \<in> set xs. row_fits T k x \<Longrightarrow> centroids_like T k (fold upsert xs cs)"
  by (induction xs arbitrary: cs) (simp_all add: upsert_like)

lemma fold_upsert_key:
  assumes "\<forall>y \<in> set xs. centroid_ID y = fst p \<longrightarrow> centroid_key y = p" and "p \<in> centroid_key ` set cs \<or> p \<in> centroid_key ` set xs"
  shows "p \<in> centroid_key ` set (fold upsert xs cs)"
  using assms
proof (induction xs arbitrary: cs)
  case (Cons x xs)
  have "p \<in> centroid_key ` set (upsert x cs)" if "p \<in> centroid_key ` set cs \<or> centroid_key x = p"
  proof (cases "centroid_ID x = fst p")
    case True
    then have "centroid_key x = p" using Cons.prems(1) by simp
    then show ?thesis using upsert_new [of x cs] by blast
  next
    case False
    then show ?thesis using that upsert_others [of _ cs x] by (force simp: centroid_key_def)
  qed
  then show ?case using Cons by auto
qed simp

lemma save_centroids_rows:
  "x \<in> set (save_centroids fresh n xs) \<Longrightarrow>
    \<exists>y \<in> set xs. centroid_CategoryID x = centroid_CategoryID y \<and> (x = y \<and> centroid_ID y \<noteq> 0 \<or> centroid_ID x \<in> range fresh)"
  by (induction fresh n xs rule: save_centroids.induct) (auto split: if_splits)

text \<open>Rows of the category, stored ones or new ones, are saved and then known.\<close>

lemma saved_advances:
  assumes ok: "tables_ok T" and h: "held c ys T" and eff: "rows_saved xs T saved T'"
    and xs: "\<forall>x \<in> set xs. centroid_CategoryID x = c \<and> (centroid_ID x = 0 \<or> centroid_key x \<in> centroid_key ` set ys)"
  shows "advances T T' \<and> held c saved T'"
proof -
  obtain fresh k where saved: "saved = save_centroids fresh 0 xs" "\<forall>n. t_next T \<le> fresh n"
      and k: "t_next T \<le> k" "\<forall>x \<in> set saved. centroid_ID x < k" and T': "T' = T\<lparr>t_centroids := fold upsert saved (t_centroids T), t_next := k\<rparr>"
    using eff unfolding rows_saved_def by blast
  have cats: "centroid_CategoryID ` set xs \<subseteq> category_ids T" using eff by (simp add: rows_saved_def)
  have keys: "keys_ok T" using ok by (simp add: tables_ok_def)
  have sc: "centroid_CategoryID x = c" if "x \<in> set saved" for x
    using save_centroids_rows [of x fresh 0 xs] that xs saved(1) by auto
  have fits: "row_fits T k x" if x: "x \<in> set saved" for x
  proof -
    obtain y where y: "y \<in> set xs" "centroid_CategoryID x = centroid_CategoryID y"
        "x = y \<and> centroid_ID y \<noteq> 0 \<or> centroid_ID x \<in> range fresh"
      using save_centroids_rows x saved(1) by blast
    have c: "c \<in> category_ids T" using cats y(1) xs by auto
    have "centroid_key x \<in> centroid_key ` set (t_centroids T)" if "x = y" "centroid_ID y \<noteq> 0"
    proof -
      obtain z where "z \<in> set ys" "centroid_key z = centroid_key x" using xs y(1) \<open>x = y\<close> \<open>centroid_ID y \<noteq> 0\<close> by force
      then show ?thesis using h c by (metis held_def)
    qed
    then show ?thesis using y(3) saved(2) k(2) x c sc [OF x] by (auto simp: row_fits_def)
  qed
  have "centroids_like T k (t_centroids T)"
    using ok rows_numbered_mono [OF _ k(1), of centroid_ID "t_centroids T"]
    by (simp add: centroids_like_def tables_ok_def keys_ok_numbered references_ok_def)
  then have like: "centroids_like T k (fold upsert saved (t_centroids T))" using fold_upsert_like [OF keys] fits by blast
  then have adv: "advances T T'"
    by (intro centroids_replaced_advances [OF T' k(1)]) (simp_all add: centroids_like_def)
  then have keys': "keys_ok T'" using ok by (simp add: advances_def tables_ok_def)
  have stored: "centroid_key x \<in> centroid_key ` set (t_centroids T')" if "x \<in> set saved" for x
    using that sc by (simp add: T') (intro fold_upsert_key, simp_all add: centroid_key_def)
  have "known c x T'" if x: "x \<in> set saved" for x
  proof -
    obtain z where z: "z \<in> set (t_centroids T')" "centroid_key z = centroid_key x" using stored [OF x] by force
    then have "known (centroid_CategoryID z) z T'" using known_stored [OF keys'] by blast
    then show ?thesis using z(2) sc [OF x] by (simp add: known_def centroid_key_def)
  qed
  moreover have "c < t_next T'" using h k(1) by (simp add: held_def T')
  ultimately show ?thesis using adv stored by (simp add: held_def)
qed

lemma set_vectors_rows:
  "x \<in> set (set_vectors c ds cs) \<Longrightarrow>
    (centroid_ID x = 0 \<and> centroid_CategoryID x = c) \<or> centroid_key x \<in> centroid_key ` set ds"
  by (induction c ds cs rule: set_vectors.induct) (auto simp: centroid_key_def)

lemma rows_saved_length: "rows_saved xs T saved T' \<Longrightarrow> length saved = length xs"
  by (auto simp: rows_saved_def)

lemma set_vectors_advances:
  assumes "tables_ok T" and "held c ds T" and "rows_saved (set_vectors c ds cs) T saved T'"
  shows "advances T T' \<and> held c saved T'"
proof (rule saved_advances [OF assms], rule ballI)
  fix x assume "x \<in> set (set_vectors c ds cs)"
  then show "centroid_CategoryID x = c \<and> (centroid_ID x = 0 \<or> centroid_key x \<in> centroid_key ` set ds)"
    using set_vectors_rows [of x c ds cs] assms(2) by (auto simp: held_def known_def centroid_key_def)
qed

lemma recentered_advances:
  assumes "tables_ok T" and "held c ds T" and "x \<in> set ds" and "rows_saved [x\<lparr>centroid_Vector := v\<rparr>] T saved T'"
  shows "advances T T'"
proof -
  have "centroid_CategoryID x = c" using assms(2,3) by (simp add: held_def known_def)
  moreover have "centroid_key (x\<lparr>centroid_Vector := v\<rparr>) = centroid_key x" by (simp add: centroid_key_def)
  ultimately show ?thesis using saved_advances [OF assms(1,2,4)] assms(3) by simp
qed

lemma rows_numbered_map: "(\<And>r. g (f r) = g r) \<Longrightarrow> rows_numbered g (map f rs) n = rows_numbered g rs n"
  by (simp add: rows_numbered_def comp_def)

lemma rows_from_map: "(\<And>r. f (g r) = f r) \<Longrightarrow> rows_from f n rs (map g rs)"
  by (auto simp: rows_from_def)

lemma assigned_advances:
  assumes eff: "centroid_assigned (k, es) T r T'" and m: "members c (set es) T" and h: "held c xs T" and k: "k \<in> centroid_ID ` set xs"
  shows "advances T T'"
  unfolding advances_def
proof
  assume ok: "tables_ok T"
  let ?f = "\<lambda>e. if embedding_ID e \<in> set es then e\<lparr>embedding_CentroidID := k\<rparr> else e"
  have T': "T' = T\<lparr>t_embeddings := map ?f (t_embeddings T)\<rparr>" using eff by (simp add: centroid_assigned_def update_where_def)
  have same: "embedding_key (?f e) = embedding_key e" for e by (simp add: embedding_key_def)
  have "rows_numbered embedding_ID (map ?f (t_embeddings T)) n = rows_numbered embedding_ID (t_embeddings T) n" for n
    by (rule rows_numbered_map) simp
  then have "keys_ok T'" using ok by (simp add: T' tables_ok_def keys_ok_numbered)
  moreover have "indexes_ok T'" using ok by (simp add: T' tables_ok_def indexes_ok_def)
  moreover have "references_ok T'"
  proof -
    have r: "references_ok T" using ok by (simp add: tables_ok_def)
    have "embedding_CentroidID (?f e) \<in> centroid_ids T" if "e \<in> set (t_embeddings T)" for e
      using that eff r by (auto simp: centroid_assigned_def references_ok_def)
    moreover have "embedding_DocumentID (?f e) \<in> document_ids T" if "e \<in> set (t_embeddings T)" for e
      using that r by (auto simp: references_ok_def)
    ultimately have "embedding_CentroidID ` set (map ?f (t_embeddings T)) \<subseteq> centroid_ids T"
        "embedding_DocumentID ` set (map ?f (t_embeddings T)) \<subseteq> document_ids T"
      unfolding set_map image_image by (meson image_subsetI)+
    then show ?thesis using r by (simp add: T' references_ok_def id_sets del: set_map list.set_map)
  qed
  moreover have "same_category T'"
    unfolding same_category_def
  proof (intro ballI impI)
    fix e' d x assume e': "e' \<in> set (t_embeddings T')" "embedding_DocumentID e' = document_ID d" "embedding_CentroidID e' = centroid_ID x"
      and d: "d \<in> set (t_documents T')" and x: "x \<in> set (t_centroids T')"
    obtain e where e: "e \<in> set (t_embeddings T)" "e' = ?f e" using e'(1) by (auto simp: T')
    show "document_CategoryID d = centroid_CategoryID x"
    proof (cases "embedding_ID e \<in> set es")
      case True
      then have "document_CategoryID d = c" using m e e'(2) d by (auto simp: members_def T')
      moreover have "centroid_CategoryID x = c" using True h k e(2) e'(3) x by (auto simp: held_def known_def T')
      ultimately show ?thesis by simp
    next
      case False
      then show ?thesis using ok e e' d x by (auto simp: T' tables_ok_def same_category_def)
    qed
  qed
  moreover have "evolves T T'"
    using rows_from_map [of embedding_key ?f, OF same] by (simp add: T' evolves_def categories_stay_same)
  ultimately show "tables_ok T' \<and> evolves T T'" by (simp add: tables_ok_def)
qed

end
