(* ===== verification/RefreshKept.thy ===== *)
theory RefreshKept
  imports RefreshRules
begin

text \<open>
  A refresh keeps the tables consistent, whatever fails and whatever the requests beside it do: the proof goes through all steps of the
  refresh, in a locale with the laws of its queries.
\<close>

section \<open>A refresh keeps the tables consistent\<close>

lemma nearest_below:
  assumes "nearest cs [m] = Done idx"
  shows "\<forall>i \<in> set idx. i < length cs"
proof -
  obtain cm where cm: "NewMatrix cs = Done cm" using assms by (auto simp: nearest_def split: outcome.splits)
  have r: "m_rows cm = length cs" "cs \<noteq> []" using NewMatrix_rows [OF cm] cm by (auto simp: NewMatrix_def)
  have "snd (best (map f [0..<m_rows cm])) < length cs" for f using best_index [of "map f [0..<m_rows cm]"] r by simp
  then show ?thesis using assms cm
    by (auto simp: nearest_def MatrixCosineSimilarity_def Let_def split: if_splits)
qed

lemma add_update_fst: "fst ` set (add_update c e us) = insert c (fst ` set us)"
  by (induction c e us rule: add_update.induct) auto

lemma group_updates_fst: "fst ` set (group_updates ids ps us) \<subseteq> (\<lambda>p. ids ! fst p) ` set ps \<union> fst ` set us"
  by (induction ids ps us rule: group_updates.induct) (auto simp: add_update_fst)

lemma group_updates_from:
  assumes "u \<in> set (group_updates ids ps [])"
  shows "fst u \<in> (\<lambda>p. ids ! fst p) ` set ps" and "set (snd u) \<subseteq> (\<lambda>p. embedding_ID (snd p)) ` set ps"
proof -
  show "fst u \<in> (\<lambda>p. ids ! fst p) ` set ps" using group_updates_fst [of ids ps "[]"] assms by auto
  have "\<forall>x \<in> set (snd u). assigned (group_updates ids ps []) x (fst u)"
    using assms by (metis assigned_def prod.collapse)
  then have "\<forall>x \<in> set (snd u). \<exists>p \<in> set ps. embedding_ID (snd p) = x"
    unfolding assigned_group case_prod_beta by auto
  then show "set (snd u) \<subseteq> (\<lambda>p. embedding_ID (snd p)) ` set ps" by force
qed

lemma batch_updates_from:
  assumes "nearest cs [m] = Done idx" and "length cs \<le> length xs" and "\<forall>us. mset (order us) = mset us"
    and "u \<in> set (order (group_updates (map centroid_ID xs) (zip idx b) []))"
  shows "fst u \<in> centroid_ID ` set xs \<and> set (snd u) \<subseteq> embedding_ID ` set b"
proof -
  have "u \<in> set (group_updates (map centroid_ID xs) (zip idx b) [])" using assms(3,4) by (metis set_mset_mset)
  note u = group_updates_from [OF this]
  have "\<forall>i \<in> set idx. i < length xs" using nearest_below [OF assms(1)] assms(2) by auto
  then have "fst u \<in> centroid_ID ` set xs" using u(1) by (auto dest!: set_zip_leftD)
  moreover have "set (snd u) \<subseteq> embedding_ID ` set b" using u(2) by (auto dest!: set_zip_rightD)
  ultimately show ?thesis by blast
qed

definition good_args :: "refresh_args \<Rightarrow> bool" where
  "good_args A \<longleftrightarrow> sorting (a_size_sort A) \<and> sorting (a_small_sort A)
   \<and> (\<forall>us. mset (a_order A us) = mset us) \<and> (\<forall>cs. mset (a_arrival A cs) = mset cs)"

text \<open>The state holds, and so does what is known of the tables.\<close>

definition knows :: "('s \<Rightarrow> tables) \<Rightarrow> ('s \<Rightarrow> bool) \<Rightarrow> (tables \<Rightarrow> bool) \<Rightarrow> 's \<Rightarrow> bool" where
  "knows tbl I K s \<longleftrightarrow> I s \<and> K (tbl s)"

lemma stable_True [intro]: "stable (\<lambda>_. True)"
  by (simp add: stable_def)

locale refreshing =
  fixes tbl :: "'s \<Rightarrow> tables" and I :: "'s \<Rightarrow> bool" and R :: "'s refresh_store"
  assumes consistent: "\<And>s. I s \<Longrightarrow> tables_ok (tbl s)" and laws: "refresh_laws evolves tbl I R"
begin

lemma ask_reads:
  assumes "reads_amid evolves tbl I q ok" and "stable K" and "\<And>T r. tables_ok T \<Longrightarrow> K T \<Longrightarrow> ok T r \<Longrightarrow> L r T"
  shows "runs (knows tbl I K) (knows tbl I K) (ask q) (\<lambda>r. knows tbl I (\<lambda>T. K T \<and> L r T))"
proof (rule runs_ask)
  fix s r s' assume s: "knows tbl I K s" and q: "q s = (r, s')"
  then have I: "I s'" and e: "evolves (tbl s) (tbl s')" and r: "case r of Inr r \<Rightarrow> ok (tbl s') r | Inl e \<Rightarrow> True"
    using assms(1) unfolding reads_amid_def knows_def by (metis fst_conv snd_conv)+
  have "K (tbl s')" using stableD [OF assms(2) _ e] s consistent by (simp add: knows_def)
  then show "case r of Inr r \<Rightarrow> knows tbl I (\<lambda>T. K T \<and> L r T) s' | Inl e \<Rightarrow> knows tbl I K s'"
    using I r assms(3) consistent by (simp add: knows_def split: sum.splits)
qed

lemma ask_writes:
  assumes "writes_amid evolves tbl I q effect" and "stable K"
    and "\<And>T r T'. tables_ok T \<Longrightarrow> K T \<Longrightarrow> effect T r T' \<Longrightarrow> advances T T' \<and> L r T'"
  shows "runs (knows tbl I K) (knows tbl I K) (ask q) (\<lambda>r. knows tbl I (\<lambda>T. K T \<and> L r T))"
proof (rule runs_ask)
  fix s r s' assume s: "knows tbl I K s" and q: "q s = (r, s')"
  then obtain T where T: "evolves (tbl s) T" "tables_ok T"
    and r: "case r of Inr r \<Rightarrow> effect T r (tbl s') \<and> (advances T (tbl s') \<longrightarrow> I s') | Inl e \<Rightarrow> tbl s' = T \<and> I s'"
    using assms(1) unfolding writes_amid_def knows_def by (metis fst_conv snd_conv)
  have K: "K T" using stableD [OF assms(2) _ T(1)] s consistent by (simp add: knows_def)
  show "case r of Inr r \<Rightarrow> knows tbl I (\<lambda>T. K T \<and> L r T) s' | Inl e \<Rightarrow> knows tbl I K s'"
  proof (cases r)
    case (Inr x)
    then have a: "advances T (tbl s')" "L x (tbl s')" using r assms(3) [OF T(2) K] by auto
    then have "K (tbl s')" using stableD [OF assms(2) T(2) _ K] T(2) by (simp add: advances_def)
    then show ?thesis using a r Inr by (simp add: knows_def)
  qed (use r K in \<open>simp add: knows_def\<close>)
qed

lemma reading: "refresh_reads evolves tbl I R"
  using laws by (simp add: refresh_laws_def)

lemma runs_assign:
  assumes "fst u \<in> centroid_ID ` set xs" and "set (snd u) \<subseteq> ks"
  shows "runs (knows tbl I (\<lambda>T. held c xs T \<and> members c ks T)) (knows tbl I (\<lambda>T. held c xs T \<and> members c ks T))
    (ask (assign_centroid R u)) (\<lambda>_. knows tbl I (\<lambda>T. held c xs T \<and> members c ks T))"
proof (rule runs_conseq [OF ask_writes [where L = "\<lambda>_ _. True"]])
  show "writes_amid evolves tbl I (assign_centroid R u) (centroid_assigned u)" using laws unfolding refresh_laws_def by blast
  fix T r T' assume "held c xs T \<and> members c ks T" "centroid_assigned u T r T'"
  moreover from this have "members c (set (snd u)) T" using assms(2) by (auto simp: members_def)
  ultimately show "advances T T' \<and> True"
    using assigned_advances [of "fst u" "snd u" T r T' c xs] assms(1) by simp
qed (auto simp: knows_def)

lemma runs_assign_groups:
  assumes "\<forall>u \<in> set us. fst u \<in> centroid_ID ` set xs \<and> set (snd u) \<subseteq> ks"
  shows "runs (knows tbl I (\<lambda>T. held c xs T \<and> members c ks T)) (knows tbl I (\<lambda>T. held c xs T \<and> members c ks T))
    (assign_groups R us) (\<lambda>_. knows tbl I (\<lambda>T. held c xs T \<and> members c ks T))"
  using assms
proof (induction us)
  case Nil
  then show ?case by (simp add: runs_give)
next
  case (Cons u us)
  have "reads_amid evolves tbl I (ctx_err R) (\<lambda>_ _. True)" using reading by (simp add: refresh_reads_def)
  then have "runs (knows tbl I (\<lambda>T. held c xs T \<and> members c ks T)) (knows tbl I (\<lambda>T. held c xs T \<and> members c ks T)) (ask (ctx_err R))
      (\<lambda>_. knows tbl I (\<lambda>T. held c xs T \<and> members c ks T))"
    using ask_reads [of "ctx_err R" "\<lambda>_ _. True" "\<lambda>T. held c xs T \<and> members c ks T" "\<lambda>_ _. True"] by auto
  moreover have "runs (knows tbl I (\<lambda>T. held c xs T \<and> members c ks T)) (knows tbl I (\<lambda>T. held c xs T \<and> members c ks T))
      (ignored (ask (assign_centroid R u))) (\<lambda>_. knows tbl I (\<lambda>T. held c xs T \<and> members c ks T))"
    using Cons.prems by (intro runs_ignored runs_assign) simp_all
  ultimately show ?case unfolding assign_groups.simps using Cons by (intro runs_and_then) simp_all
qed

lemma runs_assign_batch:
  assumes "length cs \<le> length xs" and "\<forall>us. mset (a_order A us) = mset us"
  shows "runs (knows tbl I (\<lambda>T. held c xs T \<and> members c (embedding_ID ` set b) T)) (knows tbl I (\<lambda>T. held c xs T \<and> members c (embedding_ID ` set b) T))
    (assign_batch R A cs (map centroid_ID xs) b y) (\<lambda>_. knows tbl I (\<lambda>T. held c xs T \<and> members c (embedding_ID ` set b) T))"
proof -
  let ?P = "knows tbl I (\<lambda>T. held c xs T \<and> members c (embedding_ID ` set b) T)"
  have 1: "runs ?P ?P (compute (Some (NewMatrix (map embedding_Vector b)))) (\<lambda>_. ?P)" by (rule runs_compute)
  have 2: "runs ?P ?P (compute (Some (nearest cs [m]))) (\<lambda>idx s. ?P s \<and> nearest cs [m] = Done idx)" for m
    by (rule runs_compute) simp_all
  have 3: "runs ?P (\<lambda>s. ?P s \<and> nearest cs [m] = Done idx)
      (assign_groups R (a_order A (group_updates (map centroid_ID xs) (zip idx b) []))) (\<lambda>_. ?P)" for m idx
  proof (cases "nearest cs [m] = Done idx")
    case True
    show ?thesis using batch_updates_from [OF True assms] by (intro runs_conseq [OF runs_assign_groups]) auto
  qed (simp add: runs_def)
  show ?thesis unfolding assign_batch_def by (rule runs_and_then [OF 1], rule runs_and_then [OF 2 3])
qed

lemma runs_saved_rows:
  assumes "\<And>T saved T'. tables_ok T \<Longrightarrow> K T \<Longrightarrow> rows_saved xs T saved T' \<Longrightarrow> advances T T' \<and> L saved T'" and "stable K"
  shows "runs (knows tbl I K) (knows tbl I K) (ask (save_rows R xs)) (\<lambda>saved. knows tbl I (\<lambda>T. K T \<and> L saved T))"
proof (rule ask_writes [OF _ assms(2,1)])
  show "writes_amid evolves tbl I (save_rows R xs) (rows_saved xs)" using laws unfolding refresh_laws_def by blast
qed

lemma runs_ctx: "stable K \<Longrightarrow> runs (knows tbl I K) (knows tbl I K) (ask (ctx_err R)) (\<lambda>_. knows tbl I K)"
  using ask_reads [of "ctx_err R" "\<lambda>_ _. True" K "\<lambda>_ _. True"] reading unfolding refresh_reads_def by auto

lemma runs_next:
  assumes "stable K"
  shows "runs (knows tbl I K) (knows tbl I K) (ask (next_of_centroid R k after)) (\<lambda>_. knows tbl I K)"
    and "runs (knows tbl I K) (knows tbl I K) (ask (next_embeddings R c after)) (\<lambda>b. knows tbl I (\<lambda>T. K T \<and> members c (embedding_ID ` set b) T))"
proof -
  have "reads_amid evolves tbl I (next_of_centroid R k after)
      (\<lambda>T. next_rows (filter (\<lambda>e. embedding_CentroidID e = k) (t_embeddings T)) after)"
    using reading unfolding refresh_reads_def by blast
  then show "runs (knows tbl I K) (knows tbl I K) (ask (next_of_centroid R k after)) (\<lambda>_. knows tbl I K)"
    using ask_reads [OF _ assms, of _ _ "\<lambda>_ _. True"] by auto
  have "reads_amid evolves tbl I (next_embeddings R c after) (\<lambda>T. next_rows (category_embeddings T c) after)"
    using reading unfolding refresh_reads_def by blast
  then show "runs (knows tbl I K) (knows tbl I K) (ask (next_embeddings R c after))
      (\<lambda>b. knows tbl I (\<lambda>T. K T \<and> members c (embedding_ID ` set b) T))"
    by (rule ask_reads [OF _ assms], intro category_members) (auto simp: next_rows_def tables_ok_def)
qed

lemma runs_drop_small:
  assumes "sorting (a_small_sort A)" and "stable K"
  shows "runs (knows tbl I K) (knows tbl I K) (drop_small R A) (\<lambda>_. knows tbl I K)"
proof -
  have "reads_amid evolves tbl I (centroid_totals R) totals_of" using reading unfolding refresh_reads_def by blast
  then have 1: "runs (knows tbl I K) (knows tbl I K) (ask (centroid_totals R)) (\<lambda>_. knows tbl I K)"
    using ask_reads [OF _ assms(2), of _ _ "\<lambda>_ _. True"] by auto
  have 2: "runs (knows tbl I K) (knows tbl I K) (compute r) (\<lambda>_. knows tbl I K)" for r :: "'z outcome option"
    by (rule runs_compute)
  show ?thesis unfolding drop_small_def
    by (rule runs_and_then [OF runs_with_error [OF 1]])
      (auto simp: cut_small_sorted [OF assms(1)] Let_def intro!: runs_give runs_and_then [OF 2])
qed

lemma runs_recenter:
  assumes "x \<in> set xs"
  shows "runs (knows tbl I (held c xs)) (knows tbl I (held c xs)) (recenter R A x) (\<lambda>_. knows tbl I (held c xs))"
proof -
  let ?P = "knows tbl I (held c xs)"
  have 1: "runs ?P ?P (compute r) (\<lambda>_. ?P)" for r :: "'z outcome option"
    by (rule runs_compute)
  have 2: "runs ?P ?P (find_in_batches n (next_of_centroid R k) sum_batch after y) (\<lambda>_. ?P)" for n k after y
    by (rule runs_find [where B = "\<lambda>_. ?P"]) (auto simp: sum_batch_def intro: runs_next 1)
  have 3: "runs ?P ?P (ask (save_rows R [x\<lparr>centroid_Vector := v\<rparr>])) (\<lambda>_. ?P)" for v
    by (rule runs_conseq [OF runs_saved_rows [where K = "held c xs" and L = "\<lambda>_ _. True"]])
      (auto simp: knows_def recentered_advances [OF _ _ assms])
  show ?thesis unfolding recenter_def
    by (rule runs_and_then [OF 1], rule runs_and_then [OF runs_with_error [OF 2]])
      (auto intro!: runs_and_then [OF 3] runs_give)
qed

lemma runs_recenter_all:
  "set ys \<subseteq> set xs \<Longrightarrow> runs (knows tbl I (held c xs)) (knows tbl I (held c xs)) (recenter_all R A ys) (\<lambda>_. knows tbl I (held c xs))"
proof (induction ys)
  case Nil
  then show ?case by (simp add: runs_give)
next
  case (Cons y ys)
  let ?P = "knows tbl I (held c xs)"
  have 1: "runs ?P ?P (attempt (ask (ctx_err R))) (\<lambda>_. ?P)"
    by (rule runs_conseq [OF runs_attempt [OF runs_ctx]]) (auto split: sum.splits)
  have "runs ?P ?P (ignored (recenter R A y)) (\<lambda>_. ?P)" using Cons.prems by (intro runs_ignored runs_recenter) simp_all
  then show ?case using Cons unfolding recenter_all.simps
    by (intro runs_and_then [OF 1]) (auto split: sum.splits intro: runs_give runs_and_then)
qed

lemma runs_store_centroids:
  assumes "good_args A"
  shows "runs (knows tbl I (numbered [c])) (knows tbl I (numbered [c])) (store_centroids R A c cs) (\<lambda>_. knows tbl I (numbered [c]))"
proof -
  let ?N = "numbered [c]"
  let ?P = "\<lambda>db. knows tbl I (\<lambda>T. ?N T \<and> held c db T)"
  let ?H = "\<lambda>saved. knows tbl I (held c saved)"
  have "reads_amid evolves tbl I (category_centroids R c) (\<lambda>T r. r = filter (\<lambda>x. centroid_CategoryID x = c) (t_centroids T))"
    using reading unfolding refresh_reads_def by blast
  then have 1: "runs (knows tbl I ?N) (knows tbl I ?N) (ask (category_centroids R c)) ?P"
    by (rule ask_reads) (auto simp: numbered_def tables_ok_def intro: filter_held)
  have 2: "runs (?P db) (?P db) (ask (save_rows R (set_vectors c db cs)))
      (\<lambda>saved. knows tbl I (\<lambda>T. (?N T \<and> held c db T) \<and> held c saved T \<and> length cs \<le> length saved))" for db
    using rows_saved_length set_vectors_advances by (intro runs_saved_rows) (fastforce simp: set_vectors_length)+
  have 3: "runs (?H saved) (?H saved) (compute r) (\<lambda>_. ?H saved)" for saved and r :: "'z outcome option" by (rule runs_compute)
  have 4: "runs (?H saved) (?H saved) (find_in_batches n (next_embeddings R c) (assign_batch R A cs (map centroid_ID saved)) 0 ()) (\<lambda>_. ?H saved)"
    if "length cs \<le> length saved" for saved n
    using that assms
    by (intro runs_find [where B = "\<lambda>b. knows tbl I (\<lambda>T. held c saved T \<and> members c (embedding_ID ` set b) T)"] runs_next(2))
      (auto simp: good_args_def knows_def intro!: runs_conseq [OF runs_assign_batch])
  have 5: "runs (?H saved) (?H saved) (drop_small R A) (\<lambda>_. ?H saved)" for saved
    using assms by (intro runs_drop_small) (auto simp: good_args_def)
  have rest: "runs (?H saved) (?H saved) (apply_centroids R A c cs saved) (\<lambda>_. ?H saved)" if "length cs \<le> length saved" for saved
    using that unfolding apply_centroids_def
    by (intro runs_and_then [OF 3] runs_and_then [OF runs_with_error [OF 4]] runs_and_then [OF runs_with_error [OF 5]] runs_recenter_all) simp_all
  have 6: "runs (knows tbl I ?N) (knows tbl I (\<lambda>T. (?N T \<and> held c db T) \<and> held c saved T \<and> length cs \<le> length saved))
      (apply_centroids R A c cs saved) (\<lambda>_. knows tbl I ?N)" for db saved
  proof (cases "length cs \<le> length saved")
    case True
    show ?thesis by (rule runs_conseq [OF rest [OF True]]) (auto simp: knows_def held_def numbered_def)
  qed (simp add: runs_def knows_def)
  have 7: "runs (knows tbl I ?N) (?P db) (ask (save_rows R (set_vectors c db cs)))
      (\<lambda>saved. knows tbl I (\<lambda>T. (?N T \<and> held c db T) \<and> held c saved T \<and> length cs \<le> length saved))" for db
    by (rule runs_conseq [OF 2]) (auto simp: knows_def)
  show ?thesis
    unfolding store_centroids_def
    by (rule runs_and_then [OF runs_with_error [OF 1]], rule runs_and_then [OF runs_with_error [OF 7] 6])
qed

lemma runs_plain: "reads_amid evolves tbl I q ok \<Longrightarrow> stable K \<Longrightarrow> runs (knows tbl I K) (knows tbl I K) (ask q) (\<lambda>_. knows tbl I K)"
  using ask_reads [of q ok K "\<lambda>_ _. True"] by auto

lemma runs_category:
  assumes "good_args A"
  shows "runs (knows tbl I (numbered [c])) (knows tbl I (numbered [c])) (KMeansDivideAndConquer R A c) (\<lambda>_. knows tbl I (numbered [c]))"
proof -
  let ?P = "knows tbl I (numbered [c])"
  have q: "runs ?P ?P (ask (count_embeddings R c)) (\<lambda>_. ?P)" "runs ?P ?P (ask (take_vector R)) (\<lambda>_. ?P)"
      "runs ?P ?P (ask (create_file R)) (\<lambda>_. ?P)"
    using reading unfolding refresh_reads_def by (blast intro: runs_plain)+
  have c: "runs ?P ?P (compute r) (\<lambda>_. ?P)" for r :: "'z outcome option" by (rule runs_compute)
  have f: "runs ?P ?P (find_in_batches n (next_embeddings R c) write_batch 0 x) (\<lambda>_. ?P)" for n x
    by (rule runs_find [where B = "\<lambda>_. ?P"])
      (auto simp: write_batch_def knows_def intro: runs_give runs_conseq [OF runs_next(2)])
  show ?thesis
    unfolding KMeansDivideAndConquer_def
    by (intro runs_and_then [OF runs_with_error [OF q(1)]] runs_and_then [OF runs_with_error [OF q(2)]] runs_and_then [OF c]
        runs_and_then [OF runs_with_error [OF q(3)]] runs_and_then [OF runs_with_error [OF f]])
      (auto intro!: runs_give runs_and_then [OF c] runs_store_centroids [OF assms])
qed

lemma runs_only_if:
  assumes "f \<in> {begin_lock R, rollback R, commit R}" and "stable K"
  shows "runs (knows tbl I K) (knows tbl I K) (only_if b f) (\<lambda>_. knows tbl I K)"
proof (cases b)
  case True
  have f: "I (f s)" "evolves (tbl s) (tbl (f s))" if "I s" for s
    using that reading assms(1) unfolding refresh_reads_def by blast+
  have "knows tbl I K (f s)" if "knows tbl I K s" for s
    using that f [of s] stableD [OF assms(2) consistent, of s] by (simp add: knows_def)
  then show ?thesis using True by (simp add: only_if_def runs_act)
qed (simp add: only_if_def runs_give)

text \<open>What is stable may be added to the invariant.\<close>

lemma framed:
  assumes "stable F"
  shows "refreshing tbl (\<lambda>s. I s \<and> F (tbl s)) R"
proof
  show "I s \<and> F (tbl s) \<Longrightarrow> tables_ok (tbl s)" for s using consistent by blast
  let ?I = "\<lambda>s. I s \<and> F (tbl s)"
  have r: "reads_amid evolves tbl ?I q ok" if "reads_amid evolves tbl I q ok" for q :: "'s \<Rightarrow> (error + 'r) \<times> 's" and ok
    using that stableD [OF assms consistent] unfolding reads_amid_def by blast
  have w: "writes_amid evolves tbl ?I q eff" if q: "writes_amid evolves tbl I q eff" for q :: "'s \<Rightarrow> (error + 'r) \<times> 's" and eff
    unfolding writes_amid_def
  proof (intro allI impI)
    fix s assume s: "I s \<and> F (tbl s)"
    obtain T where T: "evolves (tbl s) T" "tables_ok T" "case fst (q s) of
          Inr r \<Rightarrow> eff T r (tbl (snd (q s))) \<and> (advances T (tbl (snd (q s))) \<longrightarrow> I (snd (q s)))
        | Inl e \<Rightarrow> tbl (snd (q s)) = T \<and> I (snd (q s))"
      using q s unfolding writes_amid_def by blast
    have F: "F T" using stableD [OF assms consistent T(1)] s by blast
    then have "advances T (tbl (snd (q s))) \<Longrightarrow> F (tbl (snd (q s)))"
      using stableD [OF assms T(2)] T(2) by (simp add: advances_def)
    then show "\<exists>T. evolves (tbl s) T \<and> tables_ok T \<and> (case fst (q s) of
          Inr r \<Rightarrow> eff T r (tbl (snd (q s))) \<and> (advances T (tbl (snd (q s))) \<longrightarrow> I (snd (q s)) \<and> F (tbl (snd (q s))))
        | Inl e \<Rightarrow> tbl (snd (q s)) = T \<and> I (snd (q s)) \<and> F (tbl (snd (q s))))"
      using T F by (intro exI [of _ T]) (auto split: sum.splits)
  qed
  have "refresh_reads evolves tbl ?I R"
    using reading stableD [OF assms consistent] unfolding refresh_reads_def by (blast intro: r)
  then show "refresh_laws evolves tbl ?I R"
    using laws unfolding refresh_laws_def by (blast intro: w)
qed

lemma runs_category_among:
  assumes "good_args A" and "c \<in> set all"
  shows "runs (knows tbl I (numbered all)) (knows tbl I (numbered all)) (KMeansDivideAndConquer R A c) (\<lambda>_. knows tbl I (numbered all))"
  by (rule runs_conseq [OF refreshing.runs_category [OF framed [OF stable_numbered [of all]] assms(1), of c]])
    (use assms(2) in \<open>auto simp: knows_def numbered_def\<close>)

lemma runs_each:
  assumes "\<forall>c. good_args (A c)"
  shows "set cs \<subseteq> set all \<Longrightarrow> runs (knows tbl I (numbered all)) (knows tbl I (numbered all)) (refresh_each R A postgres cs) (\<lambda>_. knows tbl I (numbered all))"
proof (induction cs arbitrary: postgres)
  case Nil
  then show ?case by (simp add: runs_give)
next
  case (Cons c cs)
  let ?P = "knows tbl I (numbered all)"
  have o: "runs ?P ?P (only_if b f) (\<lambda>_. ?P)" if "f \<in> {begin_lock R, rollback R, commit R}" for b f
    using that by (rule runs_only_if) auto
  have "reads_amid evolves tbl I (lock_category R c) (\<lambda>T _. c \<in> category_ids T)"
    using reading unfolding refresh_reads_def by blast
  then have "runs ?P ?P (ask (lock_category R c)) (\<lambda>_. ?P)" by (rule runs_plain) auto
  then have l: "runs ?P ?P (attempt (ask (lock_category R c))) (\<lambda>_. ?P)"
    by (rule runs_conseq [OF runs_attempt]) (auto split: sum.splits)
  have k: "runs ?P ?P (attempt (KMeansDivideAndConquer R (A c) c)) (\<lambda>_. ?P)"
    using assms Cons.prems by (intro runs_conseq [OF runs_attempt [OF runs_category_among]]) (auto split: sum.splits)
  have ih: "runs ?P ?P (refresh_each R A b cs) (\<lambda>_. ?P)" for b using Cons by simp
  show ?case
    unfolding refresh_each.simps
    by (rule runs_and_then [OF o], simp, rule runs_and_then [OF l])
      (auto split: sum.splits intro!: runs_and_then [OF o] runs_and_then [OF k] ih runs_give o)
qed

lemma refresh_keeps:
  assumes "\<forall>c. good_args (A c)" and "I s"
  shows "I (snd (RefreshCentroids R A postgres s))"
proof -
  have "reads_amid evolves tbl I (list_categories R) (\<lambda>T cs. set cs = category_ids T)"
    using reading unfolding refresh_reads_def by blast
  then have "runs (knows tbl I (\<lambda>_. True)) (knows tbl I (\<lambda>_. True)) (ask (list_categories R)) (\<lambda>cs. knows tbl I (\<lambda>T. True \<and> numbered cs T))"
    by (rule ask_reads) (auto simp: numbered_def tables_ok_def keys_ok_def)
  then have l: "runs I I (ask (list_categories R)) (\<lambda>cs. knows tbl I (numbered cs))"
    by (rule runs_conseq) (auto simp: knows_def)
  have e: "runs I (knows tbl I (numbered cs)) (refresh_each R A postgres cs) (\<lambda>_. I)" for cs
    by (rule runs_conseq [OF runs_each [OF assms(1) order_refl]]) (auto simp: knows_def)
  have "runs I I (RefreshCentroids R A postgres) (\<lambda>_. I)"
    unfolding RefreshCentroids_def
    by (rule runs_and_then [OF runs_attempt [OF l]]) (auto split: sum.splits intro: runs_give e)
  then show ?thesis
    using assms(2) unfolding runs_def
    by (cases "RefreshCentroids R A postgres s") (fastforce split: option.splits outcome.splits sum.splits)
qed

end

end
