(* ===== verification/RefreshServer.thy ===== *)
theory RefreshServer
  imports RefreshKept
begin

text \<open>
  The refresh of a running server: a refresh store in memory, and the interleaving of a refresh with the requests of the server, which come
  between its queries. Then what holds of them: the server stays consistent, and every lock is given back.
\<close>

section \<open>A refresh store in memory\<close>

definition rows_after :: "Embedding list \<Rightarrow> id \<Rightarrow> Embedding list" where
  "rows_after rows after = take BATCH_SIZE_DATABASE (sort_key embedding_ID (filter (\<lambda>e. after < embedding_ID e) rows))"

definition small_result_of :: "tables \<Rightarrow> Centroid \<Rightarrow> small_result" where
  "small_result_of T c = \<lparr>r_ID = centroid_ID c, r_Vector = centroid_Vector c,
     r_Total = length (filter (\<lambda>e. embedding_CentroidID e = centroid_ID c) (t_embeddings T))\<rparr>"

definition save_in_memory :: "Centroid list \<Rightarrow> tables \<Rightarrow> (error + Centroid list) \<times> tables" where
  "save_in_memory xs T =
     (if centroid_CategoryID ` set xs \<subseteq> category_ids T
      then let saved = save_centroids (\<lambda>n. t_next T + n) 0 xs
           in (Inr saved, T\<lparr>t_centroids := fold upsert saved (t_centroids T),
                            t_next := foldr (\<lambda>x n. max (Suc (centroid_ID x)) n) saved (t_next T)\<rparr>)
      else (Inl constraint_error, T))"

definition memory_refresh :: "memory refresh_store" where
  "memory_refresh = \<lparr>
     list_categories = faulty (\<lambda>T. (Inr (map category_ID (t_categories T)), T)),
     begin_lock = \<lambda>d. d,
     lock_category = \<lambda>c. faulty (\<lambda>T. (if c \<in> category_ids T then Inr () else Inl [RecordNotFound], T)),
     rollback = \<lambda>d. d,
     commit = \<lambda>d. d,
     count_embeddings = \<lambda>c. faulty (\<lambda>T. (Inr (length (category_embeddings T c)), T)),
     take_vector = faulty (\<lambda>T. (case t_embeddings T of [] \<Rightarrow> Inl [RecordNotFound] | e # _ \<Rightarrow> Inr (embedding_Vector e), T)),
     create_file = faulty (\<lambda>T. (Inr (), T)),
     next_embeddings = \<lambda>c after. faulty (\<lambda>T. (Inr (rows_after (category_embeddings T c) after), T)),
     category_centroids = \<lambda>c. faulty (\<lambda>T. (Inr (filter (\<lambda>x. centroid_CategoryID x = c) (t_centroids T)), T)),
     save_rows = \<lambda>xs. faulty (save_in_memory xs),
     assign_centroid = \<lambda>u. faulty (\<lambda>T.
       if (\<exists>e \<in> set (t_embeddings T). embedding_ID e \<in> set (snd u)) \<and> fst u \<notin> centroid_ids T then (Inl constraint_error, T)
       else (Inr (), T\<lparr>t_embeddings := update_where u (t_embeddings T)\<rparr>)),
     ctx_err = faulty (\<lambda>T. (Inr (), T)),
     centroid_totals = faulty (\<lambda>T. (Inr (filter (\<lambda>r. 0 < r_Total r) (map (small_result_of T) (t_centroids T))), T)),
     next_of_centroid = \<lambda>k after. faulty (\<lambda>T. (Inr (rows_after (filter (\<lambda>e. embedding_CentroidID e = k) (t_embeddings T)) after), T))\<rparr>"

text \<open>The store in memory, with its script or, if \<open>strict\<close>, at the end of it, when it no longer fails.\<close>

definition memory_at :: "bool \<Rightarrow> memory \<Rightarrow> bool" where
  "memory_at strict d \<longleftrightarrow> tables_ok (mem d) \<and> (strict \<longrightarrow> script d = [])"

lemma faulty_result:
  "faulty q d = (if \<exists>e rest. script d = Some e # rest then (Inl (filter (\<lambda>l. l \<noteq> RecordNotFound) (the (hd (script d)))), d\<lparr>script := tl (script d)\<rparr>)
    else (fst (q (mem d)), \<lparr>mem = snd (q (mem d)), script = tl (script d)\<rparr>))"
  by (auto simp: faulty_def case_prod_beta split: list.splits option.splits)

lemma faulty_reads:
  assumes "\<And>T. snd (q T) = T" and "\<And>T. tables_ok T \<Longrightarrow> case fst (q T) of Inr r \<Rightarrow> ok T r | Inl e \<Rightarrow> True"
  shows "reads_amid (=) mem (memory_at strict) (faulty q) ok"
  unfolding reads_amid_def
proof (intro allI impI)
  fix d :: memory assume "memory_at strict d"
  then show "memory_at strict (snd (faulty q d)) \<and> mem d = mem (snd (faulty q d))
      \<and> (case fst (faulty q d) of Inr r \<Rightarrow> ok (mem (snd (faulty q d))) r | Inl e \<Rightarrow> True)"
    using assms(1) [of "mem d"] assms(2) [of "mem d"]
    by (auto simp: faulty_result memory_at_def split: sum.splits)
qed

lemma faulty_writes:
  assumes "\<And>T. tables_ok T \<Longrightarrow> case fst (q T) of Inr r \<Rightarrow> eff T r (snd (q T)) | Inl e \<Rightarrow> snd (q T) = T"
  shows "writes_amid (=) mem (memory_at strict) (faulty q) eff"
  unfolding writes_amid_def
proof (intro allI impI)
  fix d :: memory assume ok: "memory_at strict d"
  then have "case fst (q (mem d)) of Inr r \<Rightarrow> eff (mem d) r (snd (q (mem d))) | Inl e \<Rightarrow> snd (q (mem d)) = mem d"
    using assms by (simp add: memory_at_def)
  then show "\<exists>T. mem d = T \<and> tables_ok T \<and> (case fst (faulty q d) of
      Inr r \<Rightarrow> eff T r (mem (snd (faulty q d))) \<and> (advances T (mem (snd (faulty q d))) \<longrightarrow> memory_at strict (snd (faulty q d)))
    | Inl e \<Rightarrow> mem (snd (faulty q d)) = T \<and> memory_at strict (snd (faulty q d)))"
    using ok by (auto simp: faulty_result memory_at_def advances_def split: sum.splits)
qed

lemma sorted_strict:
  "distinct (map f xs) \<Longrightarrow> sorted_wrt (\<lambda>x y. f x < f y) (sort_key f xs)" for f :: "'a \<Rightarrow> nat"
proof -
  assume "distinct (map f xs)"
  moreover have "mset (map f (sort_key f xs)) = mset (map f xs)" by simp
  ultimately have "distinct (map f (sort_key f xs))" by (metis mset_eq_imp_distinct_iff)
  then have "sorted_wrt (<) (map f (sort_key f xs))" by (simp add: strict_sorted_iff)
  then show ?thesis by (simp add: sorted_wrt_map)
qed

lemma rows_after_next:
  assumes "distinct (map embedding_ID rows)"
  shows "next_rows rows after (rows_after rows after)"
proof -
  let ?xs = "sort_key embedding_ID (filter (\<lambda>e. after < embedding_ID e) rows)" and ?n = BATCH_SIZE_DATABASE
  have s: "sorted_wrt (\<lambda>x y. embedding_ID x < embedding_ID y) ?xs"
    using assms by (intro sorted_strict distinct_map_filter)
  then have st: "sorted_wrt (\<lambda>x y. embedding_ID x < embedding_ID y) (take ?n ?xs @ drop ?n ?xs)" by simp
  have "0 < ?n" by (simp add: BATCH_SIZE_DATABASE_def)
  then have ne: "take ?n ?xs \<noteq> []" if "drop ?n ?xs \<noteq> []" using that by (cases ?xs; cases ?n) simp_all
  have "e \<in> set (take ?n ?xs) \<or> take ?n ?xs \<noteq> [] \<and> embedding_ID (last (take ?n ?xs)) < embedding_ID e" if e: "e \<in> set ?xs" for e
  proof (cases "e \<in> set (take ?n ?xs)")
    case False
    then have d: "e \<in> set (drop ?n ?xs)" using e by (metis UnE append_take_drop_id set_append)
    then have "take ?n ?xs \<noteq> []" using ne by fastforce
    moreover from this have "last (take ?n ?xs) \<in> set (take ?n ?xs)" by (rule last_in_set)
    ultimately show ?thesis using st d unfolding sorted_wrt_append by blast
  qed simp
  moreover have "set (take ?n ?xs) \<subseteq> set ?xs" by (rule set_take_subset)
  ultimately show ?thesis using st by (auto simp: next_rows_def rows_after_def sorted_wrt_append)
qed

lemma next_above: "n \<le> foldr (\<lambda>x m. max (Suc (f x)) m) xs n" "x \<in> set xs \<Longrightarrow> f x < foldr (\<lambda>x m. max (Suc (f x)) m) xs n"
  for f :: "'a \<Rightarrow> nat" by (induction xs) auto

lemma memory_refresh_reads: "refresh_reads (=) mem (memory_at strict) memory_refresh"
  unfolding refresh_reads_def memory_refresh_def refresh_store.simps
proof (intro conjI allI)
  fix k after
  show "reads_amid (=) mem (memory_at strict) (faulty (\<lambda>T. (Inr (rows_after (category_embeddings T k) after), T)))
      (\<lambda>T. next_rows (category_embeddings T k) after)"
    by (rule faulty_reads) (auto intro!: rows_after_next distinct_map_filter simp: category_embeddings_def tables_ok_def keys_ok_def)
  show "reads_amid (=) mem (memory_at strict) (faulty (\<lambda>T. (Inr (rows_after (filter (\<lambda>e. embedding_CentroidID e = k) (t_embeddings T)) after), T)))
      (\<lambda>T. next_rows (filter (\<lambda>e. embedding_CentroidID e = k) (t_embeddings T)) after)"
    by (rule faulty_reads) (auto intro!: rows_after_next distinct_map_filter simp: tables_ok_def keys_ok_def)
  show "reads_amid (=) mem (memory_at strict) (faulty (\<lambda>T. (Inr (filter (\<lambda>r. 0 < r_Total r) (map (small_result_of T) (t_centroids T))), T))) totals_of"
    by (rule faulty_reads)
      (auto simp: totals_of_def small_result_of_def tables_ok_def keys_ok_def comp_def intro!: distinct_map_filter)
qed (rule faulty_reads, auto simp: category_ids_def split: list.splits)+

lemma memory_refresh_at: "refresh_laws (=) mem (memory_at strict) memory_refresh"
  unfolding refresh_laws_def
proof (intro conjI allI)
  fix xs u
  have "rows_saved xs T (save_centroids (\<lambda>n. t_next T + n) 0 xs) (snd (save_in_memory xs T))"
    if "centroid_CategoryID ` set xs \<subseteq> category_ids T" for T
    using that next_above [where f = centroid_ID and n = "t_next T"]
    by (auto simp: rows_saved_def save_in_memory_def Let_def intro!: exI [of _ "\<lambda>n. t_next T + n"])
  then show "writes_amid (=) mem (memory_at strict) (save_rows memory_refresh xs) (rows_saved xs)"
    unfolding memory_refresh_def refresh_store.simps by (intro faulty_writes) (auto simp: save_in_memory_def Let_def)
  show "writes_amid (=) mem (memory_at strict) (assign_centroid memory_refresh u) (centroid_assigned u)"
    unfolding memory_refresh_def refresh_store.simps by (intro faulty_writes) (auto simp: centroid_assigned_def)
qed (rule memory_refresh_reads)

lemma memory_refresh_laws: "refresh_laws (=) mem (\<lambda>d. tables_ok (mem d)) memory_refresh"
proof -
  have "memory_at False = (\<lambda>d. tables_ok (mem d))" by (simp add: fun_eq_iff memory_at_def)
  then show ?thesis using memory_refresh_at [of False] by simp
qed

lemma amid_mono:
  "reads_amid (=) tbl I q ok \<longrightarrow> reads_amid evolves tbl I q ok"
  "writes_amid (=) tbl I q' eff \<longrightarrow> writes_amid evolves tbl I q' eff"
  "(\<forall>f \<in> F. \<forall>s. I s \<longrightarrow> I (f s) \<and> tbl s = tbl (f s)) \<longrightarrow> (\<forall>f \<in> F. \<forall>s. I s \<longrightarrow> I (f s) \<and> evolves (tbl s) (tbl (f s)))"
  by (auto simp: reads_amid_def writes_amid_def) (metis evolves_refl)+

lemma same_laws: "refresh_laws (=) tbl I R \<Longrightarrow> refresh_laws evolves tbl I R"
proof (erule rev_mp)
  show "refresh_laws (=) tbl I R \<longrightarrow> refresh_laws evolves tbl I R"
    unfolding refresh_laws_def refresh_reads_def by (intro conj_mono all_mono amid_mono)
qed

interpretation memory_refreshing: refreshing mem "\<lambda>d. tables_ok (mem d)" memory_refresh
  by unfold_locales (simp_all add: same_laws memory_refresh_laws)

section \<open>Beside the requests\<close>

text \<open>The state of the server, and the requests that are served before each of the coming queries of the refresh.\<close>

type_synonym 'd busy_server = "'d server \<times> event list list"

definition in_turn :: "('d server \<Rightarrow> event \<Rightarrow> 'd server) \<Rightarrow> ('d \<Rightarrow> 'r \<times> 'd) \<Rightarrow> 'd busy_server \<Rightarrow> 'r \<times> 'd busy_server" where
  "in_turn step q s =
     (let srv = foldl step (fst s) (case snd s of [] \<Rightarrow> [] | es # _ \<Rightarrow> es); (r, d) = q (snd srv)
      in (r, ((fst srv, d), tl (snd s))))"

definition act_in_turn :: "('d server \<Rightarrow> event \<Rightarrow> 'd server) \<Rightarrow> ('d \<Rightarrow> 'd) \<Rightarrow> 'd busy_server \<Rightarrow> 'd busy_server" where
  "act_in_turn step f s = snd (in_turn step (\<lambda>d. ((), f d)) s)"

definition beside :: "('d server \<Rightarrow> event \<Rightarrow> 'd server) \<Rightarrow> 'd refresh_store \<Rightarrow> 'd busy_server refresh_store" where
  "beside step R = \<lparr>
     list_categories = in_turn step (list_categories R),
     begin_lock = act_in_turn step (begin_lock R),
     lock_category = \<lambda>c. in_turn step (lock_category R c),
     rollback = act_in_turn step (rollback R),
     commit = act_in_turn step (commit R),
     count_embeddings = \<lambda>c. in_turn step (count_embeddings R c),
     take_vector = in_turn step (take_vector R),
     create_file = in_turn step (create_file R),
     next_embeddings = \<lambda>c after. in_turn step (next_embeddings R c after),
     category_centroids = \<lambda>c. in_turn step (category_centroids R c),
     save_rows = \<lambda>xs. in_turn step (save_rows R xs),
     assign_centroid = \<lambda>u. in_turn step (assign_centroid R u),
     ctx_err = in_turn step (ctx_err R),
     centroid_totals = in_turn step (centroid_totals R),
     next_of_centroid = \<lambda>k after. in_turn step (next_of_centroid R k after)\<rparr>"

definition busy_tables :: "('d \<Rightarrow> tables) \<Rightarrow> 'd busy_server \<Rightarrow> tables" where
  "busy_tables tbl s = tbl (snd (fst s))"

definition busy_ok :: "('d \<Rightarrow> tables) \<Rightarrow> 'd busy_server \<Rightarrow> bool" where
  "busy_ok tbl s \<longleftrightarrow> server_ok tbl (fst s)"

locale serving = database tbl D
  for tbl :: "'d \<Rightarrow> tables" and D :: "'d store" +
  fixes step :: "'d server \<Rightarrow> event \<Rightarrow> 'd server" and R :: "'d refresh_store"
  assumes serves: "since T0 tbl s \<Longrightarrow> since T0 tbl (step s e)"
    and refresh: "refresh_laws (=) tbl (\<lambda>d. tables_ok (tbl d)) R"
begin

lemma served: "since T0 tbl s \<Longrightarrow> since T0 tbl (foldl step s es)"
  by (induction es arbitrary: s) (simp_all add: serves)

lemma turn:
  assumes "busy_ok tbl s"
  shows "\<exists>c d. in_turn step q s = (fst (q d), ((c, snd (q d)), tl (snd s))) \<and> server_ok tbl (c, d) \<and> evolves (busy_tables tbl s) (tbl d)"
proof -
  let ?srv = "foldl step (fst s) (case snd s of [] \<Rightarrow> [] | es # _ \<Rightarrow> es)"
  have "since (busy_tables tbl s) tbl ?srv"
    using assms by (intro served) (simp add: busy_ok_def busy_tables_def since_now [of tbl "fst s"])
  moreover have "in_turn step q s = (fst (q (snd ?srv)), ((fst ?srv, snd (q (snd ?srv))), tl (snd s)))"
    by (simp add: in_turn_def Let_def case_prod_beta)
  ultimately show ?thesis by (intro exI [of _ "fst ?srv"] exI [of _ "snd ?srv"]) (simp add: since_def)
qed

lemma same_tables: "server_ok tbl (c, d) \<Longrightarrow> tbl d' = tbl d \<Longrightarrow> server_ok tbl (c, d')"
  by (simp add: server_ok_def)

lemma reads_in_turn:
  "reads_amid (=) tbl (\<lambda>d. tables_ok (tbl d)) q ok \<longrightarrow> reads_amid evolves (busy_tables tbl) (busy_ok tbl) (in_turn step q) ok"
proof
  assume q: "reads_amid (=) tbl (\<lambda>d. tables_ok (tbl d)) q ok"
  show "reads_amid evolves (busy_tables tbl) (busy_ok tbl) (in_turn step q) ok"
    unfolding reads_amid_def
  proof (intro allI impI)
    fix s assume "busy_ok tbl s"
    from turn [OF this, of q] obtain c d where t: "in_turn step q s = (fst (q d), ((c, snd (q d)), tl (snd s)))"
        "server_ok tbl (c, d)" "evolves (busy_tables tbl s) (tbl d)" by blast
    have "tables_ok (tbl d)" using t(2) by (simp add: server_ok_def)
    then have r: "tbl (snd (q d)) = tbl d" "case fst (q d) of Inr r \<Rightarrow> ok (tbl d) r | Inl e \<Rightarrow> True"
      using q unfolding reads_amid_def by (metis (no_types, lifting))+
    then show "busy_ok tbl (snd (in_turn step q s)) \<and> evolves (busy_tables tbl s) (busy_tables tbl (snd (in_turn step q s)))
        \<and> (case fst (in_turn step q s) of Inr r \<Rightarrow> ok (busy_tables tbl (snd (in_turn step q s))) r | Inl e \<Rightarrow> True)"
      using t same_tables by (simp add: busy_ok_def busy_tables_def split: sum.splits)
  qed
qed

lemma writes_in_turn:
  "writes_amid (=) tbl (\<lambda>d. tables_ok (tbl d)) q eff \<longrightarrow> writes_amid evolves (busy_tables tbl) (busy_ok tbl) (in_turn step q) eff"
proof
  assume q: "writes_amid (=) tbl (\<lambda>d. tables_ok (tbl d)) q eff"
  show "writes_amid evolves (busy_tables tbl) (busy_ok tbl) (in_turn step q) eff"
    unfolding writes_amid_def
  proof (intro allI impI)
    fix s assume "busy_ok tbl s"
    from turn [OF this, of q] obtain c d where t: "in_turn step q s = (fst (q d), ((c, snd (q d)), tl (snd s)))"
        "server_ok tbl (c, d)" "evolves (busy_tables tbl s) (tbl d)" by blast
    have ok: "tables_ok (tbl d)" using t(2) by (simp add: server_ok_def)
    then have r: "case fst (q d) of Inr r \<Rightarrow> eff (tbl d) r (tbl (snd (q d))) | Inl e \<Rightarrow> tbl (snd (q d)) = tbl d"
      using q unfolding writes_amid_def by (force split: sum.splits)
    have "server_ok tbl (c, snd (q d))" if "advances (tbl d) (tbl (snd (q d)))"
      using since_advances [of "tbl d" tbl "(c, d)" "snd (q d)"] t(2) that by (simp add: since_def)
    then show "\<exists>T. evolves (busy_tables tbl s) T \<and> tables_ok T \<and> (case fst (in_turn step q s) of
        Inr r \<Rightarrow> eff T r (busy_tables tbl (snd (in_turn step q s)))
          \<and> (advances T (busy_tables tbl (snd (in_turn step q s))) \<longrightarrow> busy_ok tbl (snd (in_turn step q s)))
      | Inl e \<Rightarrow> busy_tables tbl (snd (in_turn step q s)) = T \<and> busy_ok tbl (snd (in_turn step q s)))"
      using t ok r same_tables [OF t(2)]
      by (intro exI [of _ "tbl d"]) (simp add: busy_ok_def busy_tables_def split: sum.splits)
  qed
qed

lemma acts_in_turn:
  "(\<forall>f \<in> {f, g, h}. \<forall>s. tables_ok (tbl s) \<longrightarrow> tables_ok (tbl (f s)) \<and> tbl s = tbl (f s)) \<longrightarrow>
   (\<forall>f \<in> {act_in_turn step f, act_in_turn step g, act_in_turn step h}. \<forall>s. busy_ok tbl s \<longrightarrow>
      busy_ok tbl (f s) \<and> evolves (busy_tables tbl s) (busy_tables tbl (f s)))"
proof -
  have "busy_ok tbl (act_in_turn step f s) \<and> evolves (busy_tables tbl s) (busy_tables tbl (act_in_turn step f s))"
    if "busy_ok tbl s" "\<forall>s. tables_ok (tbl s) \<longrightarrow> tables_ok (tbl (f s)) \<and> tbl s = tbl (f s)" for f s
  proof -
    from turn [OF that(1), of "\<lambda>d. ((), f d)"] obtain c d where t: "act_in_turn step f s = ((c, f d), tl (snd s))"
        "server_ok tbl (c, d)" "evolves (busy_tables tbl s) (tbl d)" by (auto simp: act_in_turn_def)
    have "tbl (f d) = tbl d" using that(2) t(2) by (simp add: server_ok_def)
    then show ?thesis using t same_tables by (simp add: busy_ok_def busy_tables_def)
  qed
  then show ?thesis by auto
qed

lemma beside_laws: "refresh_laws evolves (busy_tables tbl) (busy_ok tbl) (beside step R)"
proof (rule rev_mp [OF refresh])
  show "refresh_laws (=) tbl (\<lambda>d. tables_ok (tbl d)) R \<longrightarrow> refresh_laws evolves (busy_tables tbl) (busy_ok tbl) (beside step R)"
    unfolding refresh_laws_def refresh_reads_def beside_def refresh_store.simps
    by (intro conj_mono all_mono reads_in_turn writes_in_turn acts_in_turn)
qed

lemma beside_refreshing: "refreshing (busy_tables tbl) (busy_ok tbl) (beside step R)"
  by unfold_locales (simp_all add: beside_laws busy_ok_def busy_tables_def server_ok_def)

end

lemma server_serving:
  "lawful tbl D \<Longrightarrow> refresh_laws (=) tbl (\<lambda>d. tables_ok (tbl d)) R \<Longrightarrow> serving tbl D (server_step D S1 S2 largest ctx) R"
  by (intro serving.intro serving_axioms.intro database.intro database.server_step_since [OF database.intro])

interpretation memory_serving: serving mem memory_store "server_step memory_store insertionSort insertionSort 5000 100" memory_refresh
  by (rule server_serving [OF memory_lawful memory_refresh_laws])

section \<open>Properties\<close>

text \<open>
  C12: A refresh of all categories beside the requests leaves the server consistent: whatever requests are served before each of its queries,
  whichever queries fail and whether it ends, panics or is still running, the tables hold their keys, indexes and references, every
  document shares its category with the centroids of its embeddings, and so do the cached centroids with the category they are cached for.
\<close>

theorem refresh_beside_requests:
  assumes "lawful tbl D" and "refresh_laws (=) tbl (\<lambda>d. tables_ok (tbl d)) R" and "\<forall>c. good_args (A c)" and "server_ok tbl s"
  shows "server_ok tbl (fst (snd (RefreshCentroids (beside (server_step D S1 S2 largest ctx) R) A postgres (s, between))))"
  using refreshing.refresh_keeps [OF serving.beside_refreshing [OF server_serving [OF assms(1,2)]] assms(3), of "(s, between)"] assms(4)
  by (simp add: busy_ok_def)

definition example_args :: refresh_args where
  "example_args = \<lparr>a_fuel = 3, a_draws = \<lambda>_ _. [0], a_canceled = \<lambda>_. False, a_size_sort = insertionSort, a_small_sort = insertionSort,
     a_convert = \<lambda>_. 0, a_arrival = rev, a_order = rev, a_mixed = \<lambda>_ _. None\<rparr>"

lemma example_args_good: "good_args example_args"
  by (simp add: good_args_def example_args_def insertionSort_sorting)

theorem refresh_beside_requests_witness:
  "server_ok mem (fst (snd (RefreshCentroids (beside (server_step memory_store insertionSort insertionSort 5000 100) memory_refresh) (\<lambda>_. example_args) True
    ((NewCache, \<lparr>mem = search_tables, script = []\<rparr>), [[], [], [(CallDeleteDocument [97] [98] 1, \<lambda>_. 0)], [(CleanupTask 9, \<lambda>_. 0)]]))))"
proof (rule refresh_beside_requests [OF memory_lawful memory_refresh_laws])
  show "\<forall>c. good_args example_args" using example_args_good by simp
  show "server_ok mem (NewCache, \<lparr>mem = search_tables, script = []\<rparr>)" using search_tables_ok by (simp add: server_ok_def)
qed

end
