(* ===== verification/RefreshLocks.thy ===== *)
theory RefreshLocks
  imports RefreshServer
begin

text \<open>
  The row locks of \<open>RefreshCentroids\<close>: on PostgreSQL a category is locked in a transaction of its own while it is refreshed. Every transaction that is
  begun is ended, by a commit or a rollback, on every path of the loop.
\<close>

section \<open>What no query changes\<close>

definition unchanged_by :: "('s \<Rightarrow> bool) \<Rightarrow> ('s \<Rightarrow> 'r \<times> 's) \<Rightarrow> bool" where
  "unchanged_by J q \<longleftrightarrow> (\<forall>s. J s \<longrightarrow> J (snd (q s)))"

text \<open>All queries but those of the transaction.\<close>

definition queries_keep :: "('s \<Rightarrow> bool) \<Rightarrow> 's refresh_store \<Rightarrow> bool" where
  "queries_keep J R \<longleftrightarrow> unchanged_by J (list_categories R) \<and> (\<forall>c. unchanged_by J (lock_category R c)) \<and> (\<forall>c. unchanged_by J (count_embeddings R c))
   \<and> unchanged_by J (take_vector R) \<and> unchanged_by J (create_file R) \<and> (\<forall>c after. unchanged_by J (next_embeddings R c after))
   \<and> (\<forall>c. unchanged_by J (category_centroids R c)) \<and> (\<forall>xs. unchanged_by J (save_rows R xs)) \<and> (\<forall>u. unchanged_by J (assign_centroid R u))
   \<and> unchanged_by J (ctx_err R) \<and> unchanged_by J (centroid_totals R) \<and> (\<forall>k after. unchanged_by J (next_of_centroid R k after))"

named_theorems whole \<open>rules for what a process keeps as a whole\<close>

lemma whole_give [whole]: "runs J J (give x) (\<lambda>_. J)"
  by (rule runs_give)

lemma whole_compute [whole]: "runs J J (compute r) (\<lambda>_. J)"
  by (rule runs_compute)

lemma whole_ask: "unchanged_by J q \<Longrightarrow> runs J J (ask q) (\<lambda>_. J)"
proof (rule runs_ask)
  fix s r s' assume "unchanged_by J q" "J s" "q s = (r, s')"
  then have "J s'" unfolding unchanged_by_def by (metis snd_conv)
  then show "case r of Inr x \<Rightarrow> J s' | Inl e \<Rightarrow> J s'" by (simp split: sum.splits)
qed

lemma whole_and_then [whole]: "runs J J a (\<lambda>_. J) \<Longrightarrow> (\<And>x. runs J J (k x) (\<lambda>_. J)) \<Longrightarrow> runs J J (and_then a k) (\<lambda>_. J)"
  by (rule runs_and_then)

lemma whole_with_error [whole]: "runs J J a (\<lambda>_. J) \<Longrightarrow> runs J J (with_error f a) (\<lambda>_. J)"
  by (rule runs_with_error)

lemma whole_attempt [whole]: "runs J J a (\<lambda>_. J) \<Longrightarrow> runs J J (attempt a) (\<lambda>_. J)"
  by (erule runs_conseq [OF runs_attempt]) (auto split: sum.splits)

lemma whole_ignored [whole]: "runs J J a (\<lambda>_. J) \<Longrightarrow> runs J J (ignored a) (\<lambda>_. J)"
  by (rule runs_ignored)

lemma whole_find [whole]:
  "(\<And>after. runs J J (ask (q after)) (\<lambda>_. J)) \<Longrightarrow> (\<And>b y. runs J J (f b y) (\<lambda>_. J)) \<Longrightarrow> runs J J (find_in_batches n q f after x) (\<lambda>_. J)"
  by (rule runs_find) simp_all

lemma asks:
  assumes "queries_keep J R"
  shows "runs J J (ask (lock_category R c)) (\<lambda>_. J)" "runs J J (ask (count_embeddings R c)) (\<lambda>_. J)"
    "runs J J (ask (take_vector R)) (\<lambda>_. J)" "runs J J (ask (create_file R)) (\<lambda>_. J)" "runs J J (ask (next_embeddings R c after)) (\<lambda>_. J)"
    "runs J J (ask (category_centroids R c)) (\<lambda>_. J)" "runs J J (ask (save_rows R xs)) (\<lambda>_. J)" "runs J J (ask (assign_centroid R u)) (\<lambda>_. J)"
    "runs J J (ask (ctx_err R)) (\<lambda>_. J)" "runs J J (ask (centroid_totals R)) (\<lambda>_. J)" "runs J J (ask (next_of_centroid R k after)) (\<lambda>_. J)"
    "runs J J (ask (list_categories R)) (\<lambda>_. J)"
  using assms unfolding queries_keep_def by (intro whole_ask, blast)+

lemma whole_groups:
  assumes "queries_keep J R"
  shows "runs J J (assign_groups R us) (\<lambda>_. J)" and "runs J J (assign_dropped R us) (\<lambda>_. J)"
  by (induction us) (auto intro!: whole asks assms)

lemma whole_drop_old:
  assumes "queries_keep J R"
  shows "runs J J (drop_old R A cs olds) (\<lambda>_. J)"
  by (induction olds) (auto simp: drop_batch_def split: sum.splits intro!: whole asks whole_groups assms)

lemma whole_recenter_all:
  assumes "queries_keep J R"
  shows "runs J J (recenter_all R A xs) (\<lambda>_. J)"
  by (induction xs) (auto simp: recenter_def sum_batch_def split: sum.splits prod.splits intro!: whole asks assms)

lemma whole_category:
  assumes "queries_keep J R"
  shows "runs J J (KMeansDivideAndConquer R A c) (\<lambda>_. J)"
  unfolding KMeansDivideAndConquer_def store_centroids_def apply_centroids_def drop_small_def
  by (auto simp: write_batch_def assign_batch_def Let_def split: prod.splits
    intro!: whole asks whole_groups whole_drop_old whole_recenter_all assms)

section \<open>Transactions\<close>

text \<open>How many transactions are open: beginning one adds one, ending one takes one away, and no query begins or ends any.\<close>

definition counts_open :: "('s \<Rightarrow> nat) \<Rightarrow> 's refresh_store \<Rightarrow> bool" where
  "counts_open opened R \<longleftrightarrow> (\<forall>k. queries_keep (\<lambda>s. opened s = k) R) \<and> (\<forall>s. opened (begin_lock R s) = Suc (opened s))
   \<and> (\<forall>s. opened (rollback R s) = opened s - 1) \<and> (\<forall>s. opened (commit R s) = opened s - 1)"

lemma locks_balanced:
  assumes "counts_open opened R"
  shows "runs (\<lambda>_. True) (\<lambda>s. opened s = k) (refresh_each R A postgres cs) (\<lambda>_ s. opened s = k)"
proof (induction cs)
  case Nil
  then show ?case by (simp add: runs_give)
next
  case (Cons c cs)
  define n where "n = (if postgres then Suc k else k)"
  have kept: "queries_keep (\<lambda>s. opened s = n) R" using assms by (simp add: counts_open_def)
  have b: "runs (\<lambda>_. True) (\<lambda>s. opened s = k) (only_if postgres (begin_lock R)) (\<lambda>_ s. opened s = n)"
    using assms by (auto simp: n_def only_if_def counts_open_def intro: runs_act runs_give)
  have e: "runs (\<lambda>_. True) (\<lambda>s. opened s = n) (only_if postgres f) (\<lambda>_ s. opened s = k)" if "f \<in> {rollback R, commit R}" for f
    using assms that by (auto simp: n_def only_if_def counts_open_def intro: runs_act runs_give)
  have l: "runs (\<lambda>_. True) (\<lambda>s. opened s = n) (attempt (ask (lock_category R c))) (\<lambda>_ s. opened s = n)"
    by (rule runs_conseq [OF whole_attempt [OF asks(1) [OF kept]]]) simp_all
  have c: "runs (\<lambda>_. True) (\<lambda>s. opened s = n) (attempt (KMeansDivideAndConquer R (A c) c)) (\<lambda>_ s. opened s = n)"
    by (rule runs_conseq [OF whole_attempt [OF whole_category [OF kept]]]) simp_all
  have skip: "runs (\<lambda>_. True) (\<lambda>s. opened s = k) (if b then refresh_each R A postgres cs else give ()) (\<lambda>_ s. opened s = k)" for b
    using Cons.IH by (simp add: runs_give)
  show ?case
    unfolding refresh_each.simps
  proof (rule runs_and_then [OF b], rule runs_and_then [OF l])
    fix locked :: "error + unit"
    show "runs (\<lambda>_. True) (\<lambda>s. opened s = n) (case locked of
         Inl e \<Rightarrow> and_then (only_if postgres (rollback R)) (\<lambda>_.
           if \<not> is_canceled e \<and> postgres \<and> mentions_lock e then refresh_each R A postgres cs else give ())
       | Inr _ \<Rightarrow> and_then (attempt (KMeansDivideAndConquer R (A c) c)) (\<lambda>finished.
             case finished of
               Inl e \<Rightarrow> only_if postgres (rollback R)
             | Inr _ \<Rightarrow> and_then (only_if postgres (commit R)) (\<lambda>_. refresh_each R A postgres cs))) (\<lambda>_ s. opened s = k)"
    proof (cases locked)
      case (Inl e)
      show ?thesis unfolding Inl sum.case by (rule runs_and_then [OF e skip]) simp
    next
      case (Inr x)
      show ?thesis unfolding Inr sum.case
      proof (rule runs_and_then [OF c])
        fix finished :: "error + unit"
        show "runs (\<lambda>_. True) (\<lambda>s. opened s = n) (case finished of
            Inl e \<Rightarrow> only_if postgres (rollback R)
          | Inr _ \<Rightarrow> and_then (only_if postgres (commit R)) (\<lambda>_. refresh_each R A postgres cs)) (\<lambda>_ s. opened s = k)"
          using e runs_and_then [OF e Cons.IH] by (simp split: sum.split)
      qed
    qed
  qed
qed

text \<open>The store in memory, with a count of its transactions.\<close>

definition counting :: "('d \<Rightarrow> 'r \<times> 'd) \<Rightarrow> 'd \<times> nat \<Rightarrow> 'r \<times> 'd \<times> nat" where
  "counting q s = (let (r, d) = q (fst s) in (r, d, snd s))"

definition counted :: "'d refresh_store \<Rightarrow> ('d \<times> nat) refresh_store" where
  "counted R = \<lparr>
     list_categories = counting (list_categories R),
     begin_lock = \<lambda>s. (begin_lock R (fst s), Suc (snd s)),
     lock_category = \<lambda>c. counting (lock_category R c),
     rollback = \<lambda>s. (rollback R (fst s), snd s - 1),
     commit = \<lambda>s. (commit R (fst s), snd s - 1),
     count_embeddings = \<lambda>c. counting (count_embeddings R c),
     take_vector = counting (take_vector R),
     create_file = counting (create_file R),
     next_embeddings = \<lambda>c after. counting (next_embeddings R c after),
     category_centroids = \<lambda>c. counting (category_centroids R c),
     save_rows = \<lambda>xs. counting (save_rows R xs),
     assign_centroid = \<lambda>u. counting (assign_centroid R u),
     ctx_err = counting (ctx_err R),
     centroid_totals = counting (centroid_totals R),
     next_of_centroid = \<lambda>k after. counting (next_of_centroid R k after)\<rparr>"

lemma counted_counts: "counts_open snd (counted R)"
  by (simp add: counts_open_def queries_keep_def unchanged_by_def counted_def counting_def case_prod_beta)

section \<open>Properties\<close>

text \<open>
  C15: A refresh of all categories gives every lock back: when it returns, after success or after any error of a query, as many transactions are open as before it.
\<close>

theorem locks_are_given_back:
  assumes "counts_open opened R" and "RefreshCentroids R A postgres s = (Some (Done (Inr ())), s')"
  shows "opened s' = opened s"
proof -
  have "queries_keep (\<lambda>t. opened t = opened s) R" using assms(1) by (simp add: counts_open_def)
  then have "runs (\<lambda>_. True) (\<lambda>t. opened t = opened s) (RefreshCentroids R A postgres) (\<lambda>_ t. opened t = opened s)"
    unfolding RefreshCentroids_def
    by (intro runs_and_then [OF runs_conseq [OF whole_attempt [OF asks(12)]], where R = "\<lambda>_ t. opened t = opened s"])
      (auto split: sum.splits intro: locks_balanced [OF assms(1)] runs_give)
  from this [unfolded runs_def, rule_format, of s] assms(2) show ?thesis by simp
qed

text \<open>A category is locked and its refresh cancelled at the first query.\<close>

theorem locks_are_given_back_witness:
  "snd (snd (RefreshCentroids (counted memory_refresh) (\<lambda>_. example_args) True
     (\<lparr>mem = search_tables, script = [None, None, Some [Canceled]]\<rparr>, 4))) = 4"
proof -
  let ?run = "RefreshCentroids (counted memory_refresh) (\<lambda>_. example_args) True
     (\<lparr>mem = search_tables, script = [None, None, Some [Canceled]]\<rparr>, 4)"
  have "fst ?run = Some (Done (Inr ()))"
    by (simp add: RefreshCentroids_def and_then_def attempt_def ask_def counted_def counting_def memory_refresh_def faulty_def search_tables_def
      only_if_def act_def give_def with_error_def KMeansDivideAndConquer_def category_ids_def)
  then have "?run = (Some (Done (Inr ())), snd ?run)" by (metis prod.collapse)
  from locks_are_given_back [OF counted_counts this] show ?thesis by simp
qed

end
