(* ===== verification/RefreshSteps.thy ===== *)
theory RefreshSteps
  imports RefreshServer
begin

text \<open>
  A refresh that is not disturbed: no query fails and no request comes in between. Rules of total correctness for such processes, and
  the steps of a refresh by themselves. The rows of a query arrive in batches, in the order of their identifiers.
\<close>

section \<open>Rules\<close>

text \<open>From tables with \<open>P\<close> the process returns a result, with tables that have \<open>Q\<close>.\<close>

definition comes ::
    "('s \<Rightarrow> tables) \<Rightarrow> ('s \<Rightarrow> bool) \<Rightarrow> (tables \<Rightarrow> bool) \<Rightarrow> ('s, 'a) process \<Rightarrow> ('a \<Rightarrow> tables \<Rightarrow> bool) \<Rightarrow> bool" where
  "comes tbl J P a Q \<longleftrightarrow> (\<forall>s. J s \<longrightarrow> P (tbl s) \<longrightarrow> (\<exists>x s'. a s = (Some (Done (Inr x)), s') \<and> J s' \<and> Q x (tbl s')))"

lemma comes_give: "(\<And>T. P T \<Longrightarrow> Q x T) \<Longrightarrow> comes tbl J P (give x) Q"
  by (simp add: comes_def give_def)

lemma comes_and_then: "comes tbl J P a R \<Longrightarrow> (\<And>x. comes tbl J (R x) (k x) Q) \<Longrightarrow> comes tbl J P (and_then a k) Q"
  unfolding comes_def and_then_def by fastforce

lemma comes_compute: "r = Some (Done x) \<Longrightarrow> comes tbl J P (k x) Q \<Longrightarrow> comes tbl J P (and_then (compute r) k) Q"
  by (simp add: comes_def and_then_def compute_def)

lemma comes_with_error: "comes tbl J P a Q \<Longrightarrow> comes tbl J P (with_error f a) Q"
  unfolding comes_def with_error_def by fastforce

lemma comes_attempt: "comes tbl J P a Q \<Longrightarrow> comes tbl J P (attempt a) (\<lambda>r T. \<exists>x. r = Inr x \<and> Q x T)"
  unfolding comes_def attempt_def by fastforce

lemma comes_ignored: "comes tbl J P a (\<lambda>x. Q) \<Longrightarrow> comes tbl J P (ignored a) (\<lambda>_. Q)"
  unfolding ignored_def by (rule comes_and_then [OF comes_attempt]) (auto intro: comes_give)

lemma comes_when: "(\<And>T. P T \<Longrightarrow> c) \<Longrightarrow> (c \<Longrightarrow> comes tbl J P a Q) \<Longrightarrow> comes tbl J P a Q"
  unfolding comes_def by blast

text \<open>From tables with \<open>P\<close> the process ends with a result and tables that satisfy \<open>F\<close>, be it an error or a panic.\<close>

definition leads ::
    "('s \<Rightarrow> tables) \<Rightarrow> ('s \<Rightarrow> bool) \<Rightarrow> (tables \<Rightarrow> bool) \<Rightarrow> ('s, 'a) process \<Rightarrow> ((error + 'a) outcome option \<Rightarrow> tables \<Rightarrow> bool) \<Rightarrow> bool" where
  "leads tbl J P a F \<longleftrightarrow> (\<forall>s. J s \<longrightarrow> P (tbl s) \<longrightarrow> J (snd (a s)) \<and> F (fst (a s)) (tbl (snd (a s))))"

lemma leads_comes: "comes tbl J P a Q \<Longrightarrow> (\<And>x T. Q x T \<Longrightarrow> F (Some (Done (Inr x))) T) \<Longrightarrow> leads tbl J P a F"
  unfolding comes_def leads_def by fastforce

lemma leads_and_then: "comes tbl J P a R \<Longrightarrow> (\<And>x. leads tbl J (R x) (k x) F) \<Longrightarrow> leads tbl J P (and_then a k) F"
  unfolding comes_def leads_def and_then_def by fastforce

lemma leads_when: "(\<And>T. P T \<Longrightarrow> c) \<Longrightarrow> (c \<Longrightarrow> leads tbl J P a F) \<Longrightarrow> leads tbl J P a F"
  unfolding leads_def by blast

lemma leads_computed: "leads tbl J P (and_then (compute (Some (Done x))) k) F = leads tbl J P (k x) F"
  by (simp add: leads_def and_then_def compute_def)

lemma leads_panic: "(\<And>T. P T \<Longrightarrow> F (Some (Panic e)) T) \<Longrightarrow> leads tbl J P (and_then (compute (Some (Panic e))) k) F"
  by (simp add: leads_def and_then_def compute_def)

section \<open>Batches in order\<close>

definition after_id :: "Embedding list \<Rightarrow> id" where
  "after_id seen = (if seen = [] then 0 else embedding_ID (last seen))"

lemma same_order:
  assumes "sorted_wrt (\<lambda>x y. embedding_ID x < embedding_ID y) xs" and "sorted_wrt (\<lambda>x y. embedding_ID x < embedding_ID y) ys" and "set xs = set ys"
  shows "xs = ys"
proof -
  have "map embedding_ID xs = map embedding_ID ys" using assms by (intro strict_sorted_equal) (simp_all add: sorted_wrt_map)
  moreover have "inj_on embedding_ID (set xs \<union> set ys)"
    using assms strict_sorted_iff [of "map embedding_ID xs"] by (simp add: sorted_wrt_map distinct_map)
  ultimately show ?thesis by (metis map_inj_on)
qed

lemma next_rows_prefix:
  assumes "sorted_wrt (\<lambda>x y. embedding_ID x < embedding_ID y) rest" and "set rest = {e \<in> set rows. after < embedding_ID e}"
    and "next_rows rows after b"
  shows "(\<exists>rest'. rest = b @ rest') \<and> (b = [] \<longrightarrow> rest = [])"
proof -
  define rest' where "rest' = filter (\<lambda>e. e \<notin> set b) rest"
  have b: "sorted_wrt (\<lambda>x y. embedding_ID x < embedding_ID y) b" "set b \<subseteq> set rest"
      "\<And>e. e \<in> set rest' \<Longrightarrow> b \<noteq> [] \<and> embedding_ID (last b) < embedding_ID e"
    using assms(2,3) by (auto simp: next_rows_def rest'_def)
  have last: "embedding_ID x \<le> embedding_ID (last b)" if "x \<in> set b" for x
  proof -
    have "b = butlast b @ [last b]" using that by (cases b) simp_all
    then have "sorted_wrt (\<lambda>x y. embedding_ID x < embedding_ID y) (butlast b @ [last b])" "x \<in> set (butlast b @ [last b])"
      using b(1) that by metis+
    then show ?thesis by (auto simp: sorted_wrt_append)
  qed
  have "sorted_wrt (\<lambda>x y. embedding_ID x < embedding_ID y) rest'" using assms(1) by (simp add: rest'_def sorted_wrt_filter)
  then have s: "sorted_wrt (\<lambda>x y. embedding_ID x < embedding_ID y) (b @ rest')"
    using b(1) b(3) last by (fastforce simp: sorted_wrt_append)
  have "rest = b @ rest'" using b(2) by (intro same_order [OF assms(1) s]) (auto simp: rest'_def)
  moreover have "b = [] \<longrightarrow> rest' = []" using b(3) by (cases rest') auto
  ultimately show ?thesis by auto
qed

lemma comes_find:
  assumes query: "\<And>seen rest x. rs = seen @ rest \<Longrightarrow>
      comes tbl J (Inv seen x) (ask (q (after_id seen))) (\<lambda>b T. Inv seen x T \<and> (\<exists>rest'. rest = b @ rest') \<and> (b = [] \<longrightarrow> rest = []))"
    and step: "\<And>seen b rest x. rs = seen @ b @ rest \<Longrightarrow> b \<noteq> [] \<Longrightarrow> comes tbl J (Inv seen x) (f b x) (Inv (seen @ b))"
  shows "rs = seen @ rest \<Longrightarrow> length rest < n \<Longrightarrow> comes tbl J (Inv seen x) (find_in_batches n q f (after_id seen) x) (Inv rs)"
proof (induction n arbitrary: seen rest x)
  case (Suc n)
  show ?case
    unfolding find_in_batches.simps
  proof (rule comes_and_then [OF query [OF Suc.prems(1)]], rule comes_when)
    fix b T assume "Inv seen x T \<and> (\<exists>rest'. rest = b @ rest') \<and> (b = [] \<longrightarrow> rest = [])"
    then show "(\<exists>rest'. rest = b @ rest') \<and> (b = [] \<longrightarrow> rest = [])" by blast
  next
    fix b :: "Embedding list" assume b: "(\<exists>rest'. rest = b @ rest') \<and> (b = [] \<longrightarrow> rest = [])"
    then obtain rest' where r: "rest = b @ rest'" by blast
    let ?P = "\<lambda>T. Inv seen x T \<and> (\<exists>rest'. rest = b @ rest') \<and> (b = [] \<longrightarrow> rest = [])"
    show "comes tbl J ?P (if b = [] then give x else and_then (f b x) (find_in_batches n q f (embedding_ID (last b)))) (Inv rs)"
    proof (cases "b = []")
      case True
      then show ?thesis using b Suc.prems(1) by (auto intro: comes_give)
    next
      case False
      have "comes tbl J (Inv (seen @ b) y) (find_in_batches n q f (after_id (seen @ b)) y) (Inv rs)" for y
        using Suc.prems r False by (intro Suc.IH [of _ rest']) (cases b, auto)+
      moreover have "after_id (seen @ b) = embedding_ID (last b)" using False by (simp add: after_id_def)
      moreover have "comes tbl J ?P (f b x) (Inv (seen @ b))"
        using step [of seen b rest' x] Suc.prems(1) r False unfolding comes_def by blast
      ultimately show ?thesis using False by (auto intro: comes_and_then)
    qed
  qed
qed simp

section \<open>A steady store\<close>

text \<open>The queries that have an answer answer.\<close>

definition responds :: "('s \<Rightarrow> tables) \<Rightarrow> ('s \<Rightarrow> bool) \<Rightarrow> ('s \<Rightarrow> (error + 'r) \<times> 's) \<Rightarrow> (tables \<Rightarrow> bool) \<Rightarrow> bool" where
  "responds tbl J q ok \<longleftrightarrow> (\<forall>s. J s \<longrightarrow> ok (tbl s) \<longrightarrow> (\<exists>r. fst (q s) = Inr r))"

definition never_fails :: "('s \<Rightarrow> tables) \<Rightarrow> ('s \<Rightarrow> bool) \<Rightarrow> 's refresh_store \<Rightarrow> bool" where
  "never_fails tbl J R \<longleftrightarrow> responds tbl J (list_categories R) (\<lambda>_. True) \<and> (\<forall>c. responds tbl J (lock_category R c) (\<lambda>T. c \<in> category_ids T))
   \<and> (\<forall>c. responds tbl J (count_embeddings R c) (\<lambda>_. True)) \<and> responds tbl J (take_vector R) (\<lambda>T. t_embeddings T \<noteq> [])
   \<and> responds tbl J (create_file R) (\<lambda>_. True) \<and> (\<forall>c after. responds tbl J (next_embeddings R c after) (\<lambda>_. True))
   \<and> (\<forall>c. responds tbl J (category_centroids R c) (\<lambda>_. True))
   \<and> (\<forall>xs. responds tbl J (save_rows R xs) (\<lambda>T. centroid_CategoryID ` set xs \<subseteq> category_ids T))
   \<and> (\<forall>u. responds tbl J (assign_centroid R u) (\<lambda>T. fst u \<in> centroid_ids T)) \<and> responds tbl J (ctx_err R) (\<lambda>_. True)
   \<and> responds tbl J (centroid_totals R) (\<lambda>_. True) \<and> (\<forall>k after. responds tbl J (next_of_centroid R k after) (\<lambda>_. True))"

lemma memory_answers: "(\<And>T. pre T \<Longrightarrow> \<exists>r. fst (q T) = Inr r) \<Longrightarrow> responds mem (memory_at True) (faulty q) pre"
  by (simp add: responds_def faulty_result memory_at_def)

lemma memory_never_fails: "never_fails mem (memory_at True) memory_refresh"
  unfolding never_fails_def memory_refresh_def refresh_store.simps
  by (intro conjI allI memory_answers) (auto simp: save_in_memory_def Let_def split: list.splits)

locale steady =
  fixes tbl :: "'s \<Rightarrow> tables" and J :: "'s \<Rightarrow> bool" and R :: "'s refresh_store"
  assumes consistent: "\<And>s. J s \<Longrightarrow> tables_ok (tbl s)" and laws: "refresh_laws (=) tbl J R" and answered: "never_fails tbl J R"
begin

lemma comes_conseq:
  "comes tbl J P a Q \<Longrightarrow> (\<And>T. tables_ok T \<Longrightarrow> P' T \<Longrightarrow> P T) \<Longrightarrow> (\<And>x T. tables_ok T \<Longrightarrow> Q x T \<Longrightarrow> Q' x T) \<Longrightarrow> comes tbl J P' a Q'"
  unfolding comes_def by (metis consistent)

lemma comes_reads:
  assumes "reads_amid (=) tbl J q ok" and "responds tbl J q pre" and "\<And>T. tables_ok T \<Longrightarrow> P T \<Longrightarrow> pre T"
    and "\<And>T r. tables_ok T \<Longrightarrow> P T \<Longrightarrow> ok T r \<Longrightarrow> Q r T"
  shows "comes tbl J P (ask q) Q"
  unfolding comes_def
proof (intro allI impI)
  fix s assume s: "J s" "P (tbl s)"
  have ok: "tables_ok (tbl s)" using consistent s(1) by simp
  obtain r where r: "fst (q s) = Inr r" using assms(2,3) s ok unfolding responds_def by blast
  have "J (snd (q s)) \<and> tbl s = tbl (snd (q s)) \<and> (case fst (q s) of Inr r \<Rightarrow> ok (tbl (snd (q s))) r | Inl e \<Rightarrow> True)"
    using assms(1) s(1) unfolding reads_amid_def by blast
  then have "J (snd (q s))" "tbl (snd (q s)) = tbl s" "ok (tbl s) r" using r by simp_all
  then show "\<exists>x s'. ask q s = (Some (Done (Inr x)), s') \<and> J s' \<and> Q x (tbl s')"
    using assms(4) [OF ok s(2)] r by (intro exI [of _ r] exI [of _ "snd (q s)"]) (simp add: ask_def case_prod_beta)
qed

lemma comes_writes:
  assumes "writes_amid (=) tbl J q eff" and "responds tbl J q pre" and "\<And>T. tables_ok T \<Longrightarrow> P T \<Longrightarrow> pre T"
    and "\<And>T r T'. tables_ok T \<Longrightarrow> P T \<Longrightarrow> eff T r T' \<Longrightarrow> advances T T' \<and> Q r T'"
  shows "comes tbl J P (ask q) Q"
  unfolding comes_def
proof (intro allI impI)
  fix s assume s: "J s" "P (tbl s)"
  have ok: "tables_ok (tbl s)" using consistent s(1) by simp
  obtain r where r: "fst (q s) = Inr r" using assms(2,3) s ok unfolding responds_def by blast
  have e: "eff (tbl s) r (tbl (snd (q s)))" "advances (tbl s) (tbl (snd (q s))) \<longrightarrow> J (snd (q s))"
    using assms(1) s(1) r unfolding writes_amid_def by force+
  then show "\<exists>x s'. ask q s = (Some (Done (Inr x)), s') \<and> J s' \<and> Q x (tbl s')"
    using assms(4) [OF ok s(2) e(1)] r by (intro exI [of _ r] exI [of _ "snd (q s)"]) (simp add: ask_def case_prod_beta)
qed

end

interpretation memory_steady: steady mem "memory_at True" memory_refresh
  by unfold_locales (simp_all add: memory_refresh_at memory_never_fails, simp add: memory_at_def)

end
