(* ===== verification/RefreshMoves.thy ===== *)
theory RefreshMoves
  imports RefreshSteps
begin

text \<open>
  The two loops of an undisturbed refresh over the embeddings of a category: all of them move to the nearest of the new centroids, and
  every centroid becomes the mean of its embeddings.
\<close>

section \<open>Moving the embeddings\<close>

definition moved_to :: "u8 list list \<Rightarrow> id list \<Rightarrow> id set \<Rightarrow> Embedding list \<Rightarrow> Embedding list" where
  "moved_to cs ids ks es = map (\<lambda>e. if embedding_ID e \<in> ks then moved cs ids e else e) es"

lemma moved_moved [simp]: "moved cs ids (moved cs ids e) = moved cs ids e"
  by (simp add: moved_def)

lemma moved_to_twice: "moved_to cs ids ks (moved_to cs ids ls es) = moved_to cs ids (ls \<union> ks) es"
  by (simp add: moved_to_def)

lemma moved_to_none [simp]: "moved_to cs ids {} es = es"
  by (simp add: moved_to_def)

text \<open>The tables with other embeddings.\<close>

definition with_rows :: "tables \<Rightarrow> (tables \<Rightarrow> bool) \<Rightarrow> Embedding list \<Rightarrow> tables \<Rightarrow> bool" where
  "with_rows T1 K es T \<longleftrightarrow> T = T1\<lparr>t_embeddings := es\<rparr> \<and> K T"

lemma held_stored: "held c xs T \<Longrightarrow> c \<in> category_ids T \<Longrightarrow> k \<in> centroid_ID ` set xs \<Longrightarrow> k \<in> centroid_ids T"
  by (force simp: held_def centroid_ids_def centroid_key_def)

definition in_order :: "Embedding list \<Rightarrow> bool" where
  "in_order rs \<longleftrightarrow> sorted_wrt (\<lambda>x y. embedding_ID x < embedding_ID y) rs \<and> (\<forall>e \<in> set rs. 0 < embedding_ID e)"

lemma sorted_in_order:
  "distinct (map embedding_ID rows) \<Longrightarrow> \<forall>e \<in> set rows. 0 < embedding_ID e \<Longrightarrow> in_order (sort_key embedding_ID rows)"
  by (simp add: in_order_def sorted_strict)

lemma in_order_last: "in_order (seen @ rest) \<Longrightarrow> e \<in> set seen \<Longrightarrow> embedding_ID e \<le> after_id seen"
proof -
  assume o: "in_order (seen @ rest)" and e: "e \<in> set seen"
  then have s: "seen = butlast seen @ [last seen]" by (cases seen) simp_all
  then have "sorted_wrt (\<lambda>x y. embedding_ID x < embedding_ID y) (butlast seen @ [last seen])" "e \<in> set (butlast seen @ [last seen])"
    using o e by (simp_all add: in_order_def sorted_wrt_append)
  then show ?thesis using e by (auto simp: sorted_wrt_append after_id_def)
qed

lemma in_order_rest: "in_order (seen @ rest) \<Longrightarrow> e \<in> set rest \<Longrightarrow> after_id seen < embedding_ID e"
  by (cases "seen = []") (auto simp: in_order_def sorted_wrt_append after_id_def)

lemma rest_after:
  "in_order (seen @ rest) \<Longrightarrow> set rows = set (seen @ rest) \<Longrightarrow> set rest = {e \<in> set rows. after_id seen < embedding_ID e}"
  using in_order_last [of seen rest] in_order_rest [of seen rest] by fastforce

text \<open>The rows that are still to come have not been moved.\<close>

lemma rest_moved:
  assumes o: "in_order (seen @ rest)" and rows: "set rows = set (seen @ rest)"
  shows "set rest = {e \<in> set (moved_to cs ids (embedding_ID ` set seen) rows). after_id seen < embedding_ID e}"
proof -
  have n: "embedding_ID e \<notin> embedding_ID ` set seen" if "after_id seen < embedding_ID e" for e
    using in_order_last [OF o] that by fastforce
  have "e \<in> set rest" if "e \<in> set rows" "after_id seen < embedding_ID e" for e
    using that rows in_order_last [OF o, of e] by auto
  moreover have "e \<in> set rows" if "e \<in> set rest" for e using that rows by simp
  ultimately show ?thesis using n in_order_rest [OF o]
    by (auto simp: moved_to_def image_iff) (metis n imageI)+
qed

lemma category_moved:
  "category_embeddings (T\<lparr>t_embeddings := moved_to cs ids ks es\<rparr>) c = moved_to cs ids ks (category_embeddings (T\<lparr>t_embeddings := es\<rparr>) c)"
proof -
  have "embedding_DocumentID (moved cs ids e) = embedding_DocumentID e" for e by (simp add: moved_def)
  then show ?thesis by (auto simp: category_embeddings_def moved_to_def filter_map comp_def if_distrib intro!: map_cong filter_cong)
qed

context steady
begin

lemma comes_batches:
  assumes o: "in_order rs" and law: "\<And>after. reads_amid (=) tbl J (q after) (\<lambda>T. next_rows (rows_of T) after)"
    and ans: "\<And>after. responds tbl J (q after) (\<lambda>_. True)"
    and rest: "\<And>seen rest x T. rs = seen @ rest \<Longrightarrow> Inv seen x T \<Longrightarrow> set rest = {e \<in> set (rows_of T). after_id seen < embedding_ID e}"
    and step: "\<And>seen b rest x. rs = seen @ b @ rest \<Longrightarrow> b \<noteq> [] \<Longrightarrow> comes tbl J (Inv seen x) (f b x) (Inv (seen @ b))"
    and n: "length rs < n"
  shows "comes tbl J (Inv [] x) (find_in_batches n q f 0 x) (Inv rs)"
proof -
  have "comes tbl J (Inv [] x) (find_in_batches n q f (after_id []) x) (Inv rs)"
  proof (rule comes_find [OF _ step, of rs])
    fix seen rest x assume r: "rs = seen @ rest"
    have "sorted_wrt (\<lambda>x y. embedding_ID x < embedding_ID y) rest" using o r by (simp add: in_order_def sorted_wrt_append)
    then have "(\<exists>rest'. rest = b @ rest') \<and> (b = [] \<longrightarrow> rest = [])" if "Inv seen x T" "next_rows (rows_of T) (after_id seen) b" for T b
      using next_rows_prefix that rest [OF r] by blast
    then show "comes tbl J (Inv seen x) (ask (q (after_id seen))) (\<lambda>b T. Inv seen x T \<and> (\<exists>rest'. rest = b @ rest') \<and> (b = [] \<longrightarrow> rest = []))"
      by (intro comes_reads [OF law ans]) blast+
  qed (use n in simp_all)
  then show ?thesis by (simp add: after_id_def)
qed

lemma row_queries:
  "reads_amid (=) tbl J (next_embeddings R c after) (\<lambda>T. next_rows (category_embeddings T c) after)"
  "responds tbl J (next_embeddings R c after) (\<lambda>_. True)"
  "reads_amid (=) tbl J (next_of_centroid R k after) (\<lambda>T. next_rows (filter (\<lambda>e. embedding_CentroidID e = k) (t_embeddings T)) after)"
  "responds tbl J (next_of_centroid R k after) (\<lambda>_. True)"
  using laws answered unfolding refresh_laws_def refresh_reads_def never_fails_def by blast+

lemma comes_assign_groups:
  assumes "c \<in> category_ids T1" and "\<forall>u \<in> set us. fst u \<in> centroid_ID ` set xs \<and> set (snd u) \<subseteq> ks"
  shows "comes tbl J (with_rows T1 (\<lambda>T. held c xs T \<and> members c ks T) es) (assign_groups R us)
    (\<lambda>_. with_rows T1 (\<lambda>T. held c xs T \<and> members c ks T) (fold update_where us es))"
  using assms(2)
proof (induction us arbitrary: es)
  case Nil
  then show ?case by (simp add: comes_give)
next
  case (Cons u us)
  let ?K = "\<lambda>T. held c xs T \<and> members c ks T"
  have ctx: "comes tbl J (with_rows T1 ?K es) (ask (ctx_err R)) (\<lambda>_. with_rows T1 ?K es)"
    using laws answered by (intro comes_reads [where ok = "\<lambda>_ _. True" and pre = "\<lambda>_. True"])
      (simp_all add: refresh_laws_def refresh_reads_def never_fails_def)
  have "comes tbl J (with_rows T1 ?K es) (ask (assign_centroid R u)) (\<lambda>_. with_rows T1 ?K (update_where u es))"
  proof (rule comes_writes)
    show "writes_amid (=) tbl J (assign_centroid R u) (centroid_assigned u)" using laws unfolding refresh_laws_def by blast
    show "responds tbl J (assign_centroid R u) (\<lambda>T. fst u \<in> centroid_ids T)" using answered unfolding never_fails_def by blast
    fix T assume P: "with_rows T1 ?K es T"
    then have T: "T = T1\<lparr>t_embeddings := es\<rparr>" and h: "held c xs T" and m: "members c ks T" unfolding with_rows_def by blast+
    show "fst u \<in> centroid_ids T" using held_stored [OF h] T assms(1) Cons.prems by (simp add: category_ids_def)
    fix r T' assume e: "centroid_assigned u T r T'" and ok: "tables_ok T"
    have "members c (set (snd u)) T" using m Cons.prems by (auto simp: members_def)
    then have a: "advances T T'" using assigned_advances [of "fst u" "snd u" T r T' c xs] e h Cons.prems by simp
    then have "?K T'" using stableD [OF stable_held ok _ h] stableD [OF stable_members ok _ m] ok by (simp add: advances_def)
    moreover have "T' = T1\<lparr>t_embeddings := update_where u es\<rparr>" using e T by (simp add: centroid_assigned_def)
    ultimately show "advances T T' \<and> with_rows T1 ?K (update_where u es) T'" using a by (simp add: with_rows_def)
  qed
  then have "comes tbl J (with_rows T1 ?K es) (ignored (ask (assign_centroid R u))) (\<lambda>_. with_rows T1 ?K (update_where u es))"
    by (rule comes_ignored)
  then show ?case unfolding assign_groups.simps fold_Cons comp_def using Cons
    by (intro comes_and_then [OF ctx] comes_and_then) auto
qed

lemma comes_assign_batch:
  assumes cs: "good_data w cs" and b: "good_data w (map embedding_Vector b)" and order: "\<forall>us. mset (a_order A us) = mset us"
    and same: "\<forall>e \<in> set es. embedding_ID e \<in> embedding_ID ` set b \<longrightarrow> e \<in> set b" and ids: "distinct (map embedding_ID b)"
    and c: "c \<in> category_ids T1" and len: "length cs \<le> length xs" and ks: "embedding_ID ` set b \<subseteq> ks"
  shows "comes tbl J (with_rows T1 (\<lambda>T. held c xs T \<and> members c ks T) es) (assign_batch R A cs (map centroid_ID xs) b ())
    (\<lambda>_. with_rows T1 (\<lambda>T. held c xs T \<and> members c ks T) (moved_to cs (map centroid_ID xs) (embedding_ID ` set b) es))"
proof -
  obtain m where m: "NewMatrix (map embedding_Vector b) = Done m" using NewMatrix_good [OF b] by blast
  obtain idx where n: "nearest cs [m] = Done idx" using nearest_matrix [OF cs b m] by blast
  let ?us = "a_order A (group_updates (map centroid_ID xs) (zip idx b) [])"
  have "fold update_where ?us es = moved_to cs (map centroid_ID xs) (embedding_ID ` set b) es"
    using move_batch_eq [OF cs b order same ids, of "map centroid_ID xs"] by (simp add: move_batch_def m n moved_to_def)
  moreover have "\<forall>u \<in> set ?us. fst u \<in> centroid_ID ` set xs \<and> set (snd u) \<subseteq> ks"
    using batch_updates_from [OF n len order] ks by blast
  ultimately show ?thesis
    using comes_assign_groups [OF c, of ?us xs ks es] unfolding assign_batch_def
    by (intro comes_compute [where x = m] comes_compute [where x = idx]) (simp_all add: m n)
qed

lemma comes_assign_all:
  assumes cs: "good_data w cs" and order: "\<forall>us. mset (a_order A us) = mset us" and c: "c \<in> category_ids T1"
    and len: "length cs \<le> length xs" and w: "\<forall>e \<in> set (category_embeddings T1 c). length (embedding_Vector e) = w \<and> 0 < embedding_ID e"
    and ids: "distinct (map embedding_ID (t_embeddings T1))" and n: "length (category_embeddings T1 c) < n"
    and ks: "ks = embedding_ID ` set (category_embeddings T1 c)"
  shows "comes tbl J (with_rows T1 (\<lambda>T. held c xs T \<and> members c ks T) (t_embeddings T1))
    (find_in_batches n (next_embeddings R c) (assign_batch R A cs (map centroid_ID xs)) 0 ())
    (\<lambda>_. with_rows T1 (\<lambda>T. held c xs T \<and> members c ks T) (moved_to cs (map centroid_ID xs) ks (t_embeddings T1)))"
proof -
  let ?K = "\<lambda>T. held c xs T \<and> members c ks T" and ?rows = "category_embeddings T1 c" and ?ids = "map centroid_ID xs"
  let ?rs = "sort_key embedding_ID ?rows"
  let ?m = "\<lambda>seen :: Embedding list. moved_to cs ?ids (embedding_ID ` set seen) (t_embeddings T1)"
  have sub: "set ?rows \<subseteq> set (t_embeddings T1)" by (auto simp: category_embeddings_def)
  have "distinct (map embedding_ID ?rows)" using ids by (simp add: category_embeddings_def distinct_map_filter)
  then have o: "in_order ?rs" using w by (intro sorted_in_order) auto
  have "comes tbl J (with_rows T1 ?K (?m [])) (find_in_batches n (next_embeddings R c) (assign_batch R A cs ?ids) 0 ())
      (\<lambda>_. with_rows T1 ?K (?m ?rs))"
  proof (rule comes_batches [where Inv = "\<lambda>seen (_ :: unit). with_rows T1 ?K (?m seen)", OF o row_queries(1,2)])
    fix seen rest T and x :: unit assume r: "?rs = seen @ rest" and T: "with_rows T1 ?K (?m seen) T"
    have "category_embeddings T c = moved_to cs ?ids (embedding_ID ` set seen) ?rows"
      using T category_moved [where T = T1 and es = "t_embeddings T1"] by (simp add: with_rows_def)
    moreover have "in_order (seen @ rest)" "set ?rows = set (seen @ rest)" using o r by (simp, metis set_sort)
    ultimately show "set rest = {e \<in> set (category_embeddings T c). after_id seen < embedding_ID e}" using rest_moved by simp
  next
    fix seen b rest and x :: unit assume r: "?rs = seen @ b @ rest" and ne: "b \<noteq> []"
    then have b: "set b \<subseteq> set ?rows" by (metis Un_upper1 Un_upper2 order_trans set_append set_sort)
    have dr: "sorted_wrt (\<lambda>x y. embedding_ID x < embedding_ID y) (seen @ b)" using o r by (simp add: in_order_def sorted_wrt_append)
    then have dis: "embedding_ID ` set seen \<inter> embedding_ID ` set b = {}" by (fastforce simp: sorted_wrt_append)
    have "e \<in> set b" if e: "e \<in> set (?m seen)" "embedding_ID e \<in> embedding_ID ` set b" for e
    proof -
      obtain y where y: "y \<in> set b" "embedding_ID e = embedding_ID y" using e(2) by blast
      obtain e0 where e0: "e0 \<in> set (t_embeddings T1)" "e = (if embedding_ID e0 \<in> embedding_ID ` set seen then moved cs ?ids e0 else e0)"
        using e(1) by (auto simp: moved_to_def)
      then have "embedding_ID e0 = embedding_ID y" using y(2) by (simp split: if_splits)
      moreover from this have "embedding_ID e0 \<notin> embedding_ID ` set seen" using dis y(1) by auto
      moreover have "y \<in> set (t_embeddings T1)" using y(1) b sub by blast
      ultimately show ?thesis using e0 y(1) distinct_ids_eq [OF ids] by metis
    qed
    moreover have "distinct (map embedding_ID b)"
      using dr strict_sorted_iff [of "map embedding_ID b"] by (simp add: sorted_wrt_append sorted_wrt_map)
    moreover have "good_data w (map embedding_Vector b)" using ne b w cs by (auto simp: good_data_def)
    ultimately have "comes tbl J (with_rows T1 ?K (?m seen)) (assign_batch R A cs ?ids b ())
        (\<lambda>_. with_rows T1 ?K (moved_to cs ?ids (embedding_ID ` set b) (?m seen)))"
      using b ks by (intro comes_assign_batch [OF cs _ order _ _ c len]) auto
    then show "comes tbl J (with_rows T1 ?K (?m seen)) (assign_batch R A cs ?ids b x) (\<lambda>_. with_rows T1 ?K (?m (seen @ b)))"
      by (simp add: moved_to_twice image_Un)
  qed (simp add: n)
  then show ?thesis by (simp add: ks)
qed

end

section \<open>Means\<close>

lemma sum_vectors_append:
  "sum_vectors z n (as @ bs) = (case sum_vectors z n as of Panic e \<Rightarrow> Panic e | Done (z', n') \<Rightarrow> sum_vectors z' n' bs)"
  by (induction z n as rule: sum_vectors.induct) (auto split: outcome.splits)

lemma sum_vectors_Done:
  "\<forall>b \<in> set bs. length b = 8 + length z \<Longrightarrow> \<exists>z'. sum_vectors z n bs = Done (z', n + length bs) \<and> length z' = length z"
proof (induction bs arbitrary: z n)
  case (Cons b bs)
  have "DequantizeVector F64 b = Done (vector_of b)" "length (vector_of b) = length z"
    using vector_of_Done [of b] Cons.prems by simp_all
  then show ?case using Cons.IH [of "add64 z (vector_of b)" "Suc n"] Cons.prems by (auto simp: add64_def)
qed simp

text \<open>The centroid that \<open>recenterDbCentroid\<close> saves, when the table of embeddings is \<open>es\<close>.\<close>

definition centre :: "(fl \<Rightarrow> u8) \<Rightarrow> Embedding list \<Rightarrow> Centroid \<Rightarrow> Centroid" where
  "centre convert es x = (case recenterDbCentroid convert x (sort_key embedding_ID es) of Done y \<Rightarrow> y | Panic _ \<Rightarrow> x)"

text \<open>Of width \<open>w\<close>: the vectors with the header of eight bytes.\<close>

definition wide :: "nat \<Rightarrow> id \<Rightarrow> Embedding list \<Rightarrow> bool" where
  "wide w k es \<longleftrightarrow> distinct (map embedding_ID es) \<and> (\<forall>e \<in> set es. 0 < embedding_ID e \<and> (embedding_CentroidID e = k \<longrightarrow> length (embedding_Vector e) = w))"

lemma centre_ID [simp]: "centroid_ID (centre convert es x) = centroid_ID x"
  by (simp add: centre_def recenterDbCentroid_def split: outcome.splits)

lemma centre_Done:
  assumes "8 \<le> length (centroid_Vector x)" and "wide (length (centroid_Vector x)) (centroid_ID x) es"
  shows "recenterDbCentroid convert x (sort_key embedding_ID es) = Done (centre convert es x)"
    and "length (centroid_Vector (centre convert es x)) = length (centroid_Vector x)"
proof -
  let ?z = "replicate (length (vector_of (centroid_Vector x))) (Fin 0)"
  let ?bs = "map embedding_Vector (filter (\<lambda>e. embedding_CentroidID e = centroid_ID x) (sort_key embedding_ID es))"
  have x: "DequantizeVector F64 (centroid_Vector x) = Done (vector_of (centroid_Vector x))"
      "length (vector_of (centroid_Vector x)) = length (centroid_Vector x) - 8"
    using vector_of_Done [OF assms(1)] by simp_all
  have "\<forall>b \<in> set ?bs. length b = 8 + length ?z"
    using assms x(2) by (auto simp: wide_def)
  from sum_vectors_Done [OF this, of 0] obtain z' n where z': "sum_vectors ?z 0 ?bs = Done (z', n)" "length z' = length ?z" by auto
  then have "recenterDbCentroid convert x (sort_key embedding_ID es) =
      Done (x\<lparr>centroid_Vector := QuantizeVector convert F64 (map (\<lambda>v. fl_div F64 v (mk F64 (of_nat n))) z')\<rparr>)"
    using x(1) by (simp add: recenterDbCentroid_def)
  then show "recenterDbCentroid convert x (sort_key embedding_ID es) = Done (centre convert es x)"
      "length (centroid_Vector (centre convert es x)) = length (centroid_Vector x)"
    using z'(2) x(2) assms(1) by (simp_all add: centre_def length_QuantizeVector)
qed

definition with_centroids :: "tables \<Rightarrow> id \<Rightarrow> Centroid list \<Rightarrow> Centroid list \<Rightarrow> tables \<Rightarrow> bool" where
  "with_centroids T2 c xs cs T \<longleftrightarrow> (\<exists>k. T = T2\<lparr>t_centroids := cs, t_next := k\<rparr>) \<and> held c xs T"

context steady
begin

lemma comes_sum:
  assumes E: "\<And>T. P T \<Longrightarrow> t_embeddings T = es" and es: "wide (8 + length z) k es" and n: "length es < n"
  shows "comes tbl J P (find_in_batches n (next_of_centroid R k) sum_batch 0 (z, 0)) (\<lambda>x T. P T \<and>
    sum_vectors z 0 (map embedding_Vector (filter (\<lambda>e. embedding_CentroidID e = k) (sort_key embedding_ID es))) = Done x)"
proof -
  let ?rows = "filter (\<lambda>e. embedding_CentroidID e = k) es"
  let ?rs = "sort_key embedding_ID ?rows"
  let ?Inv = "\<lambda>(seen :: Embedding list) x T. P T \<and> sum_vectors z 0 (map embedding_Vector seen) = Done x"
  have o: "in_order ?rs" using es by (intro sorted_in_order distinct_map_filter) (auto simp: wide_def)
  have len: "length ?rs < n" using n order_le_less_trans [OF length_filter_le] by simp
  have "comes tbl J (?Inv [] (z, 0)) (find_in_batches n (next_of_centroid R k) sum_batch 0 (z, 0)) (?Inv ?rs)"
  proof (rule comes_batches [where Inv = ?Inv, OF o row_queries(3,4) _ _ len])
    fix seen rest x T assume r: "?rs = seen @ rest" and T: "?Inv seen x T"
    have "in_order (seen @ rest)" "set ?rows = set (seen @ rest)" using o r by (simp, metis set_sort)
    then show "set rest = {e \<in> set (filter (\<lambda>e. embedding_CentroidID e = k) (t_embeddings T)). after_id seen < embedding_ID e}"
      using rest_after E T by blast
  next
    fix seen b rest and x :: "fl list \<times> nat" assume r: "?rs = seen @ b @ rest"
    show "comes tbl J (?Inv seen x) (sum_batch b x) (?Inv (seen @ b))"
    proof (rule comes_when)
      show "sum_vectors z 0 (map embedding_Vector seen) = Done x" if "?Inv seen x T" for T using that by blast
      assume s: "sum_vectors z 0 (map embedding_Vector seen) = Done x"
      have "set (seen @ b) \<subseteq> set ?rs" using r by auto
      then have w: "\<forall>v \<in> set (map embedding_Vector (seen @ b)). length v = 8 + length z" using es by (auto simp: wide_def)
      then obtain z' where z': "sum_vectors z 0 (map embedding_Vector seen) = Done (z', length seen)" "length z' = length z"
        using sum_vectors_Done [of "map embedding_Vector seen" z 0] by auto
      moreover obtain y where y: "sum_vectors z' (length seen) (map embedding_Vector b) = Done y"
        using sum_vectors_Done [of "map embedding_Vector b" z' "length seen"] w z'(2) by auto
      ultimately have "x = (z', length seen)" "sum_vectors z 0 (map embedding_Vector (seen @ b)) = Done y"
        using s by (simp_all add: sum_vectors_append)
      then show ?thesis using y by (auto simp: sum_batch_def comes_def compute_def)
    qed
  qed
  then show ?thesis by (simp add: filter_sort)
qed

lemma comes_recenter:
  assumes c: "c \<in> category_ids T2" and x: "x \<in> set xs" "centroid_ID x \<noteq> 0" "8 \<le> length (centroid_Vector x)"
    and es: "wide (length (centroid_Vector x)) (centroid_ID x) (t_embeddings T2)" and n: "length (t_embeddings T2) < a_fuel A"
  shows "comes tbl J (with_centroids T2 c xs cs) (recenter R A x)
    (\<lambda>_. with_centroids T2 c xs (upsert (centre (a_convert A) (t_embeddings T2) x) cs))"
proof -
  let ?P = "with_centroids T2 c xs" and ?es = "t_embeddings T2"
  let ?z = "replicate (length (vector_of (centroid_Vector x))) (Fin 0)"
  let ?bs = "map embedding_Vector (filter (\<lambda>e. embedding_CentroidID e = centroid_ID x) (sort_key embedding_ID ?es))"
  have v: "DequantizeVector F64 (centroid_Vector x) = Done (vector_of (centroid_Vector x))"
      "8 + length ?z = length (centroid_Vector x)"
    using vector_of_Done [OF x(3)] x(3) by simp_all
  have sum: "comes tbl J (?P cs) (find_in_batches (a_fuel A) (next_of_centroid R (centroid_ID x)) sum_batch 0 (?z, 0))
      (\<lambda>y T. ?P cs T \<and> sum_vectors ?z 0 ?bs = Done y)"
    using es n v(2) by (intro comes_sum) (auto simp: with_centroids_def)
  have category: "centroid_CategoryID x = c" if "?P cs T" for T using that x(1) by (auto simp: with_centroids_def held_def known_def)
  have save: "comes tbl J (?P cs) (ask (save_rows R [y])) (\<lambda>_. ?P (upsert y cs))" if y: "y = x\<lparr>centroid_Vector := q\<rparr>" for y q
  proof (rule comes_writes)
    show "writes_amid (=) tbl J (save_rows R [y]) (rows_saved [y])" using laws unfolding refresh_laws_def by blast
    show "responds tbl J (save_rows R [y]) (\<lambda>T. centroid_CategoryID ` set [y] \<subseteq> category_ids T)"
      using answered unfolding never_fails_def by blast
    fix T assume P: "?P cs T"
    then obtain k where T: "T = T2\<lparr>t_centroids := cs, t_next := k\<rparr>" and h: "held c xs T" by (auto simp: with_centroids_def)
    then show "centroid_CategoryID ` set [y] \<subseteq> category_ids T" using c category [OF P] y by (simp add: category_ids_def)
    fix r T' assume e: "rows_saved [y] T r T'" and ok: "tables_ok T"
    have a: "advances T T'" using recentered_advances [OF ok h x(1)] e y by simp
    have "T' = T2\<lparr>t_centroids := upsert y cs, t_next := t_next T'\<rparr>" using e T x(2) y by (auto simp: rows_saved_def)
    moreover have "held c xs T'" using stableD [OF stable_held ok _ h] a ok by (simp add: advances_def)
    ultimately show "advances T T' \<and> ?P (upsert y cs) T'" using a unfolding with_centroids_def by blast
  qed
  show ?thesis
    unfolding recenter_def
  proof (rule comes_compute, simp only: v(1), rule comes_and_then [OF comes_with_error], rule sum)
    fix y :: "fl list \<times> nat"
    show "comes tbl J (\<lambda>T. ?P cs T \<and> sum_vectors ?z 0 ?bs = Done y) (case y of (dataSum, cnt) \<Rightarrow>
        and_then (ask (save_rows R [x\<lparr>centroid_Vector := QuantizeVector (a_convert A) F64 (map (\<lambda>v. fl_div F64 v (mk F64 (of_nat cnt))) dataSum)\<rparr>]))
          (\<lambda>_. give ())) (\<lambda>_. ?P (upsert (centre (a_convert A) ?es x) cs))"
    proof (rule comes_when)
      assume s: "sum_vectors ?z 0 ?bs = Done y"
      have "centre (a_convert A) ?es x = x\<lparr>centroid_Vector :=
          QuantizeVector (a_convert A) F64 (map (\<lambda>v. fl_div F64 v (mk F64 (of_nat (snd y)))) (fst y))\<rparr>"
        using s v(1) by (simp add: centre_def recenterDbCentroid_def case_prod_beta)
      then show ?thesis
        using save [of _ "QuantizeVector (a_convert A) F64 (map (\<lambda>v. fl_div F64 v (mk F64 (of_nat (snd y)))) (fst y))"] s
        unfolding case_prod_beta by (auto intro!: comes_and_then [OF _ comes_give])
    qed simp
  qed
qed

lemma comes_recenter_all:
  assumes c: "c \<in> category_ids T2" and n: "length (t_embeddings T2) < a_fuel A"
    and ys: "\<forall>x \<in> set ys. x \<in> set xs \<and> centroid_ID x \<noteq> 0 \<and> 8 \<le> length (centroid_Vector x)
      \<and> wide (length (centroid_Vector x)) (centroid_ID x) (t_embeddings T2)"
  shows "comes tbl J (with_centroids T2 c xs cs) (recenter_all R A ys)
    (\<lambda>_. with_centroids T2 c xs (fold upsert (map (centre (a_convert A) (t_embeddings T2)) ys) cs))"
  using ys
proof (induction ys arbitrary: cs)
  case Nil
  then show ?case by (simp add: comes_give)
next
  case (Cons y ys)
  let ?P = "with_centroids T2 c xs" and ?y = "centre (a_convert A) (t_embeddings T2) y"
  have "comes tbl J (?P cs) (ask (ctx_err R)) (\<lambda>_. ?P cs)"
    using laws answered by (intro comes_reads [where ok = "\<lambda>_ _. True" and pre = "\<lambda>_. True"])
      (simp_all add: refresh_laws_def refresh_reads_def never_fails_def)
  then have ctx: "comes tbl J (?P cs) (attempt (ask (ctx_err R))) (\<lambda>r T. \<exists>x. r = Inr x \<and> ?P cs T)" by (rule comes_attempt)
  have one: "comes tbl J (?P cs) (ignored (recenter R A y)) (\<lambda>_. ?P (upsert ?y cs))"
    using Cons.prems by (intro comes_ignored comes_recenter [OF c _ _ _ _ n]) auto
  have rest: "comes tbl J (?P (upsert ?y cs)) (recenter_all R A ys) (\<lambda>_. ?P (fold upsert (map (centre (a_convert A) (t_embeddings T2)) ys) (upsert ?y cs)))"
    using Cons by simp
  show ?case
    unfolding recenter_all.simps
    by (rule comes_and_then [OF ctx], rule comes_when [where c = "\<exists>x. r = Inr x" for r]) (use comes_and_then [OF one rest] in auto)
qed

end

end
