(* ===== verification/RefreshDone.thy ===== *)
theory RefreshDone
  imports RefreshMoves
begin

text \<open>
  What a refresh does when nothing disturbs it: the clusters of the category become its centroids, all its embeddings move to the nearest one,
  no centroid is dropped, and every centroid of the category becomes the mean of its embeddings.
\<close>

section \<open>The stored centroids\<close>

lemma upsert_members: "distinct (map centroid_ID ys) \<Longrightarrow> set (upsert x ys) = insert x {y \<in> set ys. centroid_ID y \<noteq> centroid_ID x}"
  by (induction x ys rule: upsert.induct) (auto simp: image_iff)

lemma fold_upsert_members:
  "distinct (map centroid_ID xs) \<Longrightarrow> distinct (map centroid_ID ys) \<Longrightarrow>
    set (fold upsert xs ys) = set xs \<union> {y \<in> set ys. centroid_ID y \<notin> centroid_ID ` set xs}"
proof (induction xs arbitrary: ys)
  case (Cons x xs)
  have "set (fold upsert xs (upsert x ys)) = set xs \<union> {y \<in> set (upsert x ys). centroid_ID y \<notin> centroid_ID ` set xs}"
    using Cons by (simp add: upsert_distinct)
  then show ?case using Cons.prems by (auto simp: upsert_members)
qed simp

lemma fold_upsert_subset: "set (fold upsert xs ys) \<subseteq> set xs \<union> set ys"
proof (induction xs arbitrary: ys)
  case (Cons x xs)
  show ?case using Cons [of "upsert x ys"] upsert_set [of x ys] by auto
qed simp

lemma saved_ids:
  "\<forall>d \<in> set ds. centroid_ID d \<noteq> 0 \<Longrightarrow>
    map centroid_ID (save_centroids fresh n (set_vectors c ds cs)) = map centroid_ID ds @ map fresh [n..<n + (length cs - length ds)]"
proof (induction c ds cs arbitrary: n rule: set_vectors.induct)
  case (1 c ds)
  then show ?case by (induction fresh n ds rule: save_centroids.induct) auto
next
  case (2 c v vs)
  have "[n..<n + Suc (length vs)] = n # [Suc n..<Suc n + length vs]" by (simp add: upt_conv_Cons del: upt_Suc)
  then show ?case using 2(1) [of "Suc n"] by (simp del: upt_Suc)
qed simp

lemma saved_keeps: "i < length xs \<Longrightarrow> centroid_ID (xs ! i) \<noteq> 0 \<Longrightarrow> save_centroids fresh n xs ! i = xs ! i"
  by (induction fresh n xs arbitrary: i rule: save_centroids.induct) (auto simp: nth_Cons')

text \<open>The rows of the category after they were saved with their new vectors.\<close>

definition saved_for :: "tables \<Rightarrow> id \<Rightarrow> u8 list list \<Rightarrow> Centroid list \<Rightarrow> bool" where
  "saved_for T c cs saved \<longleftrightarrow> (let db = filter (\<lambda>x. centroid_CategoryID x = c) (t_centroids T) in
     length saved = max (length db) (length cs) \<and> map centroid_Vector (take (length cs) saved) = cs
   \<and> drop (length cs) saved = drop (length cs) db
   \<and> map centroid_ID (take (length db) saved) = map centroid_ID db \<and> (\<forall>x \<in> set (drop (length db) saved). t_next T \<le> centroid_ID x)
   \<and> distinct (map centroid_ID saved) \<and> (\<forall>x \<in> set saved. centroid_CategoryID x = c \<and> centroid_ID x \<noteq> 0))"

lemma rows_saved_for:
  assumes ok: "tables_ok T" and pos: "\<forall>x \<in> set (t_centroids T). 0 < centroid_ID x" and c: "c \<in> category_ids T"
    and saved: "rows_saved (set_vectors c (filter (\<lambda>x. centroid_CategoryID x = c) (t_centroids T)) cs) T saved T'"
  shows "saved_for T c cs saved"
proof -
  let ?db = "filter (\<lambda>x. centroid_CategoryID x = c) (t_centroids T)"
  obtain fresh where f: "inj fresh" "\<forall>n. t_next T \<le> fresh n" "saved = save_centroids fresh 0 (set_vectors c ?db cs)"
    using saved unfolding rows_saved_def by blast
  have keys: "keys_ok T" using ok by (simp add: tables_ok_def)
  have ids: "map centroid_ID saved = map centroid_ID ?db @ map fresh [0..<length cs - length ?db]"
    using pos f(3) saved_ids [of ?db fresh 0 c cs] by simp
  have below: "\<forall>x \<in> set ?db. centroid_ID x < t_next T" using keys by (auto simp: keys_ok_def centroid_ids_def)
  have next_pos: "0 < t_next T" using keys c by (auto simp: keys_ok_def)
  have category: "centroid_CategoryID x = c" if "x \<in> set saved" for x
    using save_centroids_rows [of x fresh 0 "set_vectors c ?db cs"] that f(3) set_vectors_rows [of _ c ?db cs] by (auto simp: centroid_key_def)
  have "centroid_ID x \<noteq> 0" if "x \<in> set saved" for x
  proof -
    have "centroid_ID x \<in> set (map centroid_ID saved)" using that by simp
    then show ?thesis using pos f(2) next_pos unfolding ids by (auto dest: order_less_le_trans)
  qed
  then have all: "\<forall>x \<in> set saved. centroid_CategoryID x = c \<and> centroid_ID x \<noteq> 0" using category by blast
  have "distinct (map centroid_ID ?db)" using keys by (simp add: keys_ok_def distinct_map_filter)
  moreover have "distinct (map fresh [0..<length cs - length ?db])" using f(1) by (simp add: distinct_map inj_on_subset [OF f(1)])
  moreover have "centroid_ID x \<noteq> fresh i" if "x \<in> set ?db" for x i using below f(2) that by (metis leD)
  then have "set (map centroid_ID ?db) \<inter> set (map fresh [0..<length cs - length ?db]) = {}" by auto
  ultimately have "distinct (map centroid_ID saved)" unfolding ids by simp
  moreover have "map centroid_ID (take (length ?db) saved) = map centroid_ID ?db"
    unfolding take_map [symmetric] ids by simp
  moreover have "\<forall>x \<in> set (drop (length ?db) saved). t_next T \<le> centroid_ID x"
  proof
    fix x assume "x \<in> set (drop (length ?db) saved)"
    then have "centroid_ID x \<in> set (drop (length ?db) (map centroid_ID saved))" by (simp add: drop_map)
    then show "t_next T \<le> centroid_ID x" using f(2) unfolding ids by auto
  qed
  moreover have "map centroid_Vector (take (length cs) saved) = cs"
    by (rule nth_equalityI) (simp_all add: f(3) set_vectors_length saved_vector)
  moreover have len: "length saved = max (length ?db) (length cs)" by (simp add: f(3) set_vectors_length)
  moreover have "drop (length cs) saved = drop (length cs) ?db"
  proof (rule nth_equalityI)
    fix i assume "i < length (drop (length cs) saved)"
    then have i: "length cs + i < length ?db" using len by simp
    then have "set_vectors c ?db cs ! (length cs + i) = ?db ! (length cs + i)" by (intro set_vectors_rest) simp_all
    moreover have "?db ! (length cs + i) \<in> set ?db" using i by (rule nth_mem)
    then have "centroid_ID (?db ! (length cs + i)) \<noteq> 0" using pos by auto
    ultimately have "saved ! (length cs + i) = ?db ! (length cs + i)" using i by (simp add: f(3) saved_keeps set_vectors_length)
    then show "drop (length cs) saved ! i = drop (length cs) ?db ! i" using i len by simp
  qed (use len in simp)
  moreover note all
  ultimately show ?thesis unfolding saved_for_def Let_def by (intro conjI)
qed

text \<open>The centroids of the category are those saved, and the others stay.\<close>

lemma saved_for_stored:
  assumes ok: "tables_ok T" and n: "saved_for T c cs saved" and f: "\<And>x. centroid_ID (f x) = centroid_ID x"
  shows "set (fold upsert (map f saved) (fold upsert saved (t_centroids T))) =
    {x \<in> set (t_centroids T). centroid_CategoryID x \<noteq> c} \<union> f ` set saved"
proof -
  let ?db = "filter (\<lambda>x. centroid_CategoryID x = c) (t_centroids T)" and ?ids = "centroid_ID ` set saved"
  have keys: "keys_ok T" using ok by (simp add: tables_ok_def)
  then have d: "distinct (map centroid_ID (t_centroids T))" by (simp add: keys_ok_def)
  have ds: "distinct (map centroid_ID saved)" using n by (simp add: saved_for_def Let_def)
  have split: "set saved = set (take (length ?db) saved) \<union> set (drop (length ?db) saved)"
    by (metis append_take_drop_id set_append)
  have "centroid_ID ` set (take (length ?db) saved) = centroid_ID ` set ?db" using n unfolding saved_for_def Let_def by (metis list.set_map)
  then have old: "?ids = centroid_ID ` set ?db \<union> centroid_ID ` set (drop (length ?db) saved)" unfolding split by (simp add: image_Un)
  have "centroid_ID y \<in> ?ids \<longleftrightarrow> centroid_CategoryID y = c" if y: "y \<in> set (t_centroids T)" for y
  proof
    assume "centroid_ID y \<in> ?ids"
    moreover have "centroid_ID y < t_next T" using keys y by (simp add: keys_ok_def centroid_ids_def)
    then have "centroid_ID y \<notin> centroid_ID ` set (drop (length ?db) saved)" using n by (auto simp: saved_for_def Let_def)
    ultimately obtain x where "x \<in> set ?db" "centroid_ID x = centroid_ID y" using old by auto
    then have "x = y" using d y by (auto simp: distinct_map inj_on_def)
    then show "centroid_CategoryID y = c" using \<open>x \<in> set ?db\<close> by simp
  qed (use y old in auto)
  then have others: "{y \<in> set (t_centroids T). centroid_ID y \<notin> ?ids} = {x \<in> set (t_centroids T). centroid_CategoryID x \<noteq> c}" by blast
  have one: "set (fold upsert saved (t_centroids T)) = set saved \<union> {x \<in> set (t_centroids T). centroid_CategoryID x \<noteq> c}"
    using fold_upsert_members [OF ds d] others by simp
  have "distinct (map centroid_ID (fold upsert xs ys))" if "distinct (map centroid_ID ys)" for xs ys
    using that by (induction xs arbitrary: ys) (simp_all add: upsert_distinct)
  from this [OF d] have d': "distinct (map centroid_ID (fold upsert saved (t_centroids T)))" .
  have same: "map centroid_ID (map f saved) = map centroid_ID saved" by (simp add: f)
  then have same': "centroid_ID ` set (map f saved) = ?ids" by (metis list.set_map)
  have "distinct (map centroid_ID (map f saved))" unfolding same by (rule ds)
  from fold_upsert_members [OF this d', unfolded same']
  have "set (fold upsert (map f saved) (fold upsert saved (t_centroids T))) =
      f ` set saved \<union> {y \<in> set (fold upsert saved (t_centroids T)). centroid_ID y \<notin> ?ids}" by simp
  also have "\<dots> = {x \<in> set (t_centroids T). centroid_CategoryID x \<noteq> c} \<union> f ` set saved" unfolding one using others by blast
  finally show ?thesis .
qed

section \<open>A refresh of a category\<close>

text \<open>All vectors have the width \<open>w\<close>, and identifiers start with one.\<close>

definition refreshable :: "nat \<Rightarrow> id \<Rightarrow> tables \<Rightarrow> bool" where
  "refreshable w c T \<longleftrightarrow> 8 < w \<and> c \<in> category_ids T
   \<and> (\<forall>e \<in> set (t_embeddings T). 0 < embedding_ID e \<and> length (embedding_Vector e) = w)
   \<and> (\<forall>x \<in> set (t_centroids T). 0 < centroid_ID x \<and> length (centroid_Vector x) = w)"

text \<open>What becomes of the tables when the clusters of category \<open>c\<close> are \<open>cs\<close>.\<close>

definition refreshed :: "(fl \<Rightarrow> u8) \<Rightarrow> id \<Rightarrow> u8 list list \<Rightarrow> tables \<Rightarrow> tables \<Rightarrow> bool" where
  "refreshed convert c cs T T' \<longleftrightarrow> (\<exists>saved. saved_for T c cs saved
   \<and> t_embeddings T' = map (\<lambda>e. if e \<in> set (category_embeddings T c)
        then e\<lparr>embedding_CentroidID := centroid_ID (saved ! nearest_index cs (embedding_Vector e))\<rparr> else e) (t_embeddings T)
   \<and> (\<forall>x \<in> set saved. \<exists>y. recenterDbCentroid convert x (sort_key embedding_ID (t_embeddings T')) = Done y)
   \<and> set (t_centroids T') = {x \<in> set (t_centroids T). centroid_CategoryID x \<noteq> c}
        \<union> {y. \<exists>x \<in> set saved. recenterDbCentroid convert x (sort_key embedding_ID (t_embeddings T')) = Done y}
   \<and> t_owners T' = t_owners T \<and> t_categories T' = t_categories T \<and> t_documents T' = t_documents T)"

definition category_rows :: "tables \<Rightarrow> id \<Rightarrow> u8 list list" where
  "category_rows T c = map embedding_Vector (sort_key embedding_ID (category_embeddings T c))"

lemma saved_widths:
  assumes "rows_saved (set_vectors c ds cs) T saved T'" and "\<forall>x \<in> set ds. length (centroid_Vector x) = w" and "\<forall>v \<in> set cs. length v = w"
  shows "\<forall>x \<in> set saved. length (centroid_Vector x) = w"
proof -
  have "\<forall>x \<in> set (set_vectors c ds cs). length (centroid_Vector x) = w"
    using assms(2,3) by (induction c ds cs rule: set_vectors.induct) auto
  moreover have "\<forall>x \<in> set xs. length (centroid_Vector x) = w \<Longrightarrow> \<forall>x \<in> set (save_centroids fresh n xs). length (centroid_Vector x) = w" for fresh n xs
    by (induction fresh n xs rule: save_centroids.induct) auto
  ultimately show ?thesis using assms(1) unfolding rows_saved_def by blast
qed

lemma refreshed_rows:
  assumes ok: "tables_ok T" and ref: "refreshable w c T" and cs: "good_data w cs"
    and saved: "rows_saved (set_vectors c (filter (\<lambda>x. centroid_CategoryID x = c) (t_centroids T)) cs) T saved T1"
    and T2: "T2 = T1\<lparr>t_embeddings := moved_to cs (map centroid_ID saved) (embedding_ID ` set (category_embeddings T1 c)) (t_embeddings T1)\<rparr>"
    and T3: "T3 = T2\<lparr>t_centroids := fold upsert (map (centre convert (t_embeddings T2)) saved) (t_centroids T2), t_next := k\<rparr>"
  shows "(\<forall>x \<in> set saved. centroid_ID x \<noteq> 0 \<and> 8 \<le> length (centroid_Vector x) \<and> wide (length (centroid_Vector x)) (centroid_ID x) (t_embeddings T2))
    \<and> (\<forall>x \<in> set (t_centroids T2). length (centroid_Vector x) = w) \<and> refreshed convert c cs T T3 \<and> refreshable w c T3"
proof -
  let ?db = "filter (\<lambda>x. centroid_CategoryID x = c) (t_centroids T)" and ?es = "t_embeddings T2"
  have w: "8 < w" and vs: "\<forall>e \<in> set (t_embeddings T). 0 < embedding_ID e \<and> length (embedding_Vector e) = w"
    and xs: "\<forall>x \<in> set (t_centroids T). 0 < centroid_ID x \<and> length (centroid_Vector x) = w"
    using ref by (simp_all add: refreshable_def)
  have T1: "T1 = T\<lparr>t_centroids := fold upsert saved (t_centroids T), t_next := t_next T1\<rparr>" using saved unfolding rows_saved_def by blast
  have e1: "t_embeddings T1 = t_embeddings T" "category_embeddings T1 c = category_embeddings T c" "t_centroids T1 = fold upsert saved (t_centroids T)"
    by (subst T1, simp add: category_embeddings_def)+
  have named: "saved_for T c cs saved" using rows_saved_for [OF ok _ _ saved] xs ref by (simp add: refreshable_def)
  have sw: "\<forall>x \<in> set saved. length (centroid_Vector x) = w"
    using xs cs by (intro saved_widths [OF saved]) (auto simp: good_data_def)
  have ids: "distinct (map embedding_ID (t_embeddings T))" using ok by (simp add: tables_ok_def keys_ok_def)
  have same: "embedding_ID e \<in> embedding_ID ` set (category_embeddings T c) \<longleftrightarrow> e \<in> set (category_embeddings T c)" if "e \<in> set (t_embeddings T)" for e
    using that distinct_ids_eq [OF ids] by (auto simp: category_embeddings_def)
  have nearest: "map centroid_ID saved ! nearest_index cs v = centroid_ID (saved ! nearest_index cs v)" for v
    using nearest_index_less [of cs v] cs named by (auto simp: good_data_def saved_for_def Let_def intro!: nth_map)
  have es: "?es = map (\<lambda>e. if e \<in> set (category_embeddings T c)
      then e\<lparr>embedding_CentroidID := centroid_ID (saved ! nearest_index cs (embedding_Vector e))\<rparr> else e) (t_embeddings T)"
    by (simp add: T2 e1 moved_to_def moved_def same nearest)
  have "map embedding_ID ?es = map embedding_ID (t_embeddings T)" unfolding es by simp
  then have "distinct (map embedding_ID ?es)" using ids by simp
  then have wide: "wide w i ?es" for i using vs unfolding wide_def es by auto
  have means: "recenterDbCentroid convert x (sort_key embedding_ID ?es) = Done (centre convert ?es x)" if "x \<in> set saved" for x
    using centre_Done(1) [of x ?es convert] that sw w wide by simp
  then have new: "{y. \<exists>x \<in> set saved. recenterDbCentroid convert x (sort_key embedding_ID ?es) = Done y} = centre convert ?es ` set saved" by auto
  have e3: "t_embeddings T3 = ?es" "t_owners T3 = t_owners T" "t_categories T3 = t_categories T" "t_documents T3 = t_documents T"
    using arg_cong [OF T1, of t_owners] arg_cong [OF T1, of t_categories] arg_cong [OF T1, of t_documents] by (simp_all add: T3 T2)
  have "t_centroids T3 = fold upsert (map (centre convert ?es) saved) (fold upsert saved (t_centroids T))" by (simp add: T3 T2 e1)
  then have stored: "set (t_centroids T3) = {x \<in> set (t_centroids T). centroid_CategoryID x \<noteq> c} \<union> centre convert ?es ` set saved"
    using saved_for_stored [OF ok named, of "centre convert ?es"] by simp
  have "\<forall>x \<in> set saved. 0 < centroid_ID (centre convert ?es x) \<and> length (centroid_Vector (centre convert ?es x)) = w"
    using centre_Done(2) [of _ ?es convert] sw w wide named by (simp add: saved_for_def Let_def)
  then have "\<forall>x \<in> set (t_centroids T3). 0 < centroid_ID x \<and> length (centroid_Vector x) = w" unfolding stored using xs by blast
  moreover have "\<forall>e \<in> set (t_embeddings T3). 0 < embedding_ID e \<and> length (embedding_Vector e) = w" using vs unfolding e3 es by auto
  moreover have "category_ids T3 = category_ids T" by (simp add: category_ids_def e3)
  ultimately have "refreshable w c T3" using ref by (simp add: refreshable_def)
  moreover have "refreshed convert c cs T T3"
    unfolding refreshed_def e3 new using named means es stored by (intro exI [of _ saved]) auto
  moreover have "t_centroids T2 = fold upsert saved (t_centroids T)" by (simp add: T2 e1)
  then have "\<forall>x \<in> set (t_centroids T2). length (centroid_Vector x) = w" using fold_upsert_subset [of saved] sw xs by fastforce
  moreover have "\<forall>x \<in> set saved. centroid_ID x \<noteq> 0" using named by (simp add: saved_for_def Let_def)
  ultimately show ?thesis using sw w wide by simp
qed

context steady
begin

lemma comes_state:
  "(\<And>T1. tables_ok T1 \<Longrightarrow> P T1 \<Longrightarrow> comes tbl J (\<lambda>T. T = T1) a Q) \<Longrightarrow> comes tbl J P a Q"
  unfolding comes_def using consistent by blast

lemma comes_drop_small:
  assumes P: "\<And>T x. P T \<Longrightarrow> x \<in> set (t_centroids T) \<Longrightarrow> length (centroid_Vector x) = w" and w: "8 < w" and S: "sorting (a_small_sort A)"
  shows "comes tbl J P (drop_small R A) (\<lambda>_. P)"
  unfolding drop_small_def
proof (rule comes_and_then [OF comes_with_error], rule comes_reads [where Q = "\<lambda>rs T. P T \<and> totals_of T rs"])
  show "reads_amid (=) tbl J (centroid_totals R) totals_of" "responds tbl J (centroid_totals R) (\<lambda>_. True)"
    using laws answered unfolding refresh_laws_def refresh_reads_def never_fails_def by blast+
  fix rs
  let ?rs = "a_small_sort A by_total rs"
  note cut = cut_small_sorted [OF S, of rs]
  show "comes tbl J (\<lambda>T. P T \<and> totals_of T rs)
      (if length rs \<le> 1 then give ()
       else let ordered = ?rs; (old, kept) = cut_small ordered [] (butlast ordered); newCentroids = map r_Vector kept
            in and_then (compute (Some (NewMatrix newCentroids))) (\<lambda>_. drop_old R A newCentroids old)) (\<lambda>_. P)"
  proof (rule comes_when [where c = "\<forall>r \<in> set rs. length (r_Vector r) = w"])
    fix T assume T: "P T \<and> totals_of T rs"
    then show "\<forall>r \<in> set rs. length (r_Vector r) = w" using P [of T] unfolding totals_of_def by fastforce
  next
    assume v: "\<forall>r \<in> set rs. length (r_Vector r) = w"
    have same: "set ?rs = set rs" "length ?rs = length rs" using cut(2) by (metis set_mset_mset, metis size_mset)
    show "comes tbl J (\<lambda>T. P T \<and> totals_of T rs)
      (if length rs \<le> 1 then give ()
       else let ordered = ?rs; (old, kept) = cut_small ordered [] (butlast ordered); newCentroids = map r_Vector kept
            in and_then (compute (Some (NewMatrix newCentroids))) (\<lambda>_. drop_old R A newCentroids old)) (\<lambda>_. P)"
    proof (cases "length rs \<le> 1")
      case False
      then have "?rs \<noteq> []" using same(2) by auto
      then have "good_data w (map r_Vector ?rs)" using v w same(1) by (auto simp: good_data_def)
      then obtain m where "NewMatrix (map r_Vector ?rs) = Done m" using NewMatrix_good by blast
      then show ?thesis using False cut(1) by (auto simp: Let_def intro!: comes_compute comes_give)
    qed (auto intro: comes_give)
  qed
qed simp_all

lemma comes_read_rows:
  assumes ok: "tables_ok T0" and pos: "\<forall>e \<in> set (t_embeddings T0). 0 < embedding_ID e" and n: "length (t_embeddings T0) < n"
  shows "comes tbl J (\<lambda>T. T = T0) (find_in_batches n (next_embeddings R c) write_batch 0 []) (\<lambda>rows T. T = T0 \<and> rows = category_rows T0 c)"
proof -
  let ?rs = "sort_key embedding_ID (category_embeddings T0 c)"
  let ?Inv = "\<lambda>(seen :: Embedding list) rows T. T = T0 \<and> rows = map embedding_Vector seen"
  have "distinct (map embedding_ID (category_embeddings T0 c))"
    using ok by (auto simp: category_embeddings_def tables_ok_def keys_ok_def intro: distinct_map_filter)
  then have o: "in_order ?rs" using pos by (intro sorted_in_order) (auto simp: category_embeddings_def)
  have len: "length ?rs < n"
    using n order_le_less_trans [OF length_filter_le] by (simp add: category_embeddings_def)
  have "comes tbl J (?Inv [] []) (find_in_batches n (next_embeddings R c) write_batch 0 []) (?Inv ?rs)"
  proof (rule comes_batches [where Inv = ?Inv, OF o row_queries(1,2) _ _ len])
    fix seen rest x T assume r: "?rs = seen @ rest" and T: "?Inv seen x T"
    have "in_order (seen @ rest)" "set (category_embeddings T0 c) = set (seen @ rest)" using o r by (simp, metis set_sort)
    then show "set rest = {e \<in> set (category_embeddings T c). after_id seen < embedding_ID e}"
      using rest_after T by blast
  qed (auto simp: write_batch_def intro: comes_give)
  then show ?thesis by (simp add: category_rows_def)
qed

lemma comes_apply_centroids:
  assumes ok: "tables_ok T" and ref: "refreshable w c T" and A: "good_args A" and cs: "good_data w cs" and n: "length (t_embeddings T) < a_fuel A"
    and saved: "rows_saved (set_vectors c (filter (\<lambda>x. centroid_CategoryID x = c) (t_centroids T)) cs) T saved T1"
    and h: "held c saved T1" and ok1: "tables_ok T1"
  shows "comes tbl J (\<lambda>T'. T' = T1) (apply_centroids R A c cs saved) (\<lambda>_ T'. refreshed (a_convert A) c cs T T' \<and> refreshable w c T')"
proof -
  let ?rows = "category_embeddings T1 c" and ?ids = "map centroid_ID saved"
  let ?ks = "embedding_ID ` set ?rows"
  let ?K = "\<lambda>T. held c saved T \<and> members c ?ks T"
  let ?T2 = "T1\<lparr>t_embeddings := moved_to cs ?ids ?ks (t_embeddings T1)\<rparr>"
  have c: "c \<in> category_ids T" and w: "8 < w" using ref by (simp_all add: refreshable_def)
  obtain m where m: "NewMatrix cs = Done m" using NewMatrix_good [OF cs] by blast
  have T1: "T1 = T\<lparr>t_centroids := fold upsert saved (t_centroids T), t_next := t_next T1\<rparr>" using saved unfolding rows_saved_def by blast
  have e1: "t_embeddings T1 = t_embeddings T" "category_ids T1 = category_ids T"
    by (subst T1, simp add: category_ids_def)+
  have rows: "\<forall>e \<in> set ?rows. length (embedding_Vector e) = w \<and> 0 < embedding_ID e"
    using ref e1(1) by (auto simp: category_embeddings_def refreshable_def)
  have assign: "comes tbl J (\<lambda>T'. T' = T1)
      (find_in_batches (a_fuel A) (next_embeddings R c) (assign_batch R A cs ?ids) 0 ()) (\<lambda>_ T'. T' = ?T2 \<and> held c saved T')"
  proof (rule comes_conseq [OF comes_assign_all [where ?T1.0 = T1 and xs = saved, OF cs _ _ _ rows _ _ refl]])
    show "length cs \<le> length saved" using rows_saved_length [OF saved] by (simp add: set_vectors_length)
    show "length ?rows < a_fuel A" using n e1(1) order_le_less_trans [OF length_filter_le] by (simp add: category_embeddings_def)
    have "members c ?ks T1" using ok1 by (intro category_members) (simp_all add: tables_ok_def)
    then show "with_rows T1 ?K (t_embeddings T1) T'" if "T' = T1" for T' using that h by (simp add: with_rows_def)
  qed (use A c e1 ok1 in \<open>auto simp: good_args_def with_rows_def tables_ok_def keys_ok_def\<close>)
  note result = refreshed_rows [OF ok ref cs saved refl refl, of "a_convert A"]
  have drop: "comes tbl J (\<lambda>T'. T' = ?T2 \<and> held c saved T') (drop_small R A) (\<lambda>_ T'. T' = ?T2 \<and> held c saved T')"
    using result A by (intro comes_drop_small [OF _ w]) (auto simp: good_args_def)
  have centre: "comes tbl J (\<lambda>T'. T' = ?T2 \<and> held c saved T') (recenter_all R A saved) (\<lambda>_ T'. refreshed (a_convert A) c cs T T' \<and> refreshable w c T')"
  proof (rule comes_conseq [OF comes_recenter_all [where ?T2.0 = ?T2 and xs = saved and cs = "t_centroids ?T2"]])
    show "c \<in> category_ids ?T2" using c e1(2) by (simp add: category_ids_def)
    show "length (t_embeddings ?T2) < a_fuel A" using n e1(1) by (simp add: moved_to_def)
    show "\<forall>x \<in> set saved. x \<in> set saved \<and> centroid_ID x \<noteq> 0 \<and> 8 \<le> length (centroid_Vector x)
        \<and> wide (length (centroid_Vector x)) (centroid_ID x) (t_embeddings ?T2)" using result by blast
    show "with_centroids ?T2 c saved (t_centroids ?T2) T'" if "T' = ?T2 \<and> held c saved T'" for T'
      using that by (auto simp: with_centroids_def intro: exI [of _ "t_next T1"])
    show "refreshed (a_convert A) c cs T T' \<and> refreshable w c T'"
      if "with_centroids ?T2 c saved (fold upsert (map (centre (a_convert A) (t_embeddings ?T2)) saved) (t_centroids ?T2)) T'" for T'
      using that result unfolding with_centroids_def by blast
  qed
  show ?thesis
    unfolding apply_centroids_def
    by (rule comes_compute, simp only: m, rule comes_and_then [OF comes_with_error [OF assign]],
        rule comes_and_then [OF comes_with_error [OF drop]], rule centre)
qed

lemma comes_store_centroids:
  assumes ok: "tables_ok T" and ref: "refreshable w c T" and A: "good_args A" and cs: "good_data w cs" and n: "length (t_embeddings T) < a_fuel A"
  shows "comes tbl J (\<lambda>T'. T' = T) (store_centroids R A c cs) (\<lambda>_ T'. refreshed (a_convert A) c cs T T' \<and> refreshable w c T')"
proof -
  let ?db = "filter (\<lambda>x. centroid_CategoryID x = c) (t_centroids T)"
  have c: "c \<in> category_ids T" using ref by (simp add: refreshable_def)
  then have db: "held c ?db T" using ok by (intro filter_held) (simp_all add: tables_ok_def keys_ok_def)
  have "reads_amid (=) tbl J (category_centroids R c) (\<lambda>T r. r = filter (\<lambda>x. centroid_CategoryID x = c) (t_centroids T))"
      "responds tbl J (category_centroids R c) (\<lambda>_. True)"
    using laws answered unfolding refresh_laws_def refresh_reads_def never_fails_def by blast+
  then have read: "comes tbl J (\<lambda>T'. T' = T) (ask (category_centroids R c)) (\<lambda>r T'. T' = T \<and> r = ?db)"
    by (rule comes_reads) simp_all
  have save: "comes tbl J (\<lambda>T'. T' = T) (ask (save_rows R (set_vectors c ?db cs)))
      (\<lambda>saved T1. rows_saved (set_vectors c ?db cs) T saved T1 \<and> held c saved T1)"
  proof (rule comes_writes)
    show "writes_amid (=) tbl J (save_rows R (set_vectors c ?db cs)) (rows_saved (set_vectors c ?db cs))"
      using laws unfolding refresh_laws_def by blast
    show "responds tbl J (save_rows R (set_vectors c ?db cs)) (\<lambda>T. centroid_CategoryID ` set (set_vectors c ?db cs) \<subseteq> category_ids T)"
      using answered unfolding never_fails_def by blast
    show "centroid_CategoryID ` set (set_vectors c ?db cs) \<subseteq> category_ids T'" if "T' = T" for T'
      using c that set_vectors_rows [of _ c ?db cs] by (auto simp: centroid_key_def)
  qed (use ok set_vectors_advances [OF ok db] in auto)
  show ?thesis
    unfolding store_centroids_def
  proof (rule comes_and_then [OF comes_with_error [OF read]], rule comes_when)
    show "r = ?db" if "T' = T \<and> r = ?db" for r T' using that by blast
    fix r assume r: "r = ?db"
    show "comes tbl J (\<lambda>T'. T' = T \<and> r = ?db) (and_then (with_error (joined ''failed to update database centroids'')
        (ask (save_rows R (set_vectors c r cs)))) (\<lambda>saved. apply_centroids R A c cs saved)) (\<lambda>_ T'. refreshed (a_convert A) c cs T T' \<and> refreshable w c T')"
      unfolding r
      by (simp, rule comes_and_then [OF comes_with_error [OF save]], rule comes_state) (use comes_apply_centroids [OF ok ref A cs n] in blast)
  qed
qed

lemma comes_front:
  assumes ok: "tables_ok T" and ref: "refreshable w c T" and ne: "t_embeddings T \<noteq> []" and n: "length (t_embeddings T) < a_fuel A"
    and k: "\<And>rows. rows = category_rows T c \<Longrightarrow> leads tbl J (\<lambda>T'. T' = T)
      (if rows = [] then give () else and_then (compute (cluster A (w - 8) rows)) (\<lambda>Y. store_centroids R A c (a_arrival A Y))) F"
  shows "leads tbl J (\<lambda>T'. T' = T) (KMeansDivideAndConquer R A c) F"
proof -
  have w: "8 < w" "\<forall>e \<in> set (t_embeddings T). 0 < embedding_ID e \<and> length (embedding_Vector e) = w" using ref by (simp_all add: refreshable_def)
  have laws': "reads_amid (=) tbl J (count_embeddings R c) (\<lambda>T n. n = length (category_embeddings T c))" "responds tbl J (count_embeddings R c) (\<lambda>_. True)"
      "reads_amid (=) tbl J (take_vector R) (\<lambda>T v. v \<in> embedding_Vector ` set (t_embeddings T))" "responds tbl J (take_vector R) (\<lambda>T. t_embeddings T \<noteq> [])"
      "reads_amid (=) tbl J (create_file R) (\<lambda>_ _. True)" "responds tbl J (create_file R) (\<lambda>_. True)"
    using laws answered unfolding refresh_laws_def refresh_reads_def never_fails_def by blast+
  have total: "comes tbl J (\<lambda>T'. T' = T) (ask (count_embeddings R c)) (\<lambda>_ T'. T' = T)" by (rule comes_reads [OF laws'(1,2)]) simp_all
  have vector: "comes tbl J (\<lambda>T'. T' = T) (ask (take_vector R)) (\<lambda>v T'. T' = T \<and> length v = w)"
    using ne w by (intro comes_reads [OF laws'(3,4)]) auto
  have opened: "comes tbl J (\<lambda>T'. T' = T) (ask (create_file R)) (\<lambda>_ T'. T' = T)" by (rule comes_reads [OF laws'(5,6)]) simp_all
  have rows: "comes tbl J (\<lambda>T'. T' = T) (find_in_batches (a_fuel A) (next_embeddings R c) write_batch 0 []) (\<lambda>rows T'. T' = T \<and> rows = category_rows T c)"
    using w by (intro comes_read_rows [OF ok _ n]) simp
  obtain vals where vals: "\<And>v. length v = w \<Longrightarrow> DequantizeVector F32 v = Done (vals v) \<and> length (vals v) = w - 8"
    using DequantizeVector_long [of _ F32] w(1) by (metis less_imp_le)
  have only: "leads tbl J (\<lambda>T'. T' = T \<and> Q) a F" if "Q \<Longrightarrow> leads tbl J (\<lambda>T'. T' = T) a F" for Q a
    using that by (auto simp: leads_def)
  show ?thesis
    unfolding KMeansDivideAndConquer_def
    by (rule leads_and_then [OF comes_with_error [OF total]], rule leads_and_then [OF comes_with_error [OF vector]], rule only,
        simp only: vals leads_computed, rule leads_and_then [OF comes_with_error [OF opened]],
        rule leads_and_then [OF comes_with_error [OF rows]], rule only, rule k)
qed

lemma leads_category:
  assumes ok: "tables_ok T" and ref: "refreshable w c T" and A: "good_args A" and ne: "category_embeddings T c \<noteq> []"
    and fit: "draws_fit (a_fuel A) (a_draws A) (a_canceled A) (a_size_sort A) (a_convert A) CENTROID_SIZE [] (category_rows T c)"
    and n: "length (t_embeddings T) < a_fuel A"
  shows "leads tbl J (\<lambda>T'. T' = T) (KMeansDivideAndConquer R A c) (\<lambda>r T'.
    case divideNconquer (a_fuel A) (a_draws A) (a_canceled A) (a_size_sort A) (a_convert A) CENTROID_SIZE [] (category_rows T c) of
      Some (Done Y) \<Rightarrow> r = Some (Done (Inr ())) \<and> refreshed (a_convert A) c (a_arrival A Y) T T' \<and> refreshable w c T'
    | Some (Panic e) \<Rightarrow> r = Some (Panic e) \<and> T' = T
    | None \<Rightarrow> False)"
proof (rule comes_front [OF ok ref _ n])
  have w: "8 < w" "\<forall>e \<in> set (t_embeddings T). length (embedding_Vector e) = w" using ref by (simp_all add: refreshable_def)
  show "t_embeddings T \<noteq> []" using ne by (auto simp: category_embeddings_def)
  have widths: "\<forall>v \<in> set (category_rows T c). length v = w" using w(2) by (auto simp: category_rows_def category_embeddings_def)
  have "length (category_rows T c) \<le> length (t_embeddings T)" by (simp add: category_rows_def category_embeddings_def)
  then have short: "length (category_rows T c) < a_fuel A" using n by simp
  have "sort_key embedding_ID (category_embeddings T c) \<noteq> []" using ne by (metis set_empty set_sort)
  then have full: "category_rows T c \<noteq> []" by (simp add: category_rows_def)
  then have good: "good_data w (category_rows T c)" using widths w(1) by (simp add: good_data_def)
  let ?Y = "divideNconquer (a_fuel A) (a_draws A) (a_canceled A) (a_size_sort A) (a_convert A) CENTROID_SIZE [] (category_rows T c)"
  have "SPLIT_SIZE \<le> CENTROID_SIZE" by (simp add: SPLIT_SIZE_def CENTROID_SIZE_def)
  then obtain r where r: "?Y = Some r" "\<And>Y. r = Done Y \<Longrightarrow> Y \<noteq> [] \<and> (\<forall>v \<in> set Y. length v = w)"
    using clustering_ends [OF good _ _ fit short] A by (auto simp: good_args_def)
  have cl: "cluster A (w - 8) (category_rows T c) = Some r" using w(1) widths r(1) by (simp add: cluster_def list_all_iff)
  fix rows assume "rows = category_rows T c"
  then show "leads tbl J (\<lambda>T'. T' = T)
      (if rows = [] then give () else and_then (compute (cluster A (w - 8) rows)) (\<lambda>Y. store_centroids R A c (a_arrival A Y)))
      (\<lambda>r T'. case ?Y of Some (Done Y) \<Rightarrow> r = Some (Done (Inr ())) \<and> refreshed (a_convert A) c (a_arrival A Y) T T' \<and> refreshable w c T'
        | Some (Panic e) \<Rightarrow> r = Some (Panic e) \<and> T' = T | None \<Rightarrow> False)"
  proof (cases r)
    case (Done Y)
    have same: "mset (a_arrival A Y) = mset Y" using A by (simp add: good_args_def)
    then have "set (a_arrival A Y) = set Y" "a_arrival A Y \<noteq> []" using r(2) [OF Done] by (metis set_mset_mset, auto)
    then have "good_data w (a_arrival A Y)" using r(2) [OF Done] w(1) by (simp add: good_data_def)
    from comes_store_centroids [OF ok ref A this n]
    have "leads tbl J (\<lambda>T'. T' = T) (store_centroids R A c (a_arrival A Y)) (\<lambda>r T'. r = Some (Done (Inr ()))
        \<and> refreshed (a_convert A) c (a_arrival A Y) T T' \<and> refreshable w c T')"
      by (rule leads_comes) simp
    then show ?thesis using \<open>rows = category_rows T c\<close> full by (simp add: cl r(1) Done leads_computed)
  next
    case (Panic e)
    then show ?thesis using \<open>rows = category_rows T c\<close> full by (simp add: cl r(1) leads_panic)
  qed
qed

lemma leads_nothing:
  assumes ok: "tables_ok T" and ref: "refreshable w c T" and ne: "category_embeddings T c = []" and n: "length (t_embeddings T) < a_fuel A"
  shows "leads tbl J (\<lambda>T'. T' = T) (KMeansDivideAndConquer R A c)
    (\<lambda>r T'. T' = T \<and> (if t_embeddings T = [] then \<exists>e. r = Some (Done (Inl e)) else r = Some (Done (Inr ()))))"
proof (cases "t_embeddings T = []")
  case False
  have "category_rows T c = []" using ne by (simp add: category_rows_def)
  then show ?thesis using False by (intro comes_front [OF ok ref False n]) (simp add: leads_def give_def)
next
  case True
  have r: "reads_amid (=) tbl J (take_vector R) (\<lambda>T v. v \<in> embedding_Vector ` set (t_embeddings T))"
    using laws unfolding refresh_laws_def refresh_reads_def by blast
  have total: "comes tbl J (\<lambda>T'. T' = T) (ask (count_embeddings R c)) (\<lambda>_ T'. T' = T)"
  proof (rule comes_reads)
    show "reads_amid (=) tbl J (count_embeddings R c) (\<lambda>T n. n = length (category_embeddings T c))" "responds tbl J (count_embeddings R c) (\<lambda>_. True)"
      using laws answered unfolding refresh_laws_def refresh_reads_def never_fails_def by blast+
  qed simp_all
  have none: "\<exists>e. fst (take_vector R s) = Inl e \<and> J (snd (take_vector R s)) \<and> tbl (snd (take_vector R s)) = T" if "J s" "tbl s = T" for s
  proof -
    have "J (snd (take_vector R s)) \<and> tbl s = tbl (snd (take_vector R s))
        \<and> (case fst (take_vector R s) of Inr v \<Rightarrow> v \<in> embedding_Vector ` set (t_embeddings (tbl (snd (take_vector R s)))) | Inl e \<Rightarrow> True)"
      using r that(1) unfolding reads_amid_def by blast
    then show ?thesis using True that(2) by (cases "fst (take_vector R s)") simp_all
  qed
  have "leads tbl J (\<lambda>T'. T' = T) (and_then (with_error f (ask (take_vector R))) k) (\<lambda>r T'. T' = T \<and> (\<exists>e. r = Some (Done (Inl e))))" for f k
    unfolding leads_def
  proof (intro allI impI)
    fix s assume "J s" "tbl s = T"
    then obtain e where "fst (take_vector R s) = Inl e" "J (snd (take_vector R s))" "tbl (snd (take_vector R s)) = T" using none by blast
    then show "J (snd (and_then (with_error f (ask (take_vector R))) k s)) \<and> tbl (snd (and_then (with_error f (ask (take_vector R))) k s)) = T
        \<and> (\<exists>e. fst (and_then (with_error f (ask (take_vector R))) k s) = Some (Done (Inl e)))"
      by (simp add: and_then_def with_error_def ask_def case_prod_beta)
  qed
  then show ?thesis using True unfolding KMeansDivideAndConquer_def by (intro leads_and_then [OF comes_with_error [OF total]]) simp
qed

end

section \<open>An example\<close>

text \<open>One category with one embedding.\<close>

lemma example_rows: "category_rows search_tables 1 = [[0, 0, 0, 0, 0, 0, 128, 63, 255]]"
  by (simp add: category_rows_def category_embeddings_def search_tables_def)

lemma example_draws: "good_draws (a_draws example_args) [] (length (category_rows search_tables 1)) k"
  unfolding example_rows by (simp add: good_draws_def example_args_def SAMPLE_SIZE_def BATCH_SIZE_CACHE_def SUPERSET_MUL_def)

lemma example_fits:
  "draws_fit (a_fuel example_args) (a_draws example_args) (a_canceled example_args) (a_size_sort example_args) (a_convert example_args)
    CENTROID_SIZE [] (category_rows search_tables 1)"
  using example_draws unfolding example_rows by (simp add: example_args_def numeral_3_eq_3 CENTROID_SIZE_def)

lemma example_clusters:
  "\<exists>c. divideNconquer (a_fuel example_args) (a_draws example_args) (a_canceled example_args) (a_size_sort example_args) (a_convert example_args)
    CENTROID_SIZE [] (category_rows search_tables 1) = Some (Done [c])"
proof -
  have "good_data 9 (category_rows search_tables 1)" unfolding example_rows by (simp add: good_data_def)
  then obtain c where "init_centroid (a_draws example_args) [] (a_size_sort example_args) (a_convert example_args) (category_rows search_tables 1) = Some (Done c)"
    using init_centroid_Done [OF _ example_draws, of 9 "a_size_sort example_args"] example_args_good unfolding good_args_def by blast
  then show ?thesis unfolding example_rows by (simp add: example_args_def numeral_3_eq_3 CENTROID_SIZE_def)
qed

section \<open>Properties\<close>

text \<open>
  C11: A refresh of a category with at least one embedding, undisturbed and with no failing query, returns, unless the clustering panics, which leaves
  the tables as they are. Then the rows of the category hold the clusters, in order, with the old identifiers first and new ones after them; every
  embedding of the category points to the row nearest to it; every row ends as the mean of its embeddings; nothing is dropped, no other
  category changes, and all vectors keep their width. It takes consistent tables in which every embedding and every centroid, of whatever category and owner,
  has one width (it is read off any embedding of the database) longer than the header, and identifiers that start at one. The draws of the clustering
  are given as long enough lists, and the fuel is more than the number of embeddings.
\<close>

theorem category_is_refreshed:
  assumes "\<And>s. J s \<Longrightarrow> tables_ok (tbl s)" and "refresh_laws (=) tbl J R" and "never_fails tbl J R" and "good_args A"
    and "refreshable w c (tbl s)" and "category_embeddings (tbl s) c \<noteq> []" and "J s"
    and "draws_fit (a_fuel A) (a_draws A) (a_canceled A) (a_size_sort A) (a_convert A) CENTROID_SIZE [] (category_rows (tbl s) c)"
    and "length (t_embeddings (tbl s)) < a_fuel A"
  shows "case divideNconquer (a_fuel A) (a_draws A) (a_canceled A) (a_size_sort A) (a_convert A) CENTROID_SIZE [] (category_rows (tbl s) c) of
      Some (Done Y) \<Rightarrow> fst (KMeansDivideAndConquer R A c s) = Some (Done (Inr ()))
        \<and> refreshed (a_convert A) c (a_arrival A Y) (tbl s) (tbl (snd (KMeansDivideAndConquer R A c s)))
        \<and> refreshable w c (tbl (snd (KMeansDivideAndConquer R A c s)))
    | Some (Panic e) \<Rightarrow> fst (KMeansDivideAndConquer R A c s) = Some (Panic e) \<and> tbl (snd (KMeansDivideAndConquer R A c s)) = tbl s
    | None \<Rightarrow> False"
proof -
  have "steady tbl J R" using assms(1-3) by unfold_locales
  from steady.leads_category [OF this assms(1) [OF assms(7)] assms(5,4,6,8,9)] assms(7)
  show ?thesis unfolding leads_def by blast
qed

theorem category_is_refreshed_witness:
  "\<exists>c. fst (KMeansDivideAndConquer memory_refresh example_args 1 \<lparr>mem = search_tables, script = []\<rparr>) = Some (Done (Inr ()))
    \<and> refreshed (\<lambda>_. 0) 1 [c] search_tables (mem (snd (KMeansDivideAndConquer memory_refresh example_args 1 \<lparr>mem = search_tables, script = []\<rparr>)))"
proof -
  let ?d = "\<lparr>mem = search_tables, script = []\<rparr>"
  obtain c where c: "divideNconquer (a_fuel example_args) (a_draws example_args) (a_canceled example_args) (a_size_sort example_args) (a_convert example_args)
      CENTROID_SIZE [] (category_rows (mem ?d) 1) = Some (Done [c])"
    using example_clusters by auto
  have "refreshable 9 1 (mem ?d)" "category_embeddings (mem ?d) 1 \<noteq> []" "length (t_embeddings (mem ?d)) < a_fuel example_args"
      "memory_at True ?d"
    using search_tables_ok
    by (simp_all add: refreshable_def search_tables_def category_ids_def category_embeddings_def example_args_def memory_at_def)
  from category_is_refreshed [OF _ memory_refresh_at memory_never_fails example_args_good this(1,2,4) _ this(3)] example_fits
  show ?thesis unfolding c by (auto simp: memory_at_def example_args_def intro!: exI [of _ c])
qed

text \<open>
  A category without embeddings is left as it is. But while there are no embeddings at all, the refresh cannot tell the width of the vectors and
  reports an error.
\<close>

theorem nothing_to_refresh:
  assumes "\<And>s. J s \<Longrightarrow> tables_ok (tbl s)" and "refresh_laws (=) tbl J R" and "never_fails tbl J R"
    and "refreshable w c (tbl s)" and "category_embeddings (tbl s) c = []" and "J s" and "length (t_embeddings (tbl s)) < a_fuel A"
  shows "tbl (snd (KMeansDivideAndConquer R A c s)) = tbl s
    \<and> (if t_embeddings (tbl s) = [] then \<exists>e. fst (KMeansDivideAndConquer R A c s) = Some (Done (Inl e))
       else fst (KMeansDivideAndConquer R A c s) = Some (Done (Inr ())))"
proof -
  have "steady tbl J R" using assms(1-3) by unfold_locales
  from steady.leads_nothing [OF this assms(1) [OF assms(6)] assms(4,5,7)] assms(6)
  show ?thesis unfolding leads_def by blast
qed

text \<open>Without embeddings.\<close>

theorem nothing_to_refresh_witness:
  "\<exists>e. fst (KMeansDivideAndConquer memory_refresh example_args 1 \<lparr>mem = search_tables\<lparr>t_embeddings := []\<rparr>, script = []\<rparr>) = Some (Done (Inl e))"
proof -
  let ?d = "\<lparr>mem = search_tables\<lparr>t_embeddings := []\<rparr>, script = []\<rparr>"
  have "tables_ok (mem ?d)"
    by (simp add: search_tables_def tables_ok_def keys_ok_def indexes_ok_def references_ok_def same_category_def id_sets)
  then have "refreshable 9 1 (mem ?d)" "category_embeddings (mem ?d) 1 = []" "length (t_embeddings (mem ?d)) < a_fuel example_args"
      "memory_at True ?d"
    by (simp_all add: refreshable_def search_tables_def category_ids_def category_embeddings_def example_args_def memory_at_def)
  from nothing_to_refresh [OF _ memory_refresh_at memory_never_fails this(1,2,4,3)]
  show ?thesis by (simp add: memory_at_def)
qed

end
