(* ===== verification/RefreshAll.thy ===== *)
theory RefreshAll
  imports RefreshDone
begin

text \<open>
  \<open>RefreshCentroids\<close> when nothing disturbs it: the categories are refreshed one after the other, each from the tables the one before has left.
\<close>

definition clusters :: "refresh_args \<Rightarrow> u8 list list \<Rightarrow> u8 list list outcome option" where
  "clusters A rows =
     divideNconquer (a_fuel A) (a_draws A) (a_canceled A) (a_size_sort A) (a_convert A) CENTROID_SIZE [] rows"

fun all_refreshed :: "(id \<Rightarrow> refresh_args) \<Rightarrow> id list \<Rightarrow> tables \<Rightarrow> tables \<Rightarrow> bool" where
  "all_refreshed A [] T T' \<longleftrightarrow> T' = T"
| "all_refreshed A (c # cs) T T' \<longleftrightarrow> (\<exists>T1.
     (if category_embeddings T c = [] then T1 = T
      else \<exists>Y. clusters (A c) (category_rows T c) = Some (Done Y) \<and> refreshed (a_convert (A c)) c (a_arrival (A c) Y) T T1)
     \<and> all_refreshed A cs T1 T')"

definition ready :: "nat \<Rightarrow> (id \<Rightarrow> refresh_args) \<Rightarrow> tables \<Rightarrow> bool" where
  "ready w A T \<longleftrightarrow> t_embeddings T \<noteq> [] \<and> (\<forall>c \<in> category_ids T. refreshable w c T \<and> length (t_embeddings T) < a_fuel (A c)
   \<and> draws_fit (a_fuel (A c)) (a_draws (A c)) (a_canceled (A c)) (a_size_sort (A c)) (a_convert (A c)) CENTROID_SIZE [] (category_rows T c))"

section \<open>One refresh after the other\<close>

lemma insort_key_map: "(\<And>x. f (g x) = f x) \<Longrightarrow> insort_key f (g x) (map g xs) = map g (insort_key f x xs)"
  by (induction xs) simp_all

lemma sort_key_map: "(\<And>x. f (g x) = f x) \<Longrightarrow> sort_key f (map g xs) = map g (sort_key f xs)"
  by (induction xs) (simp_all add: insort_key_map)

lemma rows_relabelled:
  assumes "\<And>e. embedding_ID (g e) = embedding_ID e" and "\<And>e. embedding_DocumentID (g e) = embedding_DocumentID e"
    and "\<And>e. embedding_Vector (g e) = embedding_Vector e"
    and "t_embeddings T' = map g (t_embeddings T)" and "t_documents T' = t_documents T"
  shows "category_embeddings T' k = map g (category_embeddings T k)" and "category_rows T' k = category_rows T k"
proof -
  show c: "category_embeddings T' k = map g (category_embeddings T k)"
    by (simp add: category_embeddings_def filter_map comp_def assms)
  have "sort_key embedding_ID (map g xs) = map g (sort_key embedding_ID xs)" for xs using assms(1) by (rule sort_key_map)
  then show "category_rows T' k = category_rows T k" by (simp add: category_rows_def c comp_def assms(3))
qed

text \<open>A refresh changes no vector, so it leaves what the others read.\<close>

lemma refreshed_leaves:
  assumes "refreshed convert c cs T T'"
  shows "category_rows T' k = category_rows T k" and "category_ids T' = category_ids T" and "length (t_embeddings T') = length (t_embeddings T)"
    and "category_embeddings T' k = [] \<longleftrightarrow> category_embeddings T k = []"
proof -
  obtain saved :: "Centroid list" where e: "t_embeddings T' = map (\<lambda>e. if e \<in> set (category_embeddings T c)
        then e\<lparr>embedding_CentroidID := centroid_ID (saved ! nearest_index cs (embedding_Vector e))\<rparr> else e) (t_embeddings T)"
      (is "_ = map ?g _") and same: "t_categories T' = t_categories T" "t_documents T' = t_documents T"
    using assms unfolding refreshed_def by blast
  note r = rows_relabelled [OF _ _ _ e same(2)]
  show "category_embeddings T' k = [] \<longleftrightarrow> category_embeddings T k = []" by (subst r(1)) simp_all
  show "category_rows T' k = category_rows T k" by (rule r(2)) simp_all
  show "category_ids T' = category_ids T" "length (t_embeddings T') = length (t_embeddings T)" by (simp_all add: category_ids_def same e)
qed

lemma ready_stays:
  assumes "ready w A T" and "refreshed convert c cs T T'" and "refreshable w c T'"
  shows "ready w A T'"
proof -
  note l = refreshed_leaves [OF assms(2)]
  have "t_embeddings T' \<noteq> []" using assms(1) l(3) by (auto simp: ready_def)
  moreover have "refreshable w k T'" if "k \<in> category_ids T'" for k using that assms(3) by (simp add: refreshable_def)
  ultimately show ?thesis using assms(1) unfolding ready_def l by blast
qed

lemma comes_leads: "leads tbl J P a F \<Longrightarrow> (\<And>r T. F r T \<Longrightarrow> \<exists>x. r = Some (Done (Inr x)) \<and> Q x T) \<Longrightarrow> comes tbl J P a Q"
  unfolding leads_def comes_def by (metis prod.collapse)

lemma leads_mono: "leads tbl J P a F \<Longrightarrow> (\<And>r T. F r T \<Longrightarrow> G r T) \<Longrightarrow> leads tbl J P a G"
  unfolding leads_def by blast

lemma leads_attempt_panic:
  assumes "leads tbl J P a (\<lambda>r T. r = Some (Panic e))"
  shows "leads tbl J P (and_then (attempt a) k) (\<lambda>r T. r = Some (Panic e))"
  unfolding leads_def
proof (intro allI impI)
  fix s assume "J s" "P (tbl s)"
  then obtain s' where "a s = (Some (Panic e), s')" "J s'" using assms unfolding leads_def by (metis prod.collapse)
  then show "J (snd (and_then (attempt a) k s)) \<and> fst (and_then (attempt a) k s) = Some (Panic e)" by (simp add: and_then_def attempt_def)
qed

context steady
begin

lemma leads_state:
  "(\<And>T1. tables_ok T1 \<Longrightarrow> P T1 \<Longrightarrow> leads tbl J (\<lambda>T. T = T1) a F) \<Longrightarrow> leads tbl J P a F"
  unfolding leads_def using consistent by blast

lemma comes_only_if:
  assumes "f \<in> {begin_lock R, rollback R, commit R}"
  shows "comes tbl J P (only_if b f) (\<lambda>_. P)"
proof -
  have "\<forall>s. J s \<longrightarrow> J (f s) \<and> tbl s = tbl (f s)" using laws assms unfolding refresh_laws_def refresh_reads_def by blast
  then show ?thesis by (auto simp: only_if_def comes_def act_def give_def)
qed

lemma comes_lock:
  assumes "c \<in> category_ids T"
  shows "comes tbl J (\<lambda>T'. T' = T) (attempt (ask (lock_category R c))) (\<lambda>r T'. \<exists>x. r = Inr x \<and> T' = T)"
proof (rule comes_attempt, rule comes_reads)
  show "reads_amid (=) tbl J (lock_category R c) (\<lambda>T _. c \<in> category_ids T)" "responds tbl J (lock_category R c) (\<lambda>T. c \<in> category_ids T)"
    using laws answered unfolding refresh_laws_def refresh_reads_def never_fails_def by blast+
qed (use assms in auto)

text \<open>One category: it is refreshed, or it is empty, or its clustering ends the process.\<close>

lemma category_comes:
  assumes ok: "tables_ok T" and ready: "ready w A T" and c: "c \<in> category_ids T" and A: "good_args (A c)"
  shows "(\<exists>e. clusters (A c) (category_rows T c) = Some (Panic e)
      \<and> leads tbl J (\<lambda>T'. T' = T) (KMeansDivideAndConquer R (A c) c) (\<lambda>r T'. r = Some (Panic e)))
    \<or> comes tbl J (\<lambda>T'. T' = T) (KMeansDivideAndConquer R (A c) c) (\<lambda>_ T'. ready w A T' \<and> category_ids T' = category_ids T
      \<and> (if category_embeddings T c = [] then T' = T
         else \<exists>Y. clusters (A c) (category_rows T c) = Some (Done Y) \<and> refreshed (a_convert (A c)) c (a_arrival (A c) Y) T T'))"
proof -
  have r: "refreshable w c T" "length (t_embeddings T) < a_fuel (A c)" "t_embeddings T \<noteq> []"
      "draws_fit (a_fuel (A c)) (a_draws (A c)) (a_canceled (A c)) (a_size_sort (A c)) (a_convert (A c)) CENTROID_SIZE [] (category_rows T c)"
    using ready c by (auto simp: ready_def)
  show ?thesis
  proof (cases "category_embeddings T c = []")
    case True
    show ?thesis using True r(3) ready by (intro disjI2 comes_leads [OF leads_nothing [OF ok r(1) True r(2)]]) auto
  next
    case False
    note l = leads_category [OF ok r(1) A False r(4,2), folded clusters_def]
    show ?thesis
    proof (cases "clusters (A c) (category_rows T c)")
      case None
      then have "\<not> J s" if "tbl s = T" for s using l that by (auto simp: leads_def)
      then show ?thesis by (intro disjI2) (auto simp: comes_def)
    next
      case (Some x)
      show ?thesis
      proof (cases x)
        case (Done Y)
        with l Some have "leads tbl J (\<lambda>T'. T' = T) (KMeansDivideAndConquer R (A c) c)
            (\<lambda>r T'. r = Some (Done (Inr ())) \<and> refreshed (a_convert (A c)) c (a_arrival (A c) Y) T T' \<and> refreshable w c T')" by simp
        then show ?thesis
          by (intro disjI2 comes_leads) (assumption, use False Some Done ready_stays [OF ready] refreshed_leaves(2) in auto)
      next
        case (Panic e)
        with l Some have "leads tbl J (\<lambda>T'. T' = T) (KMeansDivideAndConquer R (A c) c) (\<lambda>r T'. r = Some (Panic e) \<and> T' = T)" by simp
        then have "leads tbl J (\<lambda>T'. T' = T) (KMeansDivideAndConquer R (A c) c) (\<lambda>r T'. r = Some (Panic e))" by (rule leads_mono) simp
        then show ?thesis using Some Panic by blast
      qed
    qed
  qed
qed

lemma leads_each:
  assumes "tables_ok T" and "ready w A T" and "set cs \<subseteq> category_ids T" and A: "\<forall>c. good_args (A c)"
  shows "leads tbl J (\<lambda>T'. T' = T) (refresh_each R A postgres cs) (\<lambda>r T'.
      r = Some (Done (Inr ())) \<and> all_refreshed A cs T T'
    \<or> (\<exists>c \<in> set cs. \<exists>e. clusters (A c) (category_rows T c) = Some (Panic e) \<and> r = Some (Panic e)))"
  using assms(1-3)
proof (induction cs arbitrary: T)
  case Nil
  then show ?case by (simp add: leads_def give_def)
next
  case (Cons c cs)
  let ?F = "\<lambda>r T'. r = Some (Done (Inr ())) \<and> all_refreshed A (c # cs) T T'
    \<or> (\<exists>c \<in> set (c # cs). \<exists>e. clusters (A c) (category_rows T c) = Some (Panic e) \<and> r = Some (Panic e))"
  let ?one = "\<lambda>T'. if category_embeddings T c = [] then T' = T
      else \<exists>Y. clusters (A c) (category_rows T c) = Some (Done Y) \<and> refreshed (a_convert (A c)) c (a_arrival (A c) Y) T T'"
  let ?Q = "\<lambda>T'. ready w A T' \<and> category_ids T' = category_ids T \<and> ?one T'"
  let ?finish = "\<lambda>finished :: error + unit. case finished of Inl e \<Rightarrow> only_if postgres (rollback R)
      | Inr _ \<Rightarrow> and_then (only_if postgres (commit R)) (\<lambda>_. refresh_each R A postgres cs)"
  have rest: "leads tbl J (\<lambda>T'. T' = T1) (refresh_each R A postgres cs) ?F" if T1: "tables_ok T1" "?Q T1" for T1
  proof -
    have same: "category_rows T1 k = category_rows T k" for k using T1(2) refreshed_leaves(1) by (auto split: if_splits)
    have ih: "leads tbl J (\<lambda>T'. T' = T1) (refresh_each R A postgres cs) (\<lambda>r T'.
        r = Some (Done (Inr ())) \<and> all_refreshed A cs T1 T'
      \<or> (\<exists>c \<in> set cs. \<exists>e. clusters (A c) (category_rows T1 c) = Some (Panic e) \<and> r = Some (Panic e)))"
      using T1 Cons.prems(3) by (intro Cons.IH) auto
    have step: "all_refreshed A (c # cs) T T'" if "all_refreshed A cs T1 T'" for T'
      unfolding all_refreshed.simps using T1(2) that by (intro exI [of _ T1]) simp
    show ?thesis by (rule leads_mono [OF ih]) (use step in \<open>auto simp: same simp del: all_refreshed.simps\<close>)
  qed
  have finish: "leads tbl J (\<lambda>T'. \<exists>x. finished = Inr x \<and> ?Q T') (?finish finished) ?F" for finished
  proof (cases finished)
    case (Inl e)
    then show ?thesis by (simp add: leads_def)
  next
    case (Inr x)
    have "leads tbl J ?Q (and_then (only_if postgres (commit R)) (\<lambda>_. refresh_each R A postgres cs)) ?F"
      by (rule leads_and_then [OF comes_only_if], simp, rule leads_state) (rule rest)
    then show ?thesis using Inr by (simp add: leads_def)
  qed
  have "leads tbl J (\<lambda>T'. T' = T) (and_then (attempt (KMeansDivideAndConquer R (A c) c)) ?finish) ?F"
  proof (cases "comes tbl J (\<lambda>T'. T' = T) (KMeansDivideAndConquer R (A c) c) (\<lambda>_. ?Q)")
    case True
    show ?thesis by (rule leads_and_then [OF comes_attempt [OF True] finish])
  next
    case False
    then obtain e where e: "clusters (A c) (category_rows T c) = Some (Panic e)"
        "leads tbl J (\<lambda>T'. T' = T) (KMeansDivideAndConquer R (A c) c) (\<lambda>r T'. r = Some (Panic e))"
      using category_comes [OF Cons.prems(1,2) _ A [rule_format], of c] Cons.prems(3) by auto
    from leads_attempt_panic [OF e(2)] show ?thesis by (rule leads_mono) (use e(1) in auto)
  qed
  then have locked: "leads tbl J (\<lambda>T'. \<exists>x. locked = Inr x \<and> T' = T) (case locked of
       Inl e \<Rightarrow> and_then (only_if postgres (rollback R)) (\<lambda>_.
         if \<not> is_canceled e \<and> postgres \<and> mentions_lock e then refresh_each R A postgres cs else give ())
     | Inr _ \<Rightarrow> and_then (attempt (KMeansDivideAndConquer R (A c) c)) ?finish) ?F" for locked :: "error + unit"
    by (cases locked) (simp_all add: leads_def)
  have "c \<in> category_ids T" using Cons.prems(3) by simp
  from leads_and_then [OF comes_lock [OF this] locked] show ?case
    unfolding refresh_each.simps by (rule leads_and_then [OF comes_only_if, rotated]) simp
qed

lemma leads_all:
  assumes "tables_ok T" and "ready w A T" and A: "\<forall>c. good_args (A c)"
  shows "leads tbl J (\<lambda>T'. T' = T) (RefreshCentroids R A postgres) (\<lambda>r T'. \<exists>cs. set cs = category_ids T \<and>
      (r = Some (Done (Inr ())) \<and> all_refreshed A cs T T'
    \<or> (\<exists>c \<in> set cs. \<exists>e. clusters (A c) (category_rows T c) = Some (Panic e) \<and> r = Some (Panic e))))"
    (is "leads tbl J _ _ ?F")
proof -
  have "reads_amid (=) tbl J (list_categories R) (\<lambda>T cs. set cs = category_ids T)" "responds tbl J (list_categories R) (\<lambda>_. True)"
    using laws answered unfolding refresh_laws_def refresh_reads_def never_fails_def by blast+
  then have "comes tbl J (\<lambda>T'. T' = T) (ask (list_categories R)) (\<lambda>cs T'. set cs = category_ids T \<and> T' = T)"
    by (rule comes_reads) simp_all
  from comes_attempt [OF this]
  have read: "comes tbl J (\<lambda>T'. T' = T) (attempt (ask (list_categories R))) (\<lambda>r T'. \<exists>cs. r = Inr cs \<and> set cs = category_ids T \<and> T' = T)" .
  have each: "leads tbl J (\<lambda>T'. T' = T) (refresh_each R A postgres cs) ?F" if "set cs = category_ids T" for cs
    by (rule leads_mono [OF leads_each [OF assms(1,2) _ A]]) (use that in blast)+
  have "leads tbl J (\<lambda>T'. \<exists>cs. r = Inr cs \<and> set cs = category_ids T \<and> T' = T)
      (case r of Inl e \<Rightarrow> give () | Inr cs \<Rightarrow> refresh_each R A postgres cs) ?F" for r :: "error + id list"
  proof (rule leads_when)
    assume "\<exists>cs. r = Inr cs \<and> set cs = category_ids T"
    then show ?thesis using each by (auto simp: leads_def)
  qed blast
  from leads_and_then [OF read this] show ?thesis unfolding RefreshCentroids_def .
qed

end

section \<open>Properties\<close>

text \<open>
  C13: A refresh of a database with at least one embedding, undisturbed and with no failing query, refreshes all categories: it returns with every
  category that has embeddings refreshed, each from the tables the one before has left, and the empty ones as they were; only a clustering that
  panics ends it, and the process, before. It takes consistent tables in which every embedding and every centroid of the database has one width, longer
  than the header, and identifiers that start at one, and for every category long enough lists of draws and enough fuel. (With no embedding
  at all the refresh ends with an error as soon as there is a category: \<open>nothing_to_refresh\<close>.)
\<close>

theorem all_categories_refreshed:
  assumes "\<And>s. J s \<Longrightarrow> tables_ok (tbl s)" and "refresh_laws (=) tbl J R" and "never_fails tbl J R" and "\<forall>c. good_args (A c)"
    and "ready w A (tbl s)" and "J s" and "RefreshCentroids R A postgres s = (r, s')"
  shows "\<exists>cs. set cs = category_ids (tbl s) \<and> (r = Some (Done (Inr ())) \<and> all_refreshed A cs (tbl s) (tbl s')
    \<or> (\<exists>c \<in> set cs. \<exists>e. clusters (A c) (category_rows (tbl s) c) = Some (Panic e) \<and> r = Some (Panic e)))"
proof -
  have "steady tbl J R" using assms(1-3) by unfold_locales
  from steady.leads_all [OF this assms(1) [OF assms(6)] assms(5,4), of postgres] assms(6,7)
  show ?thesis unfolding leads_def by fastforce
qed

theorem all_categories_refreshed_witness:
  "\<exists>d cs. RefreshCentroids memory_refresh (\<lambda>_. example_args) False \<lparr>mem = search_tables, script = []\<rparr> = (Some (Done (Inr ())), d)
    \<and> set cs = {1} \<and> all_refreshed (\<lambda>_. example_args) cs search_tables (mem d)"
proof -
  let ?d = "\<lparr>mem = search_tables, script = []\<rparr>" and ?A = "\<lambda>_ :: id. example_args"
  obtain r d where run: "RefreshCentroids memory_refresh ?A False ?d = (r, d)" by force
  have ids: "category_ids search_tables = {1}" by (simp add: category_ids_def search_tables_def)
  have "refreshable 9 1 search_tables" "length (t_embeddings search_tables) < a_fuel example_args" "t_embeddings search_tables \<noteq> []"
    by (simp_all add: refreshable_def search_tables_def category_ids_def example_args_def)
  then have "ready 9 ?A (mem ?d)" using example_fits by (simp add: ready_def ids)
  moreover have "memory_at True ?d" using search_tables_ok by (simp add: memory_at_def)
  moreover have "\<forall>c. good_args (?A c)" using example_args_good by simp
  ultimately obtain cs where "set cs = {1}" and "r = Some (Done (Inr ())) \<and> all_refreshed ?A cs search_tables (mem d)
      \<or> (\<exists>c \<in> set cs. \<exists>e. clusters example_args (category_rows search_tables c) = Some (Panic e) \<and> r = Some (Panic e))"
    using all_categories_refreshed [OF _ memory_refresh_at memory_never_fails _ _ _ run, of 9] by (auto simp: memory_at_def ids)
  moreover obtain c where "clusters example_args (category_rows search_tables 1) = Some (Done [c])"
    using example_clusters unfolding clusters_def by blast
  ultimately show ?thesis using run by auto
qed

end
