(* ===== verification/Spec2Isabelle.thy ===== *)
theory Spec2Isabelle
  imports UiApp UiSearch UiSummary UiContent Decimal Quantization Cosine Format Model Cache GoSort Sampling KMeans
    DivideConquer Refresh Search Server Paging AiClients SplitTree
    RefreshLocks RefreshAll
begin

text \<open>
  A verification library for go-vectorsearch: a server in Go that stores documents with vector embeddings and searches them by
  similarity, and its browser client in TypeScript. This theory imports all others and holds their map.

  \<^bold>\<open>The program.\<close> A document is uploaded (\<open>server/upload.go\<close>), flattened and cut into sections (\<open>server/format.go\<close>), embedded by a language
  model (\<open>ai/\<close>), and every embedding is quantized to bytes (\<open>compute/quantization.go\<close>) and stored with the nearest centroid of its category
  (\<open>compute/cosine.go\<close>). A search (\<open>server/search.go\<close>) embeds the query, takes the embeddings of the nearest centroids in batches and ranks their
  documents. A chat (\<open>server/chat.go\<close>) sends documents and a question to a model and relays its stream. Owners, categories and centroids are
  read through a cache with expiry (\<open>cache/\<close>). At start the centroids of every category are computed again by a divide-and-conquer k-means
  over cache files (\<open>dnc/\<close>). The page of the browser (\<open>ui/src\<close>) is React components over five API modules.

  \<^bold>\<open>Foundations.\<close>
  \<^item> \<open>Prelude\<close>: errors as lists of leaves (\<open>errors.Join\<close>, \<open>errors.Is\<close>), outcomes that return or panic, shared lemmas. A Go \<open>error\<close> result is a sum,
    a panic is the constructor \<open>Panic\<close>.
  \<^item> \<open>Floats\<close>, \<open>Decimal\<close>: floating-point numbers of both widths as rationals with minus zero, the infinities and NaN, rounded to the nearest even; the text of
    \<open>toFixed\<close>. \<open>JsBase\<close>: JavaScript strings as UTF-16 code units, JSON values, \<open>fetch\<close>.
  \<^item> \<open>Machine\<close>: runs, reachable states and visited events of a machine with enabled events, and the locale of an invariant, interpreted by every machine of the library.
  \<^item> \<open>GoSort\<close>: what \<open>slices.SortFunc\<close> promises (a locale for sorts, interpreted on insertion sort, the algorithm for short slices).

  \<^bold>\<open>The browser client.\<close> Handlers of a component are functions on its state, the view says which events are possible, and an answer of the
  network is an event of its own, so that any interleaving of user and network is a run.
  \<^item> \<open>UiApi\<close>: \<open>api/*.ts\<close>. \<open>UiApp\<close>: \<open>App.tsx\<close> and \<open>Categories.tsx\<close>. \<open>UiSearch\<close>, \<open>UiSummary\<close>: \<open>Search.tsx\<close> and its result rows. \<open>UiContent\<close>:
    \<open>Content.tsx\<close> and \<open>tools/*.ts\<close>; an asynchronous upload is suspended at each file it awaits.
  \<^item> \<open>UiPage\<close>: the page as one machine of these components, whose root reads the owner from the storage at every rendering. \<open>Paging\<close>: the requests of the page answered by the server.

  \<^bold>\<open>Vectors.\<close>
  \<^item> \<open>Quantization\<close>: both widths with the conversions of Go; results of a conversion Go leaves to the implementation are an argument.
  \<^item> \<open>Cosine\<close>: matrices, norms and products, the nearest row, in the order of operations of the default build.
  \<^item> \<open>KMeans\<close>, \<open>Sampling\<close>, \<open>DivideConquer\<close>, \<open>SplitTree\<close>: the cache file as bytes, samples, k-means, the recursion with its pool of goroutines, and its end.
    Random draws and sorts are arguments.

  \<^bold>\<open>The refresh.\<close> It runs in the background, beside the requests, so its queries are steps between which the tables change.
  \<^item> \<open>Refresh\<close>: its computations on rows. \<open>Refreshing\<close>: the refresh of a category and of all (\<open>server/centroids.go\<close>) as processes over a record of
    queries, with every error path and the transaction that locks a category.
  \<^item> \<open>RefreshRules\<close>: a logic for processes, the laws of the queries, and what a refresh knows of the tables whatever happens in between.
    \<open>RefreshKept\<close>: its proof, in a locale; \<open>RefreshServer\<close>: a store in memory, and the refresh interleaved with the requests of \<open>Server\<close>.
    \<open>RefreshLocks\<close>: transactions.
  \<^item> \<open>RefreshSteps\<close>, \<open>RefreshMoves\<close>, \<open>RefreshDone\<close>, \<open>RefreshAll\<close>: total correctness of a refresh that nothing disturbs, of a category and of all.

  \<^bold>\<open>The server.\<close>
  \<^item> \<open>Format\<close>: \<open>Flatten\<close> and \<open>Split\<close> on code points. \<open>Cache\<close>: tables with expiry and their clean-up, and the lock protocol. \<open>Model\<close>: rows and constants.
  \<^item> \<open>Store\<close>: the tables, the constraints of the tags in \<open>database/model.go\<close>, the queries the source issues as a record of functions, and the laws
    they obey (\<open>lawful\<close>): a query fails and changes nothing, or has its documented effect, foreign keys and cascades enforced. A store in memory with a script of failures obeys them.
  \<^item> \<open>Ranking\<close>, \<open>Search\<close>, \<open>Upload\<close>, \<open>Delete\<close>, \<open>Chat\<close>: the handlers on cache and database, every error path included. \<open>Handlers\<close>: the logic they are
    proved in and the locale \<open>database\<close>, interpreted on the store in memory.
  \<^item> \<open>Http\<close>: the seven HTTP handlers. \<open>Server\<close>: the operations behind the routes of \<open>main.go\<close> as one machine.
  \<^item> \<open>HttpClient\<close>, \<open>AiClients\<close>: addresses and HTTP clients of the providers as machines of goroutines; choice of the model, embeddings, the
    lines \<open>bufio.Scanner\<close> makes of a stream.

  \<^bold>\<open>What is shown.\<close> For the vectors: quantizing keeps the order and reads back within a 255th of the range; the nearest row is
  nearest; splitting a dataset is a partition; k-means and the clustering end. For the refresh: undisturbed it returns with the clusters stored and every
  embedding at its nearest one; beside any requests and with any failures it keeps the tables and the cache consistent, and it gives its locks back. For the
  server: upload, search and deletion refine statements about the tables for every lawful database and every failure; the tables stay consistent in every reachable
  state; what is uploaded is found; the status of an answer tells what happened. For the cache: answers are fresh. For the client: invariants of
  each component and of the page, the origin of every request in what the user did, and how pages of results fit together. For the providers: load, use of clients, the text of a chat.
  Where the code does not do what it means to, the theorem states what it does.

  \<^bold>\<open>Arguments and hypotheses.\<close> Code that is not in the repository is an argument: the database, the language models, the network, JSON,
  compression, the clock, random numbers, PDF and DOCX readers. A handler runs as one step on cache and database; concurrent requests interleave
  as whole operations, the refresh query by query; single flight in the cache makes fetches of one key sequential. The laws of the database have foreign
  keys and cascades enforced, which PostgreSQL does; SQLite, which the sample configuration opens without its \<open>foreign_keys\<close> pragma, does not, and the
  theorems with \<open>lawful\<close> say nothing about it. \<open>cache_fresh\<close> names what a handler needs of cached rows:
  that they are still those of the tables; the theorems on stale rows show what happens otherwise. \<open>same_length\<close>, \<open>vectors_fit\<close> and
  \<open>refreshable\<close> say that stored vectors have one width, which nothing in the source checks. A search is bounded by the largest capacity the run time can allocate. Similarities are compared as rounded numbers, with NaN below all others, as \<open>cmp.Compare\<close> does.

  \<^bold>\<open>Fuel.\<close> \<open>kmeans_loop\<close> counts the rounds down from the limit in the source, and the drawing of different indexes consumes a list; \<open>kMeans_returns\<close>
  shows that a list with enough different indexes suffices. \<open>a_fuel\<close> bounds the depth of the clustering and the batches of a query; more than there are
  rows is enough for both (\<open>clustering_ends\<close>, \<open>category_is_refreshed\<close>). Everything else terminates by structure or by a measure.

  \<^bold>\<open>Not modelled.\<close> Start and stop of the process, header and compression middleware, configuration, TLS and logging (calls of libraries); the
  gorm queries themselves, what a row lock excludes, read replicas and the compressed column; the goroutines of a refresh within a batch, which take turns, and its progress
  bars, for which it waits at the end; generation and the unstreamed
  chat, which the server never calls; the gonum and gorgonia builds except for how the first picks its matches; the minified bundle under \<open>static/\<close>, which is generated, the
  start of the page (\<open>main.tsx\<close>) and the settings of the build tools; styles. A client that stops reading its answer is not modelled.
\<close>

end
